(* ===== verification/Prelude.thy ===== *)
theory Prelude
  imports Main "HOL-Library.Word"
begin

text \<open>
  Shared vocabulary of the development: the ways a C++ operation of the library can fail to
  return, the result type that carries them, 64-bit \<^verbatim>\<open>std::size_t\<close> arithmetic on
  natural numbers with the wrap-around written out, bytes and characters, and the list
  lemmas several components use.
\<close>

section \<open>Failures as values\<close>

text \<open>
  One constructor per way control leaves an operation early. \<open>Contract\<close> is a violated
  \<^verbatim>\<open>Expects\<close>/\<^verbatim>\<open>Ensures\<close> of gsl-lite: control does not continue. The exceptions keep
  their class only, except that a \<^verbatim>\<open>parse_error\<close> keeps the key it names. \<open>Undefined\<close>
  is undefined behaviour of C++ (a dereferenced end iterator, a read past a buffer),
  \<open>Diverges\<close> a loop that never ends and \<open>Terminated\<close> a call of \<^verbatim>\<open>std::terminate\<close>.
\<close>

datatype error =
    Contract
  | Invalid_Argument
  | Out_Of_Range
  | Runtime_Error
  | Logic_Error
  | System_Error
  | Parse_Error string
  | Bad_Access
  | Undefined
  | Diverges
  | Terminated
  | Bad_Optional_Access

type_synonym 'a result = "error + 'a"

named_theorems result_simps "rules that evaluate a computation of type result"
named_theorems size_simps "size_t arithmetic away from the wrap-around"

fun rbind :: "'a result \<Rightarrow> ('a \<Rightarrow> 'b result) \<Rightarrow> 'b result" where
  "rbind (Inl e) f = Inl e"
| "rbind (Inr x) f = f x"

definition expects :: "bool \<Rightarrow> unit result" where
  "expects b = (if b then Inr () else Inl Contract)"

definition throw_if :: "bool \<Rightarrow> error \<Rightarrow> unit result" where
  "throw_if b e = (if b then Inl e else Inr ())"

text \<open>A loop over a range whose body may leave early.\<close>

fun rfold :: "('x \<Rightarrow> 's \<Rightarrow> 's result) \<Rightarrow> 'x list \<Rightarrow> 's \<Rightarrow> 's result" where
  "rfold f [] s = Inr s"
| "rfold f (x # xs) s = rbind (f x s) (rfold f xs)"

text \<open>\<^verbatim>\<open>std::vector::at\<close>.\<close>

definition vec_at :: "'a list \<Rightarrow> nat \<Rightarrow> 'a result" where
  "vec_at xs i = (if i < length xs then Inr (xs ! i) else Inl Out_Of_Range)"

text \<open>\<^verbatim>\<open>std::strong_ordering\<close>, and the comparison that goes with a strict order.\<close>

datatype ordering = Less | Equal | Greater

definition order_of :: "('a \<Rightarrow> 'a \<Rightarrow> bool) \<Rightarrow> 'a \<Rightarrow> 'a \<Rightarrow> ordering" where
  "order_of lt a b = (if lt a b then Less else if a = b then Equal else Greater)"

lemma order_of_Equal [simp]: "order_of lt a b = Equal \<longleftrightarrow> a = b \<and> \<not> lt a a"
  by (auto simp: order_of_def)

lemma rbind_Inr_iff [result_simps]:
  "rbind m f = Inr y \<longleftrightarrow> (\<exists>x. m = Inr x \<and> f x = Inr y)"
  by (cases m) auto

lemma rbind_Inl_iff [result_simps]:
  "rbind m f = Inl e \<longleftrightarrow> m = Inl e \<or> (\<exists>x. m = Inr x \<and> f x = Inl e)"
  by (cases m) auto

lemma rbind_assoc: "rbind (rbind m f) g = rbind m (\<lambda>x. rbind (f x) g)"
  by (cases m) auto

lemma rbind_cong [fundef_cong]:
  assumes "m = m'" and "\<And>x. m' = Inr x \<Longrightarrow> f x = f' x"
  shows "rbind m f = rbind m' f'"
  using assms by (cases m') auto

lemma expects_simps [simp]:
  "expects True = Inr ()"
  "expects False = Inl Contract"
  "expects b = Inr u \<longleftrightarrow> b"
  "expects b = Inl e \<longleftrightarrow> \<not> b \<and> e = Contract"
  by (auto simp: expects_def)

lemma throw_if_simps [simp]:
  "throw_if True e = Inl e"
  "throw_if False e = Inr ()"
  "throw_if b e = Inr u \<longleftrightarrow> \<not> b"
  "throw_if b e = Inl e' \<longleftrightarrow> b \<and> e' = e"
  by (auto simp: throw_if_def)

lemma rbind_expects: "rbind (expects b) f = (if b then f () else Inl Contract)"
  by (simp add: expects_def)

lemma rbind_throw_if: "rbind (throw_if b e) f = (if b then Inl e else f ())"
  by (simp add: throw_if_def)

lemma vec_at_simps [simp]:
  "i < length xs \<Longrightarrow> vec_at xs i = Inr (xs ! i)"
  "\<not> i < length xs \<Longrightarrow> vec_at xs i = Inl Out_Of_Range"
  by (auto simp: vec_at_def)

lemma rfold_cong [fundef_cong]:
  "xs = ys \<Longrightarrow> s = t \<Longrightarrow> (\<And>x u. x \<in> set ys \<Longrightarrow> f x u = g x u) \<Longrightarrow> rfold f xs s = rfold g ys t"
proof (induction ys arbitrary: xs s t)
  case (Cons y ys)
  then show ?case by (cases "g y t") auto
qed simp

lemma rfold_append: "rfold f (xs @ ys) s = rbind (rfold f xs s) (rfold f ys)"
proof (induction xs arbitrary: s)
  case Nil
  then show ?case by simp
next
  case (Cons x xs)
  then show ?case by (cases "f x s") auto
qed

text \<open>An invariant kept by every iteration holds for the state a loop returns.\<close>

lemma rfold_invariant:
  assumes "rfold f xs s = Inr s'" and "P s"
    and "\<And>x s s'. x \<in> set xs \<Longrightarrow> P s \<Longrightarrow> f x s = Inr s' \<Longrightarrow> P s'"
  shows "P s'"
  using assms
proof (induction xs arbitrary: s)
  case Nil
  then show ?case by simp
next
  case (Cons x xs)
  then obtain t where "f x s = Inr t" and "rfold f xs t = Inr s'"
    by (auto simp: result_simps)
  with Cons show ?case by (metis list.set_intros)
qed

text \<open>A loop whose body never leaves early is a fold.\<close>

lemma rfold_total:
  assumes "\<And>x s. x \<in> set xs \<Longrightarrow> f x s = Inr (g x s)"
  shows "rfold f xs s = Inr (fold g xs s)"
  using assms by (induction xs arbitrary: s) auto

text \<open>A loop that appends one element per iteration.\<close>

lemma rfold_snoc_map:
  assumes "\<And>x out. x \<in> set xs \<Longrightarrow> f x out = Inr (out @ [g x])"
  shows "rfold f xs out = Inr (out @ map g xs)"
  using assms by (induction xs arbitrary: out) auto

section \<open>64-bit sizes\<close>

text \<open>
  \<^verbatim>\<open>std::size_t\<close> is 64 bits wide on the platforms the library supports. A value of that
  type is a natural number below \<open>size_bound\<close>; the operations reduce their result.
\<close>

definition size_bound :: nat where
  "size_bound = 2 ^ 64"

definition size_add :: "nat \<Rightarrow> nat \<Rightarrow> nat" where
  "size_add a b = (a + b) mod size_bound"

definition size_sub :: "nat \<Rightarrow> nat \<Rightarrow> nat" where
  "size_sub a b = (a + (size_bound - b mod size_bound)) mod size_bound"

definition size_mul :: "nat \<Rightarrow> nat \<Rightarrow> nat" where
  "size_mul a b = (a * b) mod size_bound"

lemma size_bound_pos [simp]: "0 < size_bound"
  by (simp add: size_bound_def)

lemma size_ops_bounded [simp]:
  "size_add a b < size_bound" "size_sub a b < size_bound" "size_mul a b < size_bound"
  by (simp_all add: size_add_def size_sub_def size_mul_def)

lemma size_add_exact [size_simps]: "a + b < size_bound \<Longrightarrow> size_add a b = a + b"
  by (simp add: size_add_def)

lemma size_mul_exact [size_simps]: "a * b < size_bound \<Longrightarrow> size_mul a b = a * b"
  by (simp add: size_mul_def)

lemma size_sub_exact [size_simps]:
  assumes "b \<le> a" and "a < size_bound"
  shows "size_sub a b = a - b"
proof -
  have "a + (size_bound - b) = (a - b) + size_bound"
    using assms by linarith
  moreover have "b mod size_bound = b" and "(a - b) mod size_bound = a - b"
    using assms by simp_all
  ultimately show ?thesis
    by (simp only: size_sub_def mod_add_self2)
qed

lemma size_sub_add: "size_sub ((a + b) mod size_bound) b = a mod size_bound"
proof -
  define q where "q = b div size_bound"
  define r where "r = b mod size_bound"
  have b: "b = q * size_bound + r" and r: "r < size_bound"
    by (simp_all add: q_def r_def)
  have "a + b + (size_bound - r) = a + (q + 1) * size_bound"
    using r by (simp add: b algebra_simps)
  then have "(a + b + (size_bound - r)) mod size_bound = a mod size_bound"
    by (metis mod_mult_self1)
  then show ?thesis
    unfolding size_sub_def r_def [symmetric] mod_add_left_eq .
qed

lemma size_add_assoc: "size_add (size_add a b) c = size_add a (b + c)"
  unfolding size_add_def mod_add_left_eq by (simp add: add.assoc)

lemma size_add_0 [simp]: "a < size_bound \<Longrightarrow> size_add a 0 = a" "a < size_bound \<Longrightarrow> size_add 0 a = a"
  by (simp_all add: size_add_def)

text \<open>Modular sums agree with the exact sum modulo the width, whatever the grouping.\<close>

lemma size_add_mod: "size_add a b mod size_bound = (a + b) mod size_bound"
  by (simp add: size_add_def)

lemma fold_size_add:
  "fold (\<lambda>x s. size_add s (f x)) xs a mod size_bound = (a + sum_list (map f xs)) mod size_bound"
proof (induction xs arbitrary: a)
  case Nil
  then show ?case by simp
next
  case (Cons x xs)
  have "(size_add a (f x) + sum_list (map f xs)) mod size_bound
      = ((a + f x) + sum_list (map f xs)) mod size_bound"
    unfolding size_add_def by (rule mod_add_left_eq)
  with Cons.IH [of "size_add a (f x)"] show ?case
    by (simp add: add.assoc)
qed

lemma fold_size_add_exact:
  assumes "a + sum_list (map f xs) < size_bound"
  shows "fold (\<lambda>x s. size_add s (f x)) xs a = a + sum_list (map f xs)"
  using assms
proof (induction xs arbitrary: a)
  case Nil
  then show ?case by simp
next
  case (Cons x xs)
  then show ?case by (simp add: size_add_exact add.assoc)
qed

text \<open>A value stored in a \<^verbatim>\<open>std::uint32_t\<close>.\<close>

definition u32 :: "nat \<Rightarrow> nat" where
  "u32 n = n mod 2 ^ 32"

lemma u32_exact [size_simps]: "n < 2 ^ 32 \<Longrightarrow> u32 n = n"
  by (simp add: u32_def)

text \<open>Rounding a quotient up, as the code writes it.\<close>

definition ceil_div :: "nat \<Rightarrow> nat \<Rightarrow> nat" where
  "ceil_div x y = (x + y - 1) div y"

lemma ceil_div_0 [simp]: "ceil_div 0 y = 0"
  by (cases "y = 0") (simp_all add: ceil_div_def)

lemma ceil_div_le_iff: "0 < y \<Longrightarrow> ceil_div x y \<le> n \<longleftrightarrow> x \<le> n * y"
proof -
  assume y: "0 < y"
  have "ceil_div x y \<le> n \<longleftrightarrow> (x + y - 1) div y < n + 1"
    by (auto simp: ceil_div_def)
  also have "\<dots> \<longleftrightarrow> x + y - 1 < (n + 1) * y"
    using y by (simp add: div_less_iff_less_mult)
  also have "\<dots> \<longleftrightarrow> x \<le> n * y"
    using y by auto
  finally show ?thesis .
qed

lemma ceil_div_mult [simp]: "0 < y \<Longrightarrow> ceil_div (n * y) y = n"
  by (simp add: ceil_div_def) (metis add.commute add_diff_cancel_left' diff_less div_mult_self3
      div_less less_numeral_extra(1) add_0_right bot_nat_0.not_eq_extremum add_diff_assoc2
      Suc_leI One_nat_def)

lemma ceil_div_pos_iff: "0 < y \<Longrightarrow> 0 < ceil_div x y \<longleftrightarrow> 0 < x"
  using ceil_div_le_iff [of y x 0] by auto

section \<open>Bytes and characters\<close>

type_synonym byte = "8 word"

definition byte_of_char :: "char \<Rightarrow> byte" where
  "byte_of_char c = word_of_nat (of_char c)"

definition char_of_byte :: "byte \<Rightarrow> char" where
  "char_of_byte b = char_of (unat b)"

lemma unat_byte_of_char [simp]: "unat (byte_of_char c) = of_char c"
  by (simp add: byte_of_char_def unat_of_nat take_bit_eq_mod)

lemma char_of_byte_of_char [simp]: "char_of_byte (byte_of_char c) = c"
  by (simp add: char_of_byte_def)

lemma byte_lt_256 [simp]: "unat (b :: byte) < 256"
  using unsigned_less [of b, where ?'a = nat] by simp

lemma byte_of_char_of_byte [simp]: "byte_of_char (char_of_byte b) = b"
  by (simp add: byte_of_char_def char_of_byte_def)

lemma of_char_char_of_byte [simp]: "of_char (char_of_byte b) = unat b"
  by (simp add: char_of_byte_def)

definition bytes_of_string :: "string \<Rightarrow> byte list" where
  "bytes_of_string = map byte_of_char"

definition string_of_bytes :: "byte list \<Rightarrow> string" where
  "string_of_bytes = map char_of_byte"

lemma bytes_string_inverse [simp]:
  "bytes_of_string (string_of_bytes bs) = bs"
  "string_of_bytes (bytes_of_string s) = s"
  by (simp_all add: bytes_of_string_def string_of_bytes_def comp_def)

lemma length_bytes_string [simp]:
  "length (bytes_of_string s) = length s"
  "length (string_of_bytes bs) = length bs"
  by (simp_all add: bytes_of_string_def string_of_bytes_def)

section \<open>Lists\<close>

text \<open>Writing a vector at every index of a list of indices.\<close>

lemma fold_list_update_nth:
  assumes "n < length t"
  shows "fold (\<lambda>a t. t[a := f a]) as t ! n = (if n \<in> set as then f n else t ! n)"
  using assms by (induction as arbitrary: t) (auto simp: nth_list_update)

lemma length_fold_list_update [simp]:
  "length (fold (\<lambda>a t. t[a := f a]) as t) = length t"
  by (induction as arbitrary: t) auto

text \<open>Counting the elements of a vector that satisfy a predicate.\<close>

definition count_if :: "('a \<Rightarrow> bool) \<Rightarrow> 'a list \<Rightarrow> nat" where
  "count_if P xs = length (filter P xs)"

text \<open>The half-open range of a vector, as iterator pairs and spans select it.\<close>

definition subrange :: "'a list \<Rightarrow> nat \<Rightarrow> nat \<Rightarrow> 'a list" where
  "subrange xs first n = take n (drop first xs)"

lemma length_subrange [simp]: "first + n \<le> length xs \<Longrightarrow> length (subrange xs first n) = n"
  by (simp add: subrange_def)

lemma takeWhile_sorted_partition:
  assumes "sorted_wrt (\<lambda>x y. P y \<longrightarrow> P x) xs"
  shows "takeWhile P xs = filter P xs"
  using assms by (induction xs) (auto simp: filter_empty_conv)

lemma dropWhile_sorted_partition:
  assumes "sorted_wrt (\<lambda>x y. P y \<longrightarrow> P x) xs"
  shows "dropWhile P xs = filter (\<lambda>x. \<not> P x) xs"
  using assms by (induction xs) (auto simp: filter_id_conv intro: filter_True [symmetric])

text \<open>Cutting a list into blocks; the last one may be shorter.\<close>

definition block_of :: "nat \<Rightarrow> 'a list \<Rightarrow> nat \<Rightarrow> 'a list" where
  "block_of n xs i = take n (drop (i * n) xs)"

definition blocks :: "nat \<Rightarrow> 'a list \<Rightarrow> 'a list list" where
  "blocks n xs = map (block_of n xs) [0..<ceil_div (length xs) n]"

lemma length_blocks [simp]: "length (blocks n xs) = ceil_div (length xs) n"
  by (simp add: blocks_def)

lemma nth_blocks: "i < ceil_div (length xs) n \<Longrightarrow> blocks n xs ! i = block_of n xs i"
  by (simp add: blocks_def)

lemma last_block:
  assumes "0 < n" "ceil_div (length xs) n = Suc k"
  shows "drop (k * n) xs = block_of n xs k"
proof -
  have "length xs \<le> Suc k * n" using assms by (metis ceil_div_le_iff order.refl)
  then show ?thesis by (simp add: block_of_def)
qed

lemma block_of_append:
  assumes "length xs = k * n" "0 < n"
  shows "block_of n (xs @ ys) i = (if i < k then block_of n xs i else block_of n ys (i - k))"
proof (cases "i < k")
  case True
  then have "Suc i * n \<le> k * n" by (intro mult_le_mono1) simp
  then have "n \<le> length xs - i * n" using assms by simp
  with True show ?thesis by (simp add: block_of_def)
next
  case False
  then have "k * n \<le> i * n" by (intro mult_le_mono1) simp
  with False assms show ?thesis by (simp add: block_of_def diff_mult_distrib)
qed

lemma ceil_div_add: "0 < n \<Longrightarrow> ceil_div (k * n + m) n = k + ceil_div m n"
proof -
  assume n: "0 < n"
  show ?thesis
  proof (cases m)
    case (Suc m')
    have "(k * n + m + n - 1) div n = (m' + n + k * n) div n" using Suc by (simp add: algebra_simps)
    also have "\<dots> = k + (m' + n) div n" using n by simp
    finally show ?thesis using Suc by (simp add: ceil_div_def)
  qed (use n in simp)
qed

lemma blocks_append:
  assumes "length xs = k * n" "0 < n"
  shows "blocks n (xs @ ys) = blocks n xs @ blocks n ys"
proof (rule nth_equalityI)
  have len: "ceil_div (length xs) n = k" "ceil_div (length (xs @ ys)) n = k + ceil_div (length ys) n"
    using assms by (simp_all add: ceil_div_add)
  then show "length (blocks n (xs @ ys)) = length (blocks n xs @ blocks n ys)" by simp
  fix i
  assume "i < length (blocks n (xs @ ys))"
  then show "blocks n (xs @ ys) ! i = (blocks n xs @ blocks n ys) ! i"
    using len by (auto simp: nth_append nth_blocks block_of_append [OF assms])
qed

end
