(* ===== verification/Hex.thy ===== *)
theory Hex
  imports Prelude
begin

unbundle bit_operations_syntax

text \<open>
  Hexadecimal text (\<^verbatim>\<open>include/dottorrent/hex.hpp\<close>): the digit tables, the conversions of one
  byte, and the two parsers, one over the lookup table and one over \<^verbatim>\<open>std::from_chars\<close>.
  \<^verbatim>\<open>char\<close> is signed, as on every platform the build targets.
\<close>

section \<open>Tables\<close>

definition int_to_hex_lower_case_table :: string where
  "int_to_hex_lower_case_table = ''0123456789abcdef''"

definition int_to_hex_upper_case_table :: string where
  "int_to_hex_upper_case_table = ''0123456789ABCDEF''"

definition generate_hex_to_int_table :: "byte list" where
  "generate_hex_to_int_table =
     (let data = replicate 256 255;
          data = fold (\<lambda>a t. t[a := word_of_nat (a - 48)]) [48..<58] data;
          data = fold (\<lambda>a t. t[a := word_of_nat (a - 97 + 10)]) [97..<103] data
      in fold (\<lambda>a t. t[a := word_of_nat (a - 65 + 10)]) [65..<71] data)"

text \<open>
  \<^verbatim>\<open>table_[i]\<close> with a signed \<^verbatim>\<open>char\<close>: a character above 127 is negative and becomes a huge
  index, past the end of the array.
\<close>

definition hex_to_int :: "char \<Rightarrow> byte result" where
  "hex_to_int c =
     (if of_char c < (128 :: nat) then Inr (generate_hex_to_int_table ! of_char c)
      else Inl Undefined)"

definition hex_to_byte :: "char \<Rightarrow> char \<Rightarrow> byte option result" where
  "hex_to_byte a b =
     rbind (hex_to_int a) (\<lambda>upper.
     rbind (hex_to_int b) (\<lambda>lower.
       Inr (if upper = 255 \<or> lower = 255 then None
            else Some (push_bit 4 upper + lower))))"

definition byte_to_hex :: "byte \<Rightarrow> string" where
  "byte_to_hex v =
     [int_to_hex_lower_case_table ! unat (drop_bit 4 (v AND 0xF0)),
      int_to_hex_lower_case_table ! unat (v AND 0x0F)]"

definition byte_to_hex_uppercase :: "byte \<Rightarrow> string" where
  "byte_to_hex_uppercase v =
     [int_to_hex_upper_case_table ! unat (drop_bit 4 (v AND 0xF0)),
      int_to_hex_upper_case_table ! unat (v AND 0x0F)]"

definition to_hexadecimal_string :: "byte list \<Rightarrow> string" where
  "to_hexadecimal_string data = concat (map byte_to_hex data)"

section \<open>Parsers\<close>

text \<open>The parser over the table: \<open>None\<close> is \<^verbatim>\<open>std::nullopt\<close>; an odd last character is ignored.\<close>

fun hex_pairs :: "nat \<Rightarrow> string \<Rightarrow> byte list option result" where
  "hex_pairs 0 s = Inr (Some [])"
| "hex_pairs (Suc n) (a # b # s) =
     rbind (hex_to_byte a b) (\<lambda>v. case v of
       None \<Rightarrow> Inr None
     | Some x \<Rightarrow> rbind (hex_pairs n s) (\<lambda>r. Inr (map_option (Cons x) r)))"
| "hex_pairs (Suc n) s = Inl Undefined"

definition from_hexadecimal_string :: "nat \<Rightarrow> string \<Rightarrow> byte list option result" where
  "from_hexadecimal_string N hexdigest =
     (if length hexdigest div 2 \<noteq> N then Inr None
      else hex_pairs (length hexdigest div 2) hexdigest)"

text \<open>
  \<^verbatim>\<open>std::from_chars(it, it+2, v, 16)\<close> into a (signed) \<^verbatim>\<open>char\<close>, as the standard defines it: an
  optional minus sign, the longest run of hexadecimal digits, an error when there is none
  or when the value does not fit. The result is the value and the number of characters read.
\<close>

definition hex_digit :: "char \<Rightarrow> nat option" where
  "hex_digit c =
     (let n = of_char c in
      if 48 \<le> n \<and> n \<le> 57 then Some (n - 48)
      else if 97 \<le> n \<and> n \<le> 102 then Some (n - 87)
      else if 65 \<le> n \<and> n \<le> 70 then Some (n - 55)
      else None)"

definition from_chars_char16 :: "string \<Rightarrow> (int \<times> nat) result" where
  "from_chars_char16 s =
     (let neg = (s \<noteq> [] \<and> hd s = CHR ''-'');
          ds = takeWhile (\<lambda>c. hex_digit c \<noteq> None) (if neg then tl s else s);
          m = foldl (\<lambda>v c. 16 * v + int (the (hex_digit c))) 0 ds;
          v = (if neg then - m else m)
      in if ds = [] then Inl System_Error
         else if v < - 128 \<or> 127 < v then Inl System_Error
         else Inr (v, length ds + of_bool neg))"

lemma from_chars_char16_consumes: "from_chars_char16 s = Inr (v, n) \<Longrightarrow> 0 < n"
  by (auto simp: from_chars_char16_def Let_def split: if_splits)

text \<open>
  The parser over \<^verbatim>\<open>from_chars\<close>. With a single character left \<^verbatim>\<open>it+2\<close> is past the end of the
  string view, so the read is out of its range.
\<close>

function from_hexadecimal_string_to :: "string \<Rightarrow> byte list result" where
  "from_hexadecimal_string_to hex =
     (if hex = [] then Inr []
      else if length hex < 2 then Inl Undefined
      else rbind (from_chars_char16 (take 2 hex)) (\<lambda>r.
           rbind (from_hexadecimal_string_to (drop (snd r) hex)) (\<lambda>bs.
             Inr (word_of_int (fst r) # bs))))"
  by pat_completeness auto
termination
  by (relation "measure length") (auto dest: from_chars_char16_consumes)

declare from_hexadecimal_string_to.simps [simp del]

section \<open>One byte\<close>

lemma length_hex_table [simp]: "length generate_hex_to_int_table = 256"
  by (simp add: generate_hex_to_int_table_def Let_def del: upt_rec_numeral)

lemma hex_table_nth:
  assumes "n < 256"
  shows "generate_hex_to_int_table ! n =
    (if 65 \<le> n \<and> n \<le> 70 then word_of_nat (n - 55)
     else if 97 \<le> n \<and> n \<le> 102 then word_of_nat (n - 87)
     else if 48 \<le> n \<and> n \<le> 57 then word_of_nat (n - 48) else 255)"
proof -
  have eqs: "65 \<le> n \<Longrightarrow> n - 65 + 10 = n - 55" "97 \<le> n \<Longrightarrow> n - 97 + 10 = n - 87"
    by simp_all
  show ?thesis
    using assms eqs
    by (auto simp: generate_hex_to_int_table_def Let_def fold_list_update_nth
        simp del: upt_rec_numeral)
qed

lemma hex_to_int_digit:
  "hex_to_int c =
     (if of_char c < (128 :: nat)
      then Inr (case hex_digit c of Some d \<Rightarrow> word_of_nat d | None \<Rightarrow> 255)
      else Inl Undefined)"
  by (auto simp: hex_to_int_def hex_table_nth hex_digit_def Let_def)

lemma hex_digit_ascii: "hex_digit c = Some d \<Longrightarrow> of_char c < (128 :: nat)"
  by (auto simp: hex_digit_def Let_def split: if_splits)

lemma hex_digit_bound: "hex_digit c = Some d \<Longrightarrow> d < 16"
  by (auto simp: hex_digit_def Let_def split: if_splits)

lemma unat_word_of_nat_byte [simp]: "d < 256 \<Longrightarrow> unat (word_of_nat d :: byte) = d"
  by (simp add: unat_of_nat take_bit_eq_mod)

lemma nibble_word_ne:
  assumes "d < 16"
  shows "(word_of_nat d :: byte) \<noteq> 255"
proof
  assume "(word_of_nat d :: byte) = 255"
  then have "unat (word_of_nat d :: byte) = unat (255 :: byte)" by simp
  with assms show False by simp
qed

lemma hex_digit_tables_all:
  "list_all (\<lambda>n. hex_digit (int_to_hex_lower_case_table ! n) = Some n
     \<and> hex_digit (int_to_hex_upper_case_table ! n) = Some n) [0..<16]"
  by code_simp

lemma hex_digit_tables [simp]:
  "n < 16 \<Longrightarrow> hex_digit (int_to_hex_lower_case_table ! n) = Some n"
  "n < 16 \<Longrightarrow> hex_digit (int_to_hex_upper_case_table ! n) = Some n"
  using hex_digit_tables_all by (simp_all only: list_all_iff set_upt atLeastLessThan_iff zero_le)

lemma nibble_bounds [simp]: "unat (v :: byte) div 16 < 16" "unat v mod 16 < (16 :: nat)"
  using byte_lt_256 [of v] by (simp_all add: less_mult_imp_div_less del: byte_lt_256)

lemma nibbles:
  shows "unat (drop_bit 4 (v AND 0xF0) :: byte) = unat v div 16"
    and "unat (v AND 0x0F :: byte) = unat v mod 16"
proof -
  have low: "x AND 0x0F = take_bit 4 x" for x :: byte
    by (simp add: take_bit_eq_mask mask_numeral)
  then show "unat (v AND 0x0F :: byte) = unat v mod 16"
    by (simp only: unsigned_take_bit_eq) (simp add: take_bit_eq_mod)
  have "drop_bit 4 (v AND 0xF0) = drop_bit 4 v AND drop_bit 4 0xF0"
    by (rule drop_bit_and)
  also have "drop_bit 4 (0xF0 :: byte) = 0x0F"
    by simp
  also have "drop_bit 4 v AND 0x0F = take_bit 4 (drop_bit 4 v)"
    by (rule low)
  finally have "drop_bit 4 (v AND 0xF0) = take_bit 4 (drop_bit 4 v)" .
  then show "unat (drop_bit 4 (v AND 0xF0) :: byte) = unat v div 16"
    using nibble_bounds(1) [of v]
    by (simp only: unsigned_take_bit_eq unsigned_drop_bit_eq)
      (simp add: drop_bit_eq_div take_bit_eq_mod)
qed

lemma nibbles_join:
  "push_bit 4 (word_of_nat (unat (v :: byte) div 16)) + word_of_nat (unat v mod 16) = v"
proof -
  have shift: "push_bit 4 x = x * 16" for x :: byte
    by (simp add: push_bit_eq_mult)
  have "push_bit 4 (word_of_nat (unat v div 16)) + word_of_nat (unat v mod 16)
      = (word_of_nat (unat v div 16 * 16 + unat v mod 16) :: byte)"
    by (simp only: shift of_nat_add of_nat_mult of_nat_numeral)
  also have "unat v div 16 * 16 + unat v mod 16 = unat v"
    by (rule div_mult_mod_eq)
  finally show ?thesis by (simp only: of_nat_unat ucast_id)
qed

lemma hex_to_byte_digits:
  "hex_digit a = Some x \<Longrightarrow> hex_digit b = Some y \<Longrightarrow>
   hex_to_byte a b = Inr (Some (push_bit 4 (word_of_nat x) + word_of_nat y))"
  by (auto simp: hex_to_byte_def hex_to_int_digit hex_digit_ascii nibble_word_ne
      dest!: hex_digit_bound)

section \<open>Round trips\<close>

lemma byte_to_hex_nibbles:
  "byte_to_hex v = [int_to_hex_lower_case_table ! (unat v div 16),
                    int_to_hex_lower_case_table ! (unat v mod 16)]"
  "byte_to_hex_uppercase v = [int_to_hex_upper_case_table ! (unat v div 16),
                    int_to_hex_upper_case_table ! (unat v mod 16)]"
  by (simp_all only: byte_to_hex_def byte_to_hex_uppercase_def nibbles)

lemma length_byte_to_hex [simp]: "length (byte_to_hex v) = 2"
  by (simp add: byte_to_hex_def)

lemma length_to_hexadecimal_string [simp]:
  "length (to_hexadecimal_string bs) = 2 * length bs"
  by (induction bs) (simp_all add: to_hexadecimal_string_def)

lemma hex_to_byte_of_byte:
  "hex_to_byte (int_to_hex_lower_case_table ! (unat v div 16))
               (int_to_hex_lower_case_table ! (unat v mod 16)) = Inr (Some v)"
  "hex_to_byte (int_to_hex_upper_case_table ! (unat v div 16))
               (int_to_hex_upper_case_table ! (unat v mod 16)) = Inr (Some v)"
  using nibbles_join [of v] by (simp_all add: hex_to_byte_digits)

lemma hex_pairs_round_trip:
  "hex_pairs (length bs) (to_hexadecimal_string bs @ s) = Inr (Some bs)"
proof (induction bs)
  case Nil
  then show ?case by simp
next
  case (Cons b bs)
  then show ?case
    by (simp add: to_hexadecimal_string_def byte_to_hex_nibbles hex_to_byte_of_byte)
qed

text \<open>What the library prints, the table parser reads back.\<close>

lemma hexadecimal_pairs_read_back:
  "from_hexadecimal_string (length bs) (to_hexadecimal_string bs) = Inr (Some bs)"
  using hex_pairs_round_trip [of bs "[]"] by (simp add: from_hexadecimal_string_def)

lemma hex_to_byte_None:
  assumes "of_char a < (128 :: nat)" "of_char b < (128 :: nat)"
  shows "hex_to_byte a b = Inr None \<longleftrightarrow> hex_digit a = None \<or> hex_digit b = None"
  using assms
  by (cases "hex_digit a"; cases "hex_digit b")
    (auto simp: hex_to_byte_def hex_to_int_digit nibble_word_ne dest: hex_digit_bound)

lemma from_chars_char16_byte:
  "from_chars_char16 (byte_to_hex v) =
     (if unat v < 128 then Inr (int (unat v), 2) else Inl System_Error)"
proof -
  have d: "hex_digit (int_to_hex_lower_case_table ! n) = Some n" if "n < 16" for n
    using that by simp
  have nd: "int_to_hex_lower_case_table ! n \<noteq> CHR ''-''" if "n < 16" for n
    using d [OF that] by (auto simp: hex_digit_def)
  have sum: "16 * int (unat v div 16) + int (unat v mod 16) = int (unat v)"
    by (metis mult_div_mod_eq of_nat_add of_nat_mult of_nat_numeral)
  have big: "127 < int (unat v) \<longleftrightarrow> \<not> unat v < 128" "\<not> int (unat v) < - 128"
    by linarith+
  show ?thesis
    using d nd sum big
    by (simp add: from_chars_char16_def byte_to_hex_nibbles Let_def)
qed

text \<open>
  The parser over \<^verbatim>\<open>from_chars\<close> rejects every digest with a byte above 127.
\<close>

theorem from_hexadecimal_string_to_printed:
  "from_hexadecimal_string_to (to_hexadecimal_string bs) =
     (if list_all (\<lambda>b. unat b < 128) bs then Inr bs else Inl System_Error)"
proof (induction bs)
  case Nil
  then show ?case by (simp add: to_hexadecimal_string_def from_hexadecimal_string_to.simps)
next
  case (Cons b bs)
  have two: "take 2 (byte_to_hex b @ s) = byte_to_hex b" "drop 2 (byte_to_hex b @ s) = s" for s
    by simp_all
  have ne: "byte_to_hex b @ s \<noteq> []" for s
    by (simp add: byte_to_hex_def)
  show ?case
    using Cons.IH ne
    by (subst from_hexadecimal_string_to.simps)
      (auto simp: to_hexadecimal_string_def two from_chars_char16_byte)
qed

end
