(* ===== verification/Percent_Encoding.thy ===== *)
theory Percent_Encoding
  imports Hex
begin

text \<open>
  Percent encoding of URI components (\<^verbatim>\<open>include/dottorrent/percent_encoding.hpp\<close>). The decoder
  is the source's loop: a flag, the characters of the escape read so far (at most two), and
  the output. \<^verbatim>\<open>hex_to_byte\<close> leaves its result variable alone when a character is not a digit;
  the byte that is emitted then is indeterminate and a parameter \<open>indet\<close> of the model.
\<close>

section \<open>Character classes\<close>

text \<open>A \<^verbatim>\<open>char\<close> as the signed value the comparisons of the code see.\<close>

definition schar :: "char \<Rightarrow> int" where
  "schar c = (if of_char c < (128 :: nat) then of_char c else of_char c - 256)"

definition is_reserved_character :: "char \<Rightarrow> bool" where
  "is_reserved_character c \<longleftrightarrow>
     c \<in> set [CHR ''!'', CHR ''#'', CHR ''$'', CHR ''&'', CHR 0x27, CHR ''('', CHR '')'',
       CHR ''*'', CHR ''+'', CHR '','', CHR ''/'', CHR '':'', CHR '';'', CHR ''='',
       CHR ''?'', CHR ''@'', CHR ''['', CHR '']'']"

definition is_numeric :: "char \<Rightarrow> bool" where
  "is_numeric c \<longleftrightarrow> schar c \<ge> 48 \<and> schar c \<le> 57"

definition is_alpha :: "char \<Rightarrow> bool" where
  "is_alpha c \<longleftrightarrow>
     (let upper_case = schar c \<ge> 65 \<and> schar c \<le> 90;
          lower_case = schar c \<ge> 97 \<and> schar c \<le> 122
      in upper_case \<or> lower_case)"

definition is_alphanumerical :: "char \<Rightarrow> bool" where
  "is_alphanumerical c \<longleftrightarrow> is_numeric c \<or> is_alpha c"

definition is_unreserved :: "char \<Rightarrow> bool" where
  "is_unreserved c \<longleftrightarrow> is_numeric c \<or> is_alpha c \<or> c = CHR ''-'' \<or> c = CHR ''.''
     \<or> c = CHR ''_'' \<or> c = CHR ''~''"

section \<open>Encoding\<close>

definition percent_encode_char :: "char \<Rightarrow> string" where
  "percent_encode_char c =
     (if is_unreserved c then [c] else CHR ''%'' # byte_to_hex_uppercase (byte_of_char c))"

definition percent_encode :: "string \<Rightarrow> string" where
  "percent_encode value = concat (map percent_encode_char value)"

section \<open>Decoding\<close>

datatype percent_decode_status =
    success
  | non_hex_encoded_character
  | incomplete_encoded_character

fun percent_decode_loop ::
    "byte \<Rightarrow> bool \<Rightarrow> string \<Rightarrow> string \<Rightarrow> string \<Rightarrow> (percent_decode_status \<times> string) result" where
  "percent_decode_loop indet copy buf out [] =
     Inr (if buf \<noteq> [] then incomplete_encoded_character else success, out)"
| "percent_decode_loop indet copy buf out (c # s) =
     (if c = CHR ''%'' then percent_decode_loop indet True buf out s
      else if copy then
        if \<not> is_alphanumerical c then Inr (non_hex_encoded_character, out)
        else (let buf' = buf @ [c] in
          if length buf' = 2 then
            rbind (hex_to_byte (buf' ! 0) (buf' ! 1)) (\<lambda>r.
              percent_decode_loop indet False []
                (out @ [char_of_byte (case r of Some x \<Rightarrow> x | None \<Rightarrow> indet)]) s)
          else percent_decode_loop indet True buf' out s)
      else percent_decode_loop indet False buf (out @ [c]) s)"

definition percent_decode_status_of :: "byte \<Rightarrow> string \<Rightarrow> (percent_decode_status \<times> string) result" where
  "percent_decode_status_of indet value = percent_decode_loop indet False [] [] value"

text \<open>The overload that returns a string drops the status.\<close>

definition percent_decode :: "byte \<Rightarrow> string \<Rightarrow> string result" where
  "percent_decode indet value =
     rbind (percent_decode_status_of indet value) (\<lambda>r. Inr (snd r))"

section \<open>Properties\<close>

lemma schar_ascii: "0 \<le> schar c \<Longrightarrow> schar c = of_char c \<and> of_char c < (128 :: nat)"
proof -
  assume "0 \<le> schar c"
  moreover have "(of_char c :: int) < 256"
    by (metis nat_of_char_less_256 of_nat_less_numeral_iff of_nat_of_char)
  ultimately show ?thesis
    by (auto simp: schar_def split: if_splits)
qed

lemma alphanumerical_ascii: "is_alphanumerical c \<Longrightarrow> of_char c < (128 :: nat)"
  using schar_ascii [of c]
  by (auto simp: is_alphanumerical_def is_numeric_def is_alpha_def Let_def)

lemma hex_digit_alphanumerical:
  assumes "hex_digit c = Some d"
  shows "is_alphanumerical c"
proof -
  have "schar c = of_char c" and "(of_char c :: int) = int (of_char c)"
    using hex_digit_ascii [OF assms] by (simp_all add: schar_def of_nat_of_char)
  then show ?thesis
    using assms
    by (auto simp: is_alphanumerical_def is_numeric_def is_alpha_def hex_digit_def Let_def
        split: if_splits)
qed

lemma percent_not_unreserved [simp]: "\<not> is_unreserved CHR ''%''"
  by (simp add: is_unreserved_def is_numeric_def is_alpha_def schar_def)

lemma percent_not_hex [simp]: "hex_digit CHR ''%'' = None"
  by (simp add: hex_digit_def)

text \<open>An escape the encoder writes is read back as the byte it stands for.\<close>

lemma decode_escape:
  "percent_decode_loop indet False [] out (percent_encode_char c @ s)
     = percent_decode_loop indet False [] (out @ [c]) s"
proof (cases "is_unreserved c")
  case True
  then show ?thesis
    by (auto simp: percent_encode_char_def)
next
  case False
  have dig: "hex_digit (int_to_hex_upper_case_table ! n) = Some n" if "n < 16" for n
    using that by simp
  have alnum: "is_alphanumerical (int_to_hex_upper_case_table ! n)"
    and npc: "int_to_hex_upper_case_table ! n \<noteq> CHR ''%''" if "n < 16" for n
    using dig [OF that] hex_digit_alphanumerical by auto
  have nib: "of_char c div 16 < (16 :: nat)" "of_char c mod 16 < (16 :: nat)"
    using nibble_bounds [of "byte_of_char c"] by simp_all
  have "hex_to_byte (int_to_hex_upper_case_table ! (of_char c div 16))
          (int_to_hex_upper_case_table ! (of_char c mod 16)) = Inr (Some (byte_of_char c))"
    using hex_to_byte_of_byte(2) [of "byte_of_char c"] by simp
  with False alnum [OF nib(1)] alnum [OF nib(2)] npc [OF nib(1)] npc [OF nib(2)]
  show ?thesis
    by (simp add: percent_encode_char_def byte_to_hex_nibbles Let_def)
qed

lemma percent_decode_status_encode:
  "percent_decode_status_of indet (percent_encode s) = Inr (success, s)"
proof -
  have "percent_decode_loop indet False [] out (percent_encode s) = Inr (success, out @ s)" for out
    by (induction s arbitrary: out) (simp_all add: percent_encode_def decode_escape)
  then show ?thesis
    by (simp add: percent_decode_status_of_def)
qed

text \<open>
  Decoding undoes encoding, for every string of bytes, whatever the indeterminate byte.
\<close>

theorem percent_round_trip:
  "percent_decode_status_of indet (percent_encode s) = Inr (success, s) \<and>
   percent_decode indet (percent_encode s) = Inr s"
  by (simp add: percent_decode_def percent_decode_status_encode)

lemma percent_decode_encode [simp]: "percent_decode indet (percent_encode s) = Inr s"
  by (simp add: percent_decode_def percent_decode_status_encode)

definition uri_safe :: "char \<Rightarrow> bool" where
  "uri_safe c \<longleftrightarrow> is_unreserved c \<or> c = CHR ''%''"

lemma hex_digit_unreserved: "hex_digit c = Some d \<Longrightarrow> is_unreserved c"
  using hex_digit_alphanumerical [of c d]
  by (auto simp: is_alphanumerical_def is_unreserved_def)

text \<open>
  The encoder's output consists of unreserved characters and percent signs, so no separator
  of a query string appears in it, and it is at most three times as long as its input.
\<close>

theorem percent_encode_safe:
  "list_all uri_safe (percent_encode s) \<and> length (percent_encode s) \<le> 3 * length s"
proof -
  have "list_all uri_safe (percent_encode_char c) \<and> length (percent_encode_char c) \<le> 3" for c
  proof -
    have nib: "of_char c div 16 < (16 :: nat)" "of_char c mod 16 < (16 :: nat)"
      using nibble_bounds [of "byte_of_char c"] by simp_all
    show ?thesis
      using hex_digit_unreserved hex_digit_tables(2) [OF nib(1)] hex_digit_tables(2) [OF nib(2)]
      by (auto simp: percent_encode_char_def byte_to_hex_nibbles uri_safe_def)
  qed
  note one = this
  show ?thesis
  proof (induction s)
    case Nil
    then show ?case by (simp add: percent_encode_def)
  next
    case (Cons c s)
    with one [of c] show ?case by (simp add: percent_encode_def)
  qed
qed

text \<open>
  An escape with a letter that is no hexadecimal digit is accepted: the status is
  \<^verbatim>\<open>success\<close> and the decoded byte is indeterminate.
\<close>

theorem percent_decode_bad_escape:
  assumes "is_alphanumerical a" "is_alphanumerical b" "hex_digit a = None \<or> hex_digit b = None"
  shows "percent_decode_status_of indet (CHR ''%'' # a # b # s) =
    percent_decode_loop indet False [] [char_of_byte indet] s"
proof -
  have "hex_to_byte a b = Inr None"
    using assms by (subst hex_to_byte_None) (simp_all add: alphanumerical_ascii)
  moreover have "a \<noteq> CHR ''%''" "b \<noteq> CHR ''%''"
    using assms by (auto simp: is_alphanumerical_def is_alpha_def is_numeric_def schar_def)
  ultimately show ?thesis
    using assms by (simp add: percent_decode_status_of_def Let_def)
qed

theorem percent_decode_bad_escape_witness:
  "percent_decode_status_of 7 ''%zz'' = Inr (success, [char_of_byte 7])"
proof -
  have "is_alphanumerical CHR ''z''" "hex_digit CHR ''z'' = None"
    by (simp_all add: is_alphanumerical_def is_alpha_def schar_def hex_digit_def)
  from percent_decode_bad_escape [OF this(1) this(1), of 7 "[]"] this(2) show ?thesis by simp
qed

text \<open>The decoder never reads the digit table out of its range.\<close>

lemma hex_to_byte_ascii:
  assumes "of_char a < (128 :: nat)" and "of_char b < (128 :: nat)"
  shows "\<exists>r. hex_to_byte a b = Inr r"
  using assms by (auto simp: hex_to_byte_def hex_to_int_def)

lemma percent_decode_loop_total:
  "list_all is_alphanumerical buf \<Longrightarrow> \<exists>r. percent_decode_loop indet copy buf out s = Inr r"
proof (induction indet copy buf out s rule: percent_decode_loop.induct)
  case (1 indet copy buf out)
  then show ?case by simp
next
  case (2 indet copy buf out c s)
  show ?case
  proof (cases "c \<noteq> CHR ''%'' \<and> copy \<and> is_alphanumerical c \<and> length (buf @ [c]) = 2")
    case True
    then obtain a where "buf = [a]"
      by (cases buf) auto
    moreover from this obtain r where "hex_to_byte a c = Inr r"
      using 2(5) True hex_to_byte_ascii [of a c] alphanumerical_ascii by auto
    ultimately show ?thesis
      using True 2 by (auto simp: Let_def)
  next
    case False
    then show ?thesis
      using 2 by (auto simp: Let_def)
  qed
qed

text \<open>
  Decoding any string returns; no input makes the decoder read out of range.
\<close>

theorem percent_decode_total: "\<exists>r. percent_decode indet s = Inr r"
  using percent_decode_loop_total [of "[]" indet False "[]" s]
  by (auto simp: percent_decode_def percent_decode_status_of_def)

end
