(* ===== verification/General.thy ===== *)
theory General
  imports Prelude
begin

unbundle bit_operations_syntax

text \<open>
  The enumerations every component shares (\<^verbatim>\<open>include/dottorrent/general.hpp\<close>), the bitmask
  operators over them (\<^verbatim>\<open>bitmask_operators.hpp\<close>) and the size literals (\<^verbatim>\<open>literals.hpp\<close>). An
  enumeration used as a bitmask is its underlying 32-bit integer, because the operators make
  values that no enumerator names.
\<close>

section \<open>Bitmask enumerations\<close>

type_synonym bitmask = "32 word"

definition enum_or :: "bitmask \<Rightarrow> bitmask \<Rightarrow> bitmask" where
  "enum_or lhs rhs = lhs OR rhs"

definition enum_and :: "bitmask \<Rightarrow> bitmask \<Rightarrow> bitmask" where
  "enum_and lhs rhs = lhs AND rhs"

definition enum_xor :: "bitmask \<Rightarrow> bitmask \<Rightarrow> bitmask" where
  "enum_xor lhs rhs = lhs XOR rhs"

definition enum_not :: "bitmask \<Rightarrow> bitmask" where
  "enum_not lhs = NOT lhs"

text \<open>The test \<^verbatim>\<open>(v & flag) == flag\<close> the code writes for every flag.\<close>

definition has_flag :: "bitmask \<Rightarrow> bitmask \<Rightarrow> bool" where
  "has_flag v flag \<longleftrightarrow> enum_and v flag = flag"

type_synonym protocol = bitmask

definition protocol_none :: protocol where "protocol_none = 0"
definition protocol_v1 :: protocol where "protocol_v1 = 1"
definition protocol_v2 :: protocol where "protocol_v2 = 2"
definition protocol_hybrid :: protocol where "protocol_hybrid = 3"

lemmas protocol_defs =
  protocol_none_def protocol_v1_def protocol_v2_def protocol_hybrid_def

datatype file_mode = mode_empty | mode_single | mode_multi

type_synonym file_options = bitmask

definition options_none :: file_options where "options_none = 0"
definition options_add_attributes :: file_options where "options_add_attributes = 1"
definition options_copy_symlinks :: file_options where "options_copy_symlinks = 3"

type_synonym file_attributes = bitmask

definition attribute_none :: file_attributes where "attribute_none = 0"
definition attribute_symlink :: file_attributes where "attribute_symlink = 1"
definition attribute_executable :: file_attributes where "attribute_executable = 2"
definition attribute_hidden :: file_attributes where "attribute_hidden = 4"
definition attribute_padding_file :: file_attributes where "attribute_padding_file = 8"

lemmas attribute_defs =
  attribute_none_def attribute_symlink_def attribute_executable_def attribute_hidden_def
  attribute_padding_file_def

lemma hybrid_is_v1_or_v2: "enum_or protocol_v1 protocol_v2 = protocol_hybrid"
  by (simp add: enum_or_def protocol_defs)

lemma protocols_distinct [simp]:
  "protocol_none \<noteq> protocol_v1" "protocol_none \<noteq> protocol_v2" "protocol_none \<noteq> protocol_hybrid"
  "protocol_v1 \<noteq> protocol_v2" "protocol_v1 \<noteq> protocol_hybrid" "protocol_v2 \<noteq> protocol_hybrid"
  "protocol_v1 \<noteq> protocol_none" "protocol_v2 \<noteq> protocol_none" "protocol_hybrid \<noteq> protocol_none"
  "protocol_v2 \<noteq> protocol_v1" "protocol_hybrid \<noteq> protocol_v1" "protocol_hybrid \<noteq> protocol_v2"
  by (simp_all add: protocol_defs)

lemma hybrid_flags [simp]:
  "has_flag protocol_hybrid protocol_v1" "has_flag protocol_hybrid protocol_v2"
  "has_flag protocol_v1 protocol_v1" "has_flag protocol_v2 protocol_v2"
  "\<not> has_flag protocol_v1 protocol_v2" "\<not> has_flag protocol_v2 protocol_v1"
  by (simp_all add: has_flag_def enum_and_def protocol_defs)

section \<open>File attributes as text (BEP-47)\<close>

definition attributes_to_string :: "file_attributes \<Rightarrow> string" where
  "attributes_to_string v =
     (if v = attribute_none then ''''
      else (if has_flag v attribute_executable then ''x'' else '''') @
           (if has_flag v attribute_symlink then ''l'' else '''') @
           (if has_flag v attribute_hidden then ''h'' else '''') @
           (if has_flag v attribute_padding_file then ''p'' else ''''))"

definition attribute_of_char :: "char \<Rightarrow> file_attributes result" where
  "attribute_of_char c =
     (if c = CHR ''l'' then Inr attribute_symlink
      else if c = CHR ''x'' then Inr attribute_executable
      else if c = CHR ''h'' then Inr attribute_hidden
      else if c = CHR ''p'' then Inr attribute_padding_file
      else Inl Invalid_Argument)"

definition make_file_attributes :: "string \<Rightarrow> file_attributes result" where
  "make_file_attributes value =
     rfold (\<lambda>c attributes. rbind (attribute_of_char c) (\<lambda>a. Inr (enum_or attributes a)))
       value attribute_none"

definition known_attributes :: file_attributes where
  "known_attributes = 15"

lemma bit_flags:
  "bit (1 :: bitmask) n \<longleftrightarrow> n = 0" "bit (2 :: bitmask) n \<longleftrightarrow> n = 1"
  "bit (4 :: bitmask) n \<longleftrightarrow> n = 2" "bit (8 :: bitmask) n \<longleftrightarrow> n = 3"
  "bit (15 :: bitmask) n \<longleftrightarrow> n < 4"
proof -
  have "bit (2 ^ k :: bitmask) n \<longleftrightarrow> n = k" if "k < 32" for k
    using that by (auto simp: bit_exp_iff)
  from this [of 0] this [of 1] this [of 2] this [of 3]
  show "bit (1 :: bitmask) n \<longleftrightarrow> n = 0" "bit (2 :: bitmask) n \<longleftrightarrow> n = 1"
    "bit (4 :: bitmask) n \<longleftrightarrow> n = 2" "bit (8 :: bitmask) n \<longleftrightarrow> n = 3"
    by simp_all
  have "bit (mask 4 :: bitmask) n \<longleftrightarrow> n < 4"
    by (auto simp: bit_mask_iff)
  then show "bit (15 :: bitmask) n \<longleftrightarrow> n < 4"
    by (simp add: mask_numeral)
qed

lemma has_flag_bits:
  "has_flag v attribute_symlink \<longleftrightarrow> bit v 0"
  "has_flag v attribute_executable \<longleftrightarrow> bit v 1"
  "has_flag v attribute_hidden \<longleftrightarrow> bit v 2"
  "has_flag v attribute_padding_file \<longleftrightarrow> bit v 3"
proof -
  have one: "v AND f = f \<longleftrightarrow> bit v k" if f: "\<And>n. bit f n \<longleftrightarrow> n = k" for f :: bitmask and k
  proof
    assume "v AND f = f"
    then have "bit (v AND f) k" using f by simp
    then show "bit v k" by (simp add: bit_and_iff)
  next
    assume "bit v k"
    then show "v AND f = f"
      by (intro bit_word_eqI) (auto simp: bit_and_iff f)
  qed
  show "has_flag v attribute_symlink \<longleftrightarrow> bit v 0"
    "has_flag v attribute_executable \<longleftrightarrow> bit v 1"
    "has_flag v attribute_hidden \<longleftrightarrow> bit v 2"
    "has_flag v attribute_padding_file \<longleftrightarrow> bit v 3"
    unfolding has_flag_def enum_and_def attribute_defs
    by (rule one, rule bit_flags)+
qed

lemma known_attributes_split:
  "(v :: bitmask) AND 15 = (if bit v 1 then 2 else 0) OR (if bit v 0 then 1 else 0)
       OR (if bit v 2 then 4 else 0) OR (if bit v 3 then 8 else 0)"
proof (rule bit_word_eqI)
  fix n :: nat
  have if_bit: "bit (if b then x else 0) n \<longleftrightarrow> b \<and> bit x n" for b and x :: bitmask
    by simp
  have four: "n < 4 \<longleftrightarrow> n = 0 \<or> n = 1 \<or> n = 2 \<or> n = 3"
    by auto
  show "bit (v AND 15) n = bit ((if bit v 1 then (2 :: bitmask) else 0) OR (if bit v 0 then 1 else 0)
       OR (if bit v 2 then 4 else 0) OR (if bit v 3 then 8 else 0)) n"
    by (simp only: bit_and_iff bit_or_iff if_bit bit_flags four) blast
qed

text \<open>
  Parsing the printed attributes gives back the attributes the format knows; bits no
  enumerator names are lost, and printing never fails to parse.
\<close>

theorem attributes_round_trip:
  "make_file_attributes (attributes_to_string v) = Inr (enum_and v known_attributes)"
proof (cases "v = attribute_none")
  case True
  then show ?thesis
    by (simp add: attributes_to_string_def make_file_attributes_def attribute_defs enum_and_def)
next
  case False
  show ?thesis
    unfolding enum_and_def known_attributes_def known_attributes_split
      attributes_to_string_def make_file_attributes_def has_flag_bits
    using False
    by (cases "bit v 0"; cases "bit v 1"; cases "bit v 2"; cases "bit v 3")
      (simp_all only: if_True if_False append_Nil append_Cons rfold.simps rbind.simps
        attribute_of_char_def char.inject simp_thms enum_or_def attribute_defs or.left_neutral
        or.right_neutral or.assoc)
qed

lemma make_file_attributes_Inr:
  "(\<exists>v. make_file_attributes s = Inr v) \<longleftrightarrow> set s \<subseteq> {CHR ''l'', CHR ''x'', CHR ''h'', CHR ''p''}"
proof -
  have "(\<exists>v. rfold (\<lambda>c a. rbind (attribute_of_char c) (\<lambda>x. Inr (enum_or a x))) s a0 = Inr v)
      \<longleftrightarrow> set s \<subseteq> {CHR ''l'', CHR ''x'', CHR ''h'', CHR ''p''}" for a0
    by (induction s arbitrary: a0) (simp_all add: attribute_of_char_def)
  then show ?thesis
    by (simp add: make_file_attributes_def)
qed

section \<open>Size literals\<close>

definition KiB :: "nat \<Rightarrow> nat" where "KiB value = size_mul value 1024"
definition MiB :: "nat \<Rightarrow> nat" where "MiB value = size_mul (size_mul value 1024) 1024"
definition bits_literal :: "nat \<Rightarrow> nat" where "bits_literal value = value div 8"

definition v2_block_size :: nat where
  "v2_block_size = KiB 16"

lemma v2_block_size_eq [simp]: "v2_block_size = 16384"
  by (simp add: v2_block_size_def KiB_def size_mul_def size_bound_def)

lemma MiB_1 [simp]: "MiB (Suc 0) = 1048576"
  by (simp add: MiB_def size_mul_def size_bound_def)

text \<open>\<^verbatim>\<open>std::has_single_bit\<close>: a power of two.\<close>

definition has_single_bit :: "nat \<Rightarrow> bool" where
  "has_single_bit n \<longleftrightarrow> 0 < n \<and> n AND (n - 1) = 0"

lemma single_bit_16K: "has_single_bit 16384"
  by (simp add: has_single_bit_def)

section \<open>Integer helpers (\<^verbatim>\<open>utils.hpp\<close>)\<close>

definition div_ceil :: "nat \<Rightarrow> nat \<Rightarrow> nat result" where
  "div_ceil x y = rbind (expects (y \<noteq> 0)) (\<lambda>_. Inr (x div y + (if x mod y \<noteq> 0 then 1 else 0)))"

text \<open>The index of the highest bit of a 64-bit value, which the code gets by counting zeros.\<close>

fun log2_floor :: "nat \<Rightarrow> nat" where
  "log2_floor x = (if x < 2 then 0 else Suc (log2_floor (x div 2)))"

declare log2_floor.simps [simp del]

definition log2_ceil :: "nat \<Rightarrow> nat" where
  "log2_ceil x = log2_floor (size_sub (size_mul 2 x) 1)"

lemma log2_floor_bounds: "0 < x \<Longrightarrow> 2 ^ log2_floor x \<le> x \<and> x < 2 ^ Suc (log2_floor x)"
proof (induction x rule: log2_floor.induct)
  case (1 x)
  show ?case
  proof (cases "x < 2")
    case True
    with 1 show ?thesis by (simp add: log2_floor.simps)
  next
    case False
    then have "2 ^ log2_floor (x div 2) \<le> x div 2" "x div 2 < 2 ^ Suc (log2_floor (x div 2))"
      using 1 by auto
    with False show ?thesis
      by (subst (1 2) log2_floor.simps) (auto simp: less_mult_imp_div_less)
  qed
qed

lemma log2_floor_unique: "2 ^ k \<le> x \<Longrightarrow> x < 2 ^ Suc k \<Longrightarrow> log2_floor x = k"
proof -
  assume x: "2 ^ k \<le> x" "x < 2 ^ Suc k"
  then have "0 < x" by (metis less_le_trans zero_less_numeral zero_less_power)
  from log2_floor_bounds [OF this] x have "(2::nat) ^ log2_floor x < 2 ^ Suc k" "(2::nat) ^ k < 2 ^ Suc (log2_floor x)"
    by linarith+
  then have "log2_floor x < Suc k" "k < Suc (log2_floor x)"
    by (simp_all only: power_strict_increasing_iff [of "2::nat"] one_less_numeral_iff semiring_norm)
  then show ?thesis by simp
qed

lemma log2_floor_power [simp]: "log2_floor (2 ^ k) = k"
  by (rule log2_floor_unique) simp_all

lemma log2_ceil_power: "k < 63 \<Longrightarrow> log2_ceil (2 ^ k) = k"
proof -
  assume k: "k < 63"
  then have "(2::nat) * 2 ^ k < size_bound"
    using power_strict_increasing [of "Suc k" 64 "2::nat"] by (simp add: size_bound_def)
  then have "log2_ceil (2 ^ k) = log2_floor (2 * 2 ^ k - 1)"
    by (simp add: log2_ceil_def size_mul_exact size_sub_exact)
  also have "\<dots> = k"
    by (rule log2_floor_unique) (auto simp: le_diff_conv2)
  finally show ?thesis .
qed

lemma div_ceil_exact: "0 < y \<Longrightarrow> div_ceil x y = Inr (ceil_div x y)"
proof -
  assume y: "0 < y"
  have "x div y + (if x mod y \<noteq> 0 then 1 else 0) = (x + y - 1) div y"
  proof (cases "x mod y = 0")
    case True
    then obtain q where "x = q * y" by (metis div_mult_mod_eq add_0_right)
    with y show ?thesis using ceil_div_mult [of y q] by (simp add: ceil_div_def)
  next
    case False
    then have x: "0 < x" by (cases x) auto
    have "(x + y - 1) div y = (x div y * y + (x mod y - 1) + y) div y"
      using False x by (intro arg_cong2 [of _ _ _ _ "(div)"]) (simp_all add: div_mult_mod_eq)
    also have "\<dots> = ((x div y + 1) * y + (x mod y - 1)) div y"
      by (simp add: algebra_simps)
    also have "\<dots> = x div y + (x mod y - 1) div y + 1"
      using y by (subst div_mult_self3) simp_all
    also have "(x mod y - 1) div y = 0"
      using y by (simp add: div_eq_0_iff less_imp_diff_less)
    finally show ?thesis using False by simp
  qed
  with y show ?thesis by (simp add: div_ceil_def expects_def ceil_div_def)
qed

end
