(* ===== verification/Hashes.thy ===== *)
theory Hashes
  imports General Hex "HOL-Library.List_Lexorder" "HOL-Library.Char_ord"
begin

text \<open>
  Hash functions and digests: the enumeration and its names (\<^verbatim>\<open>hash_function.hpp\<close>), and
  \<^verbatim>\<open>basic_hash<N>\<close> with the digest classes the macro in \<^verbatim>\<open>hash.hpp\<close> makes. A digest is the
  list of its bytes; its length is the template argument.
\<close>

section \<open>Hash functions\<close>

datatype hash_function =
    hf_none | md2 | md4 | md5 | blake2b_512 | blake2s_256 | sha1 | sha224 | sha256 | sha384
  | sha512 | sha3_224 | sha3_256 | sha3_384 | sha3_512 | shake128 | shake256 | ripemd160
  | whirlpool

definition supported_hash_functions :: "hash_function list" where
  "supported_hash_functions =
     [md4, md5, blake2b_512, blake2s_256, sha1, sha224, sha256, sha384, sha512, sha3_224,
      sha3_256, sha3_384, sha3_512, shake128, shake256, ripemd160, whirlpool]"

fun hash_function_name :: "hash_function \<Rightarrow> string result" where
  "hash_function_name md4 = Inr ''md4''"
| "hash_function_name md5 = Inr ''md5''"
| "hash_function_name blake2b_512 = Inr ''blake2b_512''"
| "hash_function_name blake2s_256 = Inr ''blake2s_256''"
| "hash_function_name sha1 = Inr ''sha1''"
| "hash_function_name sha224 = Inr ''sha224''"
| "hash_function_name sha256 = Inr ''sha256''"
| "hash_function_name sha384 = Inr ''sha384''"
| "hash_function_name sha512 = Inr ''sha512''"
| "hash_function_name sha3_224 = Inr ''sha3_224''"
| "hash_function_name sha3_256 = Inr ''sha3_256''"
| "hash_function_name sha3_384 = Inr ''sha3_384''"
| "hash_function_name sha3_512 = Inr ''sha3_512''"
| "hash_function_name shake128 = Inr ''shake128''"
| "hash_function_name shake256 = Inr ''shake256''"
| "hash_function_name ripemd160 = Inr ''ripemd160''"
| "hash_function_name whirlpool = Inr ''whirlpool''"
| "hash_function_name _ = Inl Invalid_Argument"

definition is_hash_function_name :: "string \<Rightarrow> bool" where
  "is_hash_function_name s \<longleftrightarrow> list_ex (\<lambda>v. hash_function_name v = Inr s) supported_hash_functions"

definition make_hash_function :: "string \<Rightarrow> hash_function option" where
  "make_hash_function s = find (\<lambda>func. hash_function_name func = Inr s) supported_hash_functions"

lemma supported_iff: "f \<in> set supported_hash_functions \<longleftrightarrow> f \<noteq> hf_none \<and> f \<noteq> md2"
  by (cases f) (simp_all add: supported_hash_functions_def)

lemma hash_function_name_inj:
  "hash_function_name f = Inr s \<Longrightarrow> hash_function_name g = Inr s \<Longrightarrow> f = g"
  by (cases f; cases g) auto

lemma hash_function_name_supported:
  "hash_function_name f = Inr s \<Longrightarrow> f \<in> set supported_hash_functions"
  by (cases f) (simp_all add: supported_hash_functions_def)

lemma make_hash_function_Some:
  "make_hash_function s = Some f \<longleftrightarrow> hash_function_name f = Inr s"
proof
  assume "make_hash_function s = Some f"
  then show "hash_function_name f = Inr s"
    by (auto simp: make_hash_function_def find_Some_iff)
next
  assume f: "hash_function_name f = Inr s"
  then obtain g where "make_hash_function s = Some g"
    using hash_function_name_supported
    by (metis (mono_tags) find_None_iff make_hash_function_def not_None_eq)
  with f show "make_hash_function s = Some f"
    by (auto simp: make_hash_function_def find_Some_iff dest: hash_function_name_inj)
qed

text \<open>
  \<^verbatim>\<open>make_hash_function\<close> is the inverse of \<^verbatim>\<open>to_string\<close>: it returns a function exactly for
  the functions' names, and \<^verbatim>\<open>is_hash_function_name\<close> decides whether it returns one.
\<close>

theorem make_hash_function_inverse:
  "(make_hash_function s = Some f \<longleftrightarrow> hash_function_name f = Inr s)
   \<and> (is_hash_function_name s \<longleftrightarrow> make_hash_function s \<noteq> None)"
proof
  show "make_hash_function s = Some f \<longleftrightarrow> hash_function_name f = Inr s"
    by (rule make_hash_function_Some)
  show "is_hash_function_name s \<longleftrightarrow> make_hash_function s \<noteq> None"
    by (auto simp: is_hash_function_name_def make_hash_function_def list_ex_iff find_None_iff
        simp flip: not_None_eq)
qed

section \<open>Digests\<close>

text \<open>
  The widths the class template is instantiated with. The literal \<^verbatim>\<open>_bits\<close> divides by eight.
\<close>

fun digest_bits :: "hash_function \<Rightarrow> nat option" where
  "digest_bits md4 = Some 128"
| "digest_bits md5 = Some 128"
| "digest_bits blake2b_512 = Some 512"
| "digest_bits blake2s_256 = Some 256"
| "digest_bits sha1 = Some 160"
| "digest_bits sha224 = Some 224"
| "digest_bits sha256 = Some 256"
| "digest_bits sha384 = Some 384"
| "digest_bits sha512 = Some 512"
| "digest_bits sha3_224 = Some 224"
| "digest_bits sha3_256 = Some 256"
| "digest_bits sha3_384 = Some 284"
| "digest_bits sha3_512 = Some 512"
| "digest_bits shake128 = Some 128"
| "digest_bits shake256 = Some 256"
| "digest_bits ripemd160 = Some 160"
| "digest_bits whirlpool = Some 512"
| "digest_bits _ = None"

definition size_bytes :: "hash_function \<Rightarrow> nat" where
  "size_bytes f = (case digest_bits f of Some n \<Rightarrow> bits_literal n | None \<Rightarrow> 0)"

type_synonym hash = "byte list"

definition hash_zero :: "nat \<Rightarrow> hash" where
  "hash_zero N = replicate N 0"

definition hash_of_view :: "nat \<Rightarrow> string \<Rightarrow> hash result" where
  "hash_of_view N digest =
     rbind (throw_if (length digest \<noteq> N) Invalid_Argument) (\<lambda>_. Inr (bytes_of_string digest))"

definition hash_of_span :: "nat \<Rightarrow> byte list \<Rightarrow> hash result" where
  "hash_of_span N digest =
     rbind (throw_if (length digest \<noteq> N) Invalid_Argument) (\<lambda>_. Inr digest)"

definition hash_view :: "hash \<Rightarrow> string" where
  "hash_view h = string_of_bytes h"

text \<open>The loop of \<^verbatim>\<open>hex_string\<close>, which fills a string of blanks by index.\<close>

definition hash_hex_string :: "hash \<Rightarrow> string" where
  "hash_hex_string h =
     fold (\<lambda>i s. s[2 * i := byte_to_hex (h ! i) ! 0, 2 * i + 1 := byte_to_hex (h ! i) ! 1])
       [0..<length h] (replicate (length h * 2) CHR '' '')"

definition hash_less :: "hash \<Rightarrow> hash \<Rightarrow> bool" where
  "hash_less a b \<longleftrightarrow> map unat a < map unat b"

definition make_hash_from_hex :: "nat \<Rightarrow> string \<Rightarrow> hash result" where
  "make_hash_from_hex N hex_string =
     (if length hex_string \<noteq> 2 * N then Inl Invalid_Argument
      else rbind (from_hexadecimal_string N hex_string) (\<lambda>data.
        case data of None \<Rightarrow> Inl Invalid_Argument | Some d \<Rightarrow> Inr d))"

lemma hash_view_round_trip [simp]:
  "length h = N \<Longrightarrow> hash_of_view N (hash_view h) = Inr h"
  by (simp add: hash_of_view_def hash_view_def)

lemma length_hash_of_view: "hash_of_view N s = Inr h \<Longrightarrow> length h = N"
  by (auto simp: hash_of_view_def result_simps)

lemma length_hash_view [simp]: "length (hash_view h) = length h"
  by (simp add: hash_view_def)

lemma length_hash_zero [simp]: "length (hash_zero N) = N"
  by (simp add: hash_zero_def)

text \<open>Filling by index writes the concatenation of the bytes' digits.\<close>

lemma hash_hex_string_prefix:
  "n \<le> length h \<Longrightarrow>
   fold (\<lambda>i s. s[2 * i := byte_to_hex (h ! i) ! 0, 2 * i + 1 := byte_to_hex (h ! i) ! 1])
     [0..<n] (replicate (length h * 2) CHR '' '')
   = to_hexadecimal_string (take n h) @ replicate ((length h - n) * 2) CHR '' ''"
proof (induction n)
  case 0
  then show ?case by (simp add: to_hexadecimal_string_def)
next
  case (Suc n)
  then obtain k where k: "length h - n = Suc k" and n: "n < length h"
    by (metis Suc_diff_Suc Suc_le_eq)
  obtain a b where ab: "byte_to_hex (h ! n) = [a, b]"
    by (simp add: byte_to_hex_def)
  have len: "length (to_hexadecimal_string (take n h)) = 2 * n"
    using n by simp
  have two: "(xs @ x # y # zs)[2 * n := a, 2 * n + 1 := b] = xs @ a # b # zs"
    if "length xs = 2 * n" for xs zs :: string and x y
    using that by (simp add: list_update_append)
  have step: "to_hexadecimal_string (take (Suc n) h) = to_hexadecimal_string (take n h) @ [a, b]"
    using n ab by (simp add: take_Suc_conv_app_nth to_hexadecimal_string_def)
  have "length h - Suc n = k"
    using k by simp
  then show ?case
    using Suc n two [OF len] by (simp add: k step ab)
qed

text \<open>
  Printing a digest and reading it back returns the digest, through either printing routine
  of the library: the loop of \<^verbatim>\<open>hex_string\<close> writes what \<^verbatim>\<open>to_hexadecimal_string\<close> does.
\<close>

theorem hash_hex_round_trip:
  "hash_hex_string h = to_hexadecimal_string h
   \<and> make_hash_from_hex (length h) (hash_hex_string h) = Inr h"
proof
  show eq: "hash_hex_string h = to_hexadecimal_string h"
    using hash_hex_string_prefix [of "length h" h] by (simp add: hash_hex_string_def)
  show "make_hash_from_hex (length h) (hash_hex_string h) = Inr h"
    by (simp add: eq make_hash_from_hex_def hexadecimal_pairs_read_back)
qed

end
