(* ===== verification/Info_Hash.thy ===== *)
theory Info_Hash
  imports Hashes
begin

text \<open>
  Info hashes (\<^verbatim>\<open>include/dottorrent/info_hash.hpp\<close>): a v1 hash, a v2 hash, or both. Reading
  through a disengaged optional is undefined behaviour. \<^verbatim>\<open>std::hash\<close> of a string view is
  implementation defined and a parameter of the model.
\<close>

record info_hash =
  ih_version :: protocol
  ih_v1 :: "hash option"
  ih_v2 :: "hash option"

definition info_hash_v1_only :: "hash \<Rightarrow> info_hash" where
  "info_hash_v1_only h = \<lparr>ih_version = protocol_v1, ih_v1 = Some h, ih_v2 = None\<rparr>"

definition info_hash_v2_only :: "hash \<Rightarrow> info_hash" where
  "info_hash_v2_only h = \<lparr>ih_version = protocol_v2, ih_v1 = None, ih_v2 = Some h\<rparr>"

definition info_hash_hybrid :: "hash \<Rightarrow> hash \<Rightarrow> info_hash" where
  "info_hash_hybrid h1 h2 = \<lparr>ih_version = protocol_hybrid, ih_v1 = Some h1, ih_v2 = Some h2\<rparr>"

definition info_hash_of_data :: "protocol \<Rightarrow> string \<Rightarrow> info_hash result" where
  "info_hash_of_data version data =
     (if version = protocol_v1 \<and> length data = size_bytes sha1 then
        rbind (hash_of_view (size_bytes sha1) data) (\<lambda>h.
          Inr \<lparr>ih_version = version, ih_v1 = Some h, ih_v2 = None\<rparr>)
      else if version = protocol_v2 \<and> length data = size_bytes sha256 then
        rbind (hash_of_view (size_bytes sha256) data) (\<lambda>h.
          Inr \<lparr>ih_version = version, ih_v1 = None, ih_v2 = Some h\<rparr>)
      else Inl Invalid_Argument)"

definition info_hash_of_both :: "string \<Rightarrow> string \<Rightarrow> info_hash result" where
  "info_hash_of_both v1_data v2_data =
     (if length v1_data = size_bytes sha1 then
        rbind (hash_of_view (size_bytes sha1) v1_data) (\<lambda>h1.
        if length v2_data = size_bytes sha256 then
          rbind (hash_of_view (size_bytes sha256) v2_data) (\<lambda>h2.
            Inr \<lparr>ih_version = protocol_hybrid, ih_v1 = Some h1, ih_v2 = Some h2\<rparr>)
        else Inl Invalid_Argument)
      else Inl Invalid_Argument)"

definition info_hash_from_hex :: "protocol \<Rightarrow> string \<Rightarrow> info_hash result" where
  "info_hash_from_hex version hex_data =
     rbind (expects (version \<noteq> protocol_hybrid)) (\<lambda>_.
     if version = protocol_v1 then
       rbind (make_hash_from_hex (size_bytes sha1) hex_data) (\<lambda>h. Inr (info_hash_v1_only h))
     else if version = protocol_v2 then
       rbind (make_hash_from_hex (size_bytes sha256) hex_data) (\<lambda>h. Inr (info_hash_v2_only h))
     else Inl Invalid_Argument)"

definition info_hash_from_hex_both :: "string \<Rightarrow> string \<Rightarrow> info_hash result" where
  "info_hash_from_hex_both v1_hex_data v2_hex_data =
     rbind (make_hash_from_hex (size_bytes sha1) v1_hex_data) (\<lambda>h1.
     rbind (make_hash_from_hex (size_bytes sha256) v2_hex_data) (\<lambda>h2.
       Inr (info_hash_hybrid h1 h2)))"

definition deref :: "'a option \<Rightarrow> 'a result" where
  "deref x = (case x of Some v \<Rightarrow> Inr v | None \<Rightarrow> Inl Undefined)"

definition info_hash_get_binary :: "info_hash \<Rightarrow> protocol \<Rightarrow> string result" where
  "info_hash_get_binary ih version =
     rbind (expects (version \<noteq> protocol_hybrid)) (\<lambda>_.
     if version = protocol_v1 then rbind (deref (ih_v1 ih)) (\<lambda>h. Inr (hash_view h))
     else if version = protocol_v2 then rbind (deref (ih_v2 ih)) (\<lambda>h. Inr (hash_view h))
     else Inl Invalid_Argument)"

definition info_hash_get_hex :: "info_hash \<Rightarrow> protocol \<Rightarrow> string result" where
  "info_hash_get_hex ih version =
     rbind (info_hash_get_binary ih version) (\<lambda>binary.
       Inr (to_hexadecimal_string (bytes_of_string binary)))"

definition info_hash_truncated_v2 :: "info_hash \<Rightarrow> hash result" where
  "info_hash_truncated_v2 ih =
     rbind (deref (ih_v2 ih)) (\<lambda>h. hash_of_view (size_bytes sha1) (take (size_bytes sha1) (hash_view h)))"

definition info_hash_eq :: "info_hash \<Rightarrow> info_hash \<Rightarrow> bool" where
  "info_hash_eq a b \<longleftrightarrow>
     ih_version a = ih_version b \<and> ih_v1 a = ih_v1 b \<and> ih_v2 a = ih_v2 b"

fun optional_less :: "('a \<Rightarrow> 'a \<Rightarrow> bool) \<Rightarrow> 'a option \<Rightarrow> 'a option \<Rightarrow> bool" where
  "optional_less lt (Some a) (Some b) \<longleftrightarrow> lt a b"
| "optional_less lt None (Some b) \<longleftrightarrow> True"
| "optional_less lt _ None \<longleftrightarrow> False"

definition info_hash_compare :: "info_hash \<Rightarrow> info_hash \<Rightarrow> ordering" where
  "info_hash_compare a b =
     (if ih_version a \<noteq> ih_version b then order_of (<) (ih_version a) (ih_version b)
      else if ih_version a = protocol_v1 then order_of (optional_less hash_less) (ih_v1 a) (ih_v1 b)
      else order_of (optional_less hash_less) (ih_v2 a) (ih_v2 b))"

text \<open>\<^verbatim>\<open>std::hash<info_hash>\<close>; \<open>H\<close> is the hash of a string view.\<close>

definition info_hash_hash :: "(string \<Rightarrow> 64 word) \<Rightarrow> info_hash \<Rightarrow> 64 word result" where
  "info_hash_hash H ih =
     (if ih_version ih = protocol_v1 then
        rbind (info_hash_get_binary ih protocol_v1) (\<lambda>s. Inr (H s))
      else if ih_version ih = protocol_v2 then
        rbind (info_hash_get_binary ih protocol_v2) (\<lambda>s. Inr (H s))
      else if ih_version ih = protocol_hybrid then
        rbind (info_hash_get_binary ih protocol_v1) (\<lambda>s.
        rbind (info_hash_get_binary ih protocol_v1) (\<lambda>s'. Inr (or (H s) (H s'))))
      else Inr 0)"

section \<open>Well-formed info hashes\<close>

definition info_hash_ok :: "info_hash \<Rightarrow> bool" where
  "info_hash_ok ih \<longleftrightarrow>
     (case ih_v1 ih of Some h \<Rightarrow> length h = 20 | None \<Rightarrow> True) \<and>
     (case ih_v2 ih of Some h \<Rightarrow> length h = 32 | None \<Rightarrow> True) \<and>
     (ih_version ih = protocol_v1 \<and> ih_v1 ih \<noteq> None \<and> ih_v2 ih = None \<or>
      ih_version ih = protocol_v2 \<and> ih_v1 ih = None \<and> ih_v2 ih \<noteq> None \<or>
      ih_version ih = protocol_hybrid \<and> ih_v1 ih \<noteq> None \<and> ih_v2 ih \<noteq> None)"

lemma digest_sizes [simp]: "size_bytes sha1 = 20" "size_bytes sha256 = 32" "size_bytes md5 = 16"
  by (simp_all add: size_bytes_def bits_literal_def)

lemma make_hash_from_hex_length:
  assumes "make_hash_from_hex N s = Inr h"
  shows "length h = N"
proof -
  have "hex_pairs n t = Inr (Some bs) \<Longrightarrow> length bs = n" for n t bs
    by (induction n t arbitrary: bs rule: hex_pairs.induct)
      (auto simp: result_simps split: option.splits)
  then show ?thesis
    using assms
    by (fastforce simp: make_hash_from_hex_def from_hexadecimal_string_def result_simps
        split: if_splits option.splits)
qed

lemma info_hash_constructors_ok:
  "info_hash_of_data v d = Inr ih \<Longrightarrow> info_hash_ok ih"
  "info_hash_of_both s1 s2 = Inr ih \<Longrightarrow> info_hash_ok ih"
  "info_hash_from_hex v s = Inr ih \<Longrightarrow> info_hash_ok ih"
  "info_hash_from_hex_both s1 s2 = Inr ih \<Longrightarrow> info_hash_ok ih"
  by (auto simp: info_hash_of_data_def info_hash_of_both_def info_hash_from_hex_def
      info_hash_from_hex_both_def info_hash_v1_only_def info_hash_v2_only_def
      info_hash_hybrid_def info_hash_ok_def result_simps
      dest: length_hash_of_view make_hash_from_hex_length split: if_splits)

lemma hash_less_irrefl [simp]: "\<not> hash_less a a"
  by (simp add: hash_less_def)

lemma optional_less_irrefl [simp]: "\<not> optional_less hash_less x x"
  by (cases x) simp_all

text \<open>
  Comparing two well-formed info hashes as equal means that they are equal, except that two
  hybrid ones with the same v2 hash compare as equal whatever their v1 hashes are: the order is
  coarser than \<^verbatim>\<open>operator==\<close>.
\<close>

theorem info_hash_compare_equal:
  assumes "info_hash_ok a" and "info_hash_ok b"
  shows "info_hash_compare a b = Equal \<longleftrightarrow>
    info_hash_eq a b \<or>
    (ih_version a = protocol_hybrid \<and> ih_version b = protocol_hybrid \<and> ih_v2 a = ih_v2 b)"
  using assms
  by (auto simp: info_hash_compare_def info_hash_eq_def info_hash_ok_def)

theorem info_hash_compare_equal_witness:
  "info_hash_compare (info_hash_hybrid (replicate 20 1) (replicate 32 9))
     (info_hash_hybrid (replicate 20 2) (replicate 32 9)) = Equal
   \<and> \<not> info_hash_eq (info_hash_hybrid (replicate 20 1) (replicate 32 9))
     (info_hash_hybrid (replicate 20 2) (replicate 32 9))"
proof -
  have ok: "info_hash_ok (info_hash_hybrid (replicate 20 b) (replicate 32 9))" for b
    by (simp add: info_hash_ok_def info_hash_hybrid_def)
  show ?thesis
    using info_hash_compare_equal [OF ok [of 1] ok [of 2]]
    by (simp add: info_hash_hybrid_def info_hash_eq_def)
qed

text \<open>
  The hash of a well-formed info hash is defined, equal info hashes hash alike (the contract
  of the unordered set that stores them), and the hash of a hybrid one does not depend on its v2
  part, because the v1 part is combined with itself.
\<close>

theorem info_hash_hash_contract:
  assumes "info_hash_ok a"
  shows "(\<exists>w. info_hash_hash H a = Inr w)
    \<and> (\<forall>b. info_hash_eq a b \<longrightarrow> info_hash_hash H a = info_hash_hash H b)
    \<and> (\<forall>b h. ih_version a = protocol_hybrid \<and> b = a\<lparr>ih_v2 := Some h\<rparr> \<longrightarrow>
         info_hash_hash H a = info_hash_hash H b)"
  using assms
  by (auto simp: info_hash_hash_def info_hash_ok_def info_hash_eq_def info_hash_get_binary_def
      deref_def split: option.splits)

theorem info_hash_hash_contract_witness:
  "\<exists>w. info_hash_hash (\<lambda>s. word_of_nat (length s)) (info_hash_v1_only (replicate 20 3)) = Inr w"
proof -
  have "info_hash_ok (info_hash_v1_only (replicate 20 3))"
    by (simp add: info_hash_ok_def info_hash_v1_only_def)
  from info_hash_hash_contract [OF this, of "\<lambda>s. word_of_nat (length s)"]
  show ?thesis by blast
qed

text \<open>
  The hexadecimal form of an info hash reads back as the info hash.
\<close>

theorem info_hash_hex_round_trip:
  assumes "info_hash_ok ih" and "ih_version ih \<noteq> protocol_hybrid"
  shows "rbind (info_hash_get_hex ih (ih_version ih)) (info_hash_from_hex (ih_version ih)) = Inr ih"
proof -
  have rt: "make_hash_from_hex (length h) (to_hexadecimal_string h) = Inr h" for h
    using hexadecimal_pairs_read_back [of h] by (simp add: make_hash_from_hex_def)
  from assms consider
    (v1) h where "ih = info_hash_v1_only h" "length h = 20"
  | (v2) h where "ih = info_hash_v2_only h" "length h = 32"
    by (cases ih) (auto simp: info_hash_ok_def info_hash_v1_only_def info_hash_v2_only_def)
  then show ?thesis
  proof cases
    case v1
    with rt [of h] show ?thesis
      by (simp add: info_hash_get_hex_def info_hash_get_binary_def info_hash_from_hex_def
          info_hash_v1_only_def deref_def hash_view_def)
  next
    case v2
    with rt [of h] show ?thesis
      by (simp add: info_hash_get_hex_def info_hash_get_binary_def info_hash_from_hex_def
          info_hash_v2_only_def deref_def hash_view_def)
  qed
qed

theorem info_hash_hex_round_trip_witness:
  "rbind (info_hash_get_hex (info_hash_v1_only (replicate 20 171)) protocol_v1)
     (info_hash_from_hex protocol_v1) = Inr (info_hash_v1_only (replicate 20 171))"
proof -
  have "info_hash_ok (info_hash_v1_only (replicate 20 171))"
    by (simp add: info_hash_ok_def info_hash_v1_only_def)
  from info_hash_hex_round_trip [OF this] show ?thesis
    by (simp add: info_hash_v1_only_def)
qed

end
