(* ===== verification/Announce.thy ===== *)
theory Announce
  imports Prelude "HOL-Library.Multiset" "HOL-Library.List_Lexorder" "HOL-Library.Char_ord"
begin

text \<open>
  Trackers: \<^verbatim>\<open>announce_url.hpp\<close>, \<^verbatim>\<open>announce_url_list.hpp\<close> and \<^verbatim>\<open>announce_url_list.cpp\<close>. The
  container is a vector of announce urls kept in ascending (tier, url) order, and the tiers
  in use are 0 up to some bound without a gap. Iterators are positions. A tier is below the
  length of the vector under that invariant, so \<^verbatim>\<open>tier + 1\<close> does not wrap and is written on
  naturals. The contract of a tiered container is a locale, interpreted on the vector model.
\<close>

section \<open>Announce urls\<close>

datatype announce_url = Announce_Url (au_url: string) (au_tier: nat)

text \<open>\<^verbatim>\<open>operator<=>\<close>: by tier, then by url.\<close>

definition announce_url_compare :: "announce_url \<Rightarrow> announce_url \<Rightarrow> ordering" where
  "announce_url_compare a b =
     (let tier_cmp = order_of (<) (au_tier a) (au_tier b) in
      if tier_cmp = Equal then order_of (<) (au_url a) (au_url b) else tier_cmp)"

lemma announce_url_compare_Less:
  "announce_url_compare a b = Less \<longleftrightarrow> au_tier a < au_tier b \<or> au_tier a = au_tier b \<and> au_url a < au_url b"
  by (auto simp: announce_url_compare_def order_of_def)

lemma announce_url_compare_Greater:
  "announce_url_compare a b \<noteq> Greater \<longleftrightarrow> au_tier a < au_tier b \<or> au_tier a = au_tier b \<and> au_url a \<le> au_url b"
  by (auto simp: announce_url_compare_def order_of_def)

instantiation announce_url :: linorder
begin

definition less_eq_announce_url :: "announce_url \<Rightarrow> announce_url \<Rightarrow> bool" where
  "less_eq_announce_url a b \<longleftrightarrow> announce_url_compare a b \<noteq> Greater"

definition less_announce_url :: "announce_url \<Rightarrow> announce_url \<Rightarrow> bool" where
  "less_announce_url a b \<longleftrightarrow> announce_url_compare a b = Less"

instance
  by standard
    (auto simp: less_eq_announce_url_def less_announce_url_def announce_url_compare_Less
      announce_url_compare_Greater announce_url.expand)

end

lemmas announce_less = less_announce_url_def [unfolded announce_url_compare_Less]
lemmas announce_less_eq = less_eq_announce_url_def [unfolded announce_url_compare_Greater]

definition announce_url_hash :: "(nat \<Rightarrow> 64 word) \<Rightarrow> (string \<Rightarrow> 64 word) \<Rightarrow> announce_url \<Rightarrow> 64 word" where
  "announce_url_hash hash_size hash_string a = xor (hash_size (au_tier a)) (hash_string (au_url a))"

section \<open>The container\<close>

type_synonym announce_url_list = "announce_url list"

definition announce_url_list_of :: "string list list \<Rightarrow> announce_url_list" where
  "announce_url_list_of il =
     concat (map (\<lambda>(tier, level). concat (map (\<lambda>url. sort_key au_url [Announce_Url url tier]) level))
              (enumerate 0 il))"

definition tier_count :: "announce_url_list \<Rightarrow> nat" where
  "tier_count xs = (if xs = [] then 0 else au_tier (last xs) + 1)"

definition get_tier_begin :: "announce_url_list \<Rightarrow> nat \<Rightarrow> nat" where
  "get_tier_begin xs tier = length (takeWhile (\<lambda>a. au_tier a < tier) xs)"

definition get_tier_end :: "announce_url_list \<Rightarrow> nat \<Rightarrow> nat" where
  "get_tier_end xs tier = length (takeWhile (\<lambda>a. \<not> tier < au_tier a) xs)"

definition get_tier :: "announce_url_list \<Rightarrow> nat \<Rightarrow> nat \<times> nat" where
  "get_tier xs tier = (get_tier_begin xs tier, get_tier_end xs tier)"

definition tier_size :: "announce_url_list \<Rightarrow> nat \<Rightarrow> nat" where
  "tier_size xs tier = (let (first, last) = get_tier xs tier in last - first)"

definition tier_range :: "announce_url_list \<Rightarrow> nat \<Rightarrow> announce_url_list" where
  "tier_range xs tier = (let (first, last) = get_tier xs tier in take (last - first) (drop first xs))"

definition insert_at :: "nat \<Rightarrow> 'a \<Rightarrow> 'a list \<Rightarrow> 'a list" where
  "insert_at i x xs = take i xs @ x # drop i xs"

definition announce_insert :: "announce_url \<Rightarrow> announce_url_list \<Rightarrow> announce_url_list result" where
  "announce_insert a xs =
     rbind (expects (au_tier a \<le> tier_count xs)) (\<lambda>_.
       let it = length (takeWhile (\<lambda>b. \<not> a < b) xs)
       in Inr (insert_at it a xs))"

definition announce_emplace :: "string \<Rightarrow> nat \<Rightarrow> announce_url_list \<Rightarrow> announce_url_list result" where
  "announce_emplace url tier xs =
     rbind (expects (tier \<le> tier_count xs)) (\<lambda>_.
       let (first, _) = get_tier xs tier;
           it = first + length (takeWhile (\<lambda>b. \<not> url < au_url b) (tier_range xs tier))
       in Inr (insert_at it (Announce_Url url tier) xs))"

definition announce_erase_at :: "nat \<Rightarrow> announce_url_list \<Rightarrow> announce_url_list result" where
  "announce_erase_at pos xs =
     rbind (expects (pos \<le> length xs)) (\<lambda>_.
       if pos = length xs then Inr xs
       else
         let pos_tier = au_tier (xs ! pos);
             ys = take pos xs @ drop (Suc pos) xs
         in if pos = length ys \<or> au_tier (ys ! pos) = pos_tier then Inr ys
            else
              let tier_begin = get_tier_begin ys pos_tier
              in if tier_begin = length ys then Inl Undefined
                 else if au_tier (ys ! tier_begin) \<noteq> pos_tier
                 then Inr (take pos ys @ map (\<lambda>a. Announce_Url (au_url a) (au_tier a - 1)) (drop pos ys))
                 else Inr ys)"

definition find_index :: "('a \<Rightarrow> bool) \<Rightarrow> 'a list \<Rightarrow> nat" where
  "find_index P xs = length (takeWhile (\<lambda>x. \<not> P x) xs)"

definition announce_find_url :: "announce_url_list \<Rightarrow> string \<Rightarrow> nat" where
  "announce_find_url xs url = find_index (\<lambda>a. au_url a = url) xs"

definition announce_find :: "announce_url_list \<Rightarrow> announce_url \<Rightarrow> nat" where
  "announce_find xs value =
     (let (tier_begin, tier_end) = get_tier xs (au_tier value);
          it = tier_begin + find_index (\<lambda>a. a = value) (tier_range xs (au_tier value))
      in if it = tier_end then length xs else it)"

definition announce_erase :: "announce_url \<Rightarrow> announce_url_list \<Rightarrow> announce_url_list result" where
  "announce_erase a xs =
     (let it = announce_find xs a in if it \<noteq> length xs then announce_erase_at it xs else Inr xs)"

definition binary_search :: "('a \<Rightarrow> 'b \<Rightarrow> bool) \<Rightarrow> ('b \<Rightarrow> 'a \<Rightarrow> bool) \<Rightarrow> 'a list \<Rightarrow> 'b \<Rightarrow> bool" where
  "binary_search lt gt xs v =
     (case dropWhile (\<lambda>x. lt x v) xs of [] \<Rightarrow> False | x # _ \<Rightarrow> \<not> gt v x)"

definition announce_contains_url :: "announce_url_list \<Rightarrow> string \<Rightarrow> bool" where
  "announce_contains_url xs url =
     list_ex (\<lambda>tier. binary_search (\<lambda>a u. au_url a < u) (\<lambda>u a. u < au_url a) (tier_range xs tier) url)
       [0..<tier_count xs + 1]"

definition announce_contains :: "announce_url_list \<Rightarrow> announce_url \<Rightarrow> bool" where
  "announce_contains xs a = binary_search (<) (<) xs a"

definition as_nested_vector :: "announce_url_list \<Rightarrow> string list list" where
  "as_nested_vector xs = map (\<lambda>idx. map au_url (tier_range xs idx)) [0..<tier_count xs]"

definition announce_list_hash ::
    "(nat \<Rightarrow> 64 word) \<Rightarrow> (string \<Rightarrow> 64 word) \<Rightarrow> announce_url_list \<Rightarrow> 64 word" where
  "announce_list_hash hash_size hash_string xs =
     fold (\<lambda>a h. xor h (announce_url_hash hash_size hash_string a)) xs (hash_size (length xs))"

section \<open>The invariant and the tiers it gives\<close>

definition announce_ok :: "announce_url_list \<Rightarrow> bool" where
  "announce_ok xs \<longleftrightarrow> sorted xs \<and> (\<forall>t < tier_count xs. \<exists>a \<in> set xs. au_tier a = t)"

text \<open>The abstract view: the urls of each tier, every tier sorted and not empty.\<close>

definition tiers_ok :: "string list list \<Rightarrow> bool" where
  "tiers_ok n \<longleftrightarrow> (\<forall>us \<in> set n. sorted us \<and> us \<noteq> [])"

fun flatten_from :: "nat \<Rightarrow> string list list \<Rightarrow> announce_url_list" where
  "flatten_from k [] = []"
| "flatten_from k (us # n) = map (\<lambda>u. Announce_Url u k) us @ flatten_from (Suc k) n"

definition tiers_insert :: "string \<Rightarrow> nat \<Rightarrow> string list list \<Rightarrow> string list list" where
  "tiers_insert u t n = (if t < length n then n[t := insort u (n ! t)] else n @ [[u]])"

definition tiers_erase :: "string \<Rightarrow> nat \<Rightarrow> string list list \<Rightarrow> string list list" where
  "tiers_erase u t n =
     (if t < length n \<and> u \<in> set (n ! t)
      then take t n @ (if remove1 u (n ! t) = [] then [] else [remove1 u (n ! t)]) @ drop (Suc t) n
      else n)"

subsection \<open>Lists of tiers and their flat form\<close>

lemma flatten_from_append:
  "flatten_from k (m @ n) = flatten_from k m @ flatten_from (k + length m) n"
  by (induction m arbitrary: k) auto

lemma announce_url_eqI: "a = Announce_Url u t \<longleftrightarrow> au_url a = u \<and> au_tier a = t"
  by (cases a) auto

lemma flatten_from_tiers:
  "a \<in> set (flatten_from k n) \<longleftrightarrow>
     k \<le> au_tier a \<and> au_tier a < k + length n \<and> au_url a \<in> set (n ! (au_tier a - k))"
proof (induction k n rule: flatten_from.induct)
  case (2 k us n)
  show ?case
    by (cases "au_tier a = k") (auto simp: 2 nth_Cons' image_iff announce_url_eqI)
qed simp

lemma flatten_from_filter:
  "k \<le> t \<Longrightarrow> t < k + length n \<Longrightarrow>
     filter (\<lambda>a. au_tier a = t) (flatten_from k n) = map (\<lambda>u. Announce_Url u t) (n ! (t - k))"
proof (induction k n rule: flatten_from.induct)
  case (2 k us n)
  show ?case
  proof (cases "t = k")
    case True
    have "filter (\<lambda>a. au_tier a = k) (flatten_from (Suc k) n) = []"
      by (auto simp: filter_empty_conv flatten_from_tiers)
    with True show ?thesis by (simp add: comp_def)
  next
    case False
    with 2 have "filter (\<lambda>a. au_tier a = t) (flatten_from (Suc k) n) = map (\<lambda>u. Announce_Url u t) (n ! (t - Suc k))"
      by simp
    with False 2(2) show ?thesis by (simp add: comp_def nth_Cons')
  qed
qed simp

lemma sorted_flatten_from: "tiers_ok n \<Longrightarrow> sorted (flatten_from k n)"
proof (induction k n rule: flatten_from.induct)
  case (2 k us n)
  have "sorted (map (\<lambda>u. Announce_Url u k) us)"
    using 2(2) by (simp add: tiers_ok_def sorted_map announce_less_eq)
  moreover have "Announce_Url u k \<le> b" if "b \<in> set (flatten_from (Suc k) n)" for u b
    using that by (simp add: flatten_from_tiers announce_less_eq)
  ultimately show ?case
    using 2 by (auto simp: sorted_append tiers_ok_def)
qed simp

lemma flatten_from_last: "tiers_ok n \<Longrightarrow> n \<noteq> [] \<Longrightarrow> au_tier (last (flatten_from k n)) = k + length n - 1"
  by (induction n rule: rev_induct)
    (auto simp: flatten_from_append tiers_ok_def last_map)

lemma flatten_from_Nil [simp]: "tiers_ok n \<Longrightarrow> flatten_from k n = [] \<longleftrightarrow> n = []"
  by (cases n) (auto simp: tiers_ok_def)

lemma tier_count_flatten [simp]: "tiers_ok n \<Longrightarrow> tier_count (flatten_from 0 n) = length n"
  using flatten_from_last [of n 0] by (cases "n = []") (auto simp: tier_count_def Suc_le_eq)

subsection \<open>The tiers of a sorted list\<close>

lemma sorted_tiers: "sorted xs \<Longrightarrow> sorted (map au_tier xs)"
  by (auto simp: sorted_map announce_less_eq elim!: sorted_wrt_mono_rel [rotated])

lemma sorted_key_split:
  fixes f :: "'a \<Rightarrow> nat"
  assumes "sorted_wrt (\<lambda>x y. f x \<le> f y) xs"
  shows "filter (\<lambda>x. f x < t) xs @ filter (\<lambda>x. f x = t) xs @ filter (\<lambda>x. t < f x) xs = xs"
  using assms
proof (induction xs)
  case (Cons x xs)
  have none: "filter (\<lambda>y. f y < t) xs = []" if "t \<le> f x"
    using Cons.prems that by (auto simp: filter_empty_conv)
  have none': "filter (\<lambda>y. f y = t) xs = []" if "t < f x"
    using Cons.prems that by (auto simp: filter_empty_conv)
  consider "f x < t" | "f x = t" | "t < f x" by linarith
  then show ?case
    using Cons none none' by cases auto
qed simp

lemma takeWhile_append_none:
  "\<forall>x \<in> set xs. P x \<Longrightarrow> \<forall>x \<in> set ys. \<not> P x \<Longrightarrow> takeWhile P (xs @ ys) = xs"
  by (induction xs) (auto simp: takeWhile_eq_Nil_iff)

lemma tier_range_filter:
  assumes "sorted xs"
  shows "tier_range xs t = filter (\<lambda>a. au_tier a = t) xs"
proof -
  define A where "A = filter (\<lambda>a. au_tier a < t) xs"
  define B where "B = filter (\<lambda>a. au_tier a = t) xs"
  define C where "C = filter (\<lambda>a. t < au_tier a) xs"
  have xs: "A @ B @ C = xs"
    unfolding A_def B_def C_def
    using sorted_tiers [OF assms] by (intro sorted_key_split) (simp add: sorted_map)
  have "takeWhile (\<lambda>a. au_tier a < t) (A @ B @ C) = A"
    by (rule takeWhile_append_none) (auto simp: A_def B_def C_def)
  moreover have "takeWhile (\<lambda>a. \<not> t < au_tier a) ((A @ B) @ C) = A @ B"
    by (rule takeWhile_append_none) (auto simp: A_def B_def C_def)
  ultimately have "tier_range (A @ B @ C) t = B"
    by (simp add: tier_range_def get_tier_def get_tier_begin_def get_tier_end_def)
  then show ?thesis
    unfolding xs by (simp add: B_def)
qed

lemma concat_filter_groups:
  fixes f :: "'a \<Rightarrow> nat"
  assumes "sorted_wrt (\<lambda>x y. f x \<le> f y) xs"
  shows "concat (map (\<lambda>i. filter (\<lambda>x. f x = i) xs) [0..<n]) = filter (\<lambda>x. f x < n) xs"
proof (induction n)
  case (Suc n)
  have "filter (\<lambda>x. f x < Suc n) (filter (\<lambda>x. f x < n) xs @ filter (\<lambda>x. f x = n) xs @ filter (\<lambda>x. n < f x) xs)
      = filter (\<lambda>x. f x < n) xs @ filter (\<lambda>x. f x = n) xs"
    by (auto simp: filter_empty_conv intro!: arg_cong2 [of _ _ _ _ "(@)"] filter_cong)
  then show ?case
    using Suc by (simp add: sorted_key_split [OF assms])
qed simp

lemma as_nested_flatten [simp]:
  assumes "tiers_ok n"
  shows "as_nested_vector (flatten_from 0 n) = n"
proof -
  have "map au_url (tier_range (flatten_from 0 n) t) = n ! t" if "t < length n" for t
    using that
    by (simp add: tier_range_filter sorted_flatten_from assms flatten_from_filter comp_def)
  then have "as_nested_vector (flatten_from 0 n) = map ((!) n) [0..<length n]"
    by (simp add: as_nested_vector_def assms)
  then show ?thesis by (simp add: map_nth)
qed

lemma announce_ok_flatten [simp]: "tiers_ok n \<Longrightarrow> announce_ok (flatten_from 0 n)"
proof -
  assume n: "tiers_ok n"
  have "\<exists>a \<in> set (flatten_from 0 n). au_tier a = t" if "t < length n" for t
  proof -
    have "n ! t \<noteq> []" using n that by (simp add: tiers_ok_def)
    then show ?thesis
      using that by (intro bexI [of _ "Announce_Url (hd (n ! t)) t"]) (auto simp: flatten_from_tiers)
  qed
  with n show ?thesis by (simp add: announce_ok_def sorted_flatten_from)
qed

lemma flatten_from_map:
  "flatten_from k (map g [a..<b]) = concat (map (\<lambda>i. map (\<lambda>u. Announce_Url u (k + i - a)) (g i)) [a..<b])"
proof (induction "b - a" arbitrary: k a)
  case (Suc d)
  then have ab: "a < b" "[a..<b] = a # [Suc a..<b]" by (simp_all add: upt_conv_Cons)
  have "flatten_from (Suc k) (map g [Suc a..<b])
      = concat (map (\<lambda>i. map (\<lambda>u. Announce_Url u (Suc k + i - Suc a)) (g i)) [Suc a..<b])"
    using Suc by (intro Suc.hyps) simp
  then show ?case by (simp add: ab)
qed simp

lemma sorted_last_max: "sorted xs \<Longrightarrow> a \<in> set xs \<Longrightarrow> a \<le> last xs"
  by (induction xs rule: rev_induct) (auto simp: sorted_append)

lemma flatten_as_nested:
  assumes "announce_ok xs"
  shows "flatten_from 0 (as_nested_vector xs) = xs" "tiers_ok (as_nested_vector xs)"
proof -
  have so: "sorted xs" using assms by (simp add: announce_ok_def)
  have bound: "au_tier a < tier_count xs" if "a \<in> set xs" for a
    using sorted_last_max [OF so that] that
    by (auto simp: tier_count_def announce_less_eq)
  have "flatten_from 0 (as_nested_vector xs)
      = concat (map (\<lambda>i. filter (\<lambda>a. au_tier a = i) xs) [0..<tier_count xs])"
    by (auto simp: as_nested_vector_def flatten_from_map tier_range_filter so comp_def
        announce_url_eqI intro!: arg_cong [of _ _ concat] map_idI [symmetric, THEN sym])
  also have "\<dots> = xs"
    using concat_filter_groups [of au_tier xs "tier_count xs"] sorted_tiers [OF so] bound
    by (simp add: sorted_map filter_id_conv)
  finally show "flatten_from 0 (as_nested_vector xs) = xs" .
  have "sorted (map au_url (filter (\<lambda>a. au_tier a = t) xs))" for t
    using sorted_wrt_filter [OF so, of "\<lambda>a. au_tier a = t"]
    by (auto simp: sorted_map announce_less_eq elim!: sorted_wrt_mono_rel [rotated])
  moreover have "filter (\<lambda>a. au_tier a = t) xs \<noteq> []" if "t < tier_count xs" for t
    using assms that by (auto simp: announce_ok_def filter_empty_conv)
  ultimately show "tiers_ok (as_nested_vector xs)"
    by (auto simp: tiers_ok_def as_nested_vector_def tier_range_filter so)
qed

subsection \<open>Insertion\<close>

lemma insert_at_upper_bound:
  fixes a :: "'a :: linorder"
  shows "sorted xs \<Longrightarrow> insert_at (length (takeWhile (\<lambda>b. \<not> a < b) xs)) a xs = insort a xs"
proof (induction xs)
  case (Cons x xs)
  show ?case
  proof (cases "a < x")
    case True
    then show ?thesis by (simp add: insert_at_def order.strict_implies_order)
  next
    case False
    then have "x \<le> a" by simp
    moreover have "insort a xs = a # xs" if "x = a" 
      using Cons.prems that by (cases xs) auto
    ultimately show ?thesis
      using Cons False by (auto simp: insert_at_def)
  qed
qed (simp add: insert_at_def)

lemma length_tiers_insert: "length n \<le> length (tiers_insert u t n)"
  by (simp add: tiers_insert_def)

lemma tiers_ok_insert: "tiers_ok n \<Longrightarrow> tiers_ok (tiers_insert u t n)"
  by (auto simp: tiers_ok_def tiers_insert_def sorted_insort
      dest!: set_update_subset_insert [THEN subsetD])

lemma mset_flatten_insert:
  "t \<le> length n \<Longrightarrow>
     mset (flatten_from k (tiers_insert u t n)) = add_mset (Announce_Url u (k + t)) (mset (flatten_from k n))"
proof (induction n arbitrary: k t)
  case (Cons us n)
  have "tiers_insert u (Suc s) (us # n) = us # tiers_insert u s n" for s
    by (simp add: tiers_insert_def)
  with Cons show ?case
    by (cases t) (simp_all add: tiers_insert_def image_mset_union)
qed (simp add: tiers_insert_def)

lemma announce_insert_insort:
  "sorted xs \<Longrightarrow> au_tier a \<le> tier_count xs \<Longrightarrow> announce_insert a xs = Inr (insort a xs)"
  by (simp add: announce_insert_def expects_def insert_at_upper_bound)

lemma sorted_mset_unique:
  "sorted xs \<Longrightarrow> sorted ys \<Longrightarrow> mset xs = mset ys \<Longrightarrow> xs = ys"
  by (metis properties_for_sort)

lemma insort_flatten:
  assumes "tiers_ok n" "t \<le> length n"
  shows "insort (Announce_Url u t) (flatten_from 0 n) = flatten_from 0 (tiers_insert u t n)"
  using assms
  by (intro sorted_mset_unique)
    (simp_all add: mset_flatten_insert sorted_flatten_from tiers_ok_insert sorted_insort)

subsection \<open>Removal\<close>

lemma flatten_from_decrement:
  "map (\<lambda>a. Announce_Url (au_url a) (au_tier a - 1)) (flatten_from (Suc k) n) = flatten_from k n"
  by (induction n arbitrary: k) auto

lemma announce_erase_at_flatten:
  assumes n: "tiers_ok (n1 @ (us1 @ u # us2) # n2)"
  defines "rest \<equiv> (if us1 @ us2 = [] then [] else [us1 @ us2])"
  shows "announce_erase_at (length (flatten_from 0 n1) + length us1)
           (flatten_from 0 (n1 @ (us1 @ u # us2) # n2)) = Inr (flatten_from 0 (n1 @ rest @ n2))"
proof -
  define t where "t = length n1"
  define A where "A = flatten_from 0 n1"
  define B where "B = flatten_from (Suc t) n2"
  let ?M = "map (\<lambda>v. Announce_Url v t)"
  have n2: "tiers_ok n2" using n by (simp add: tiers_ok_def)
  have B: "B = [] \<longleftrightarrow> n2 = []" by (simp add: B_def n2)
  have hdB: "B \<noteq> [] \<Longrightarrow> Suc t \<le> au_tier (B ! 0)"
    using flatten_from_tiers [of "B ! 0" "Suc t" n2] by (metis B_def length_greater_0_conv nth_mem)
  have xs: "flatten_from 0 (n1 @ (us1 @ u # us2) # n2) = A @ ?M us1 @ Announce_Url u t # ?M us2 @ B"
    by (simp add: flatten_from_append A_def B_def t_def)
  have result: "flatten_from 0 (n1 @ rest @ n2)
      = (if us1 @ us2 = [] then A @ map (\<lambda>a. Announce_Url (au_url a) (au_tier a - 1)) B
         else A @ ?M us1 @ ?M us2 @ B)"
    by (simp add: rest_def flatten_from_append A_def B_def t_def
        flatten_from_decrement flatten_from_decrement [simplified])
  have tb: "get_tier_begin (A @ ?M us1 @ ?M us2 @ B) t = length A"
  proof -
    have "\<not> au_tier b < t" if "b \<in> set B" for b
      using that by (auto simp: B_def flatten_from_tiers)
    then have "takeWhile (\<lambda>a. au_tier a < t) (A @ (?M us1 @ ?M us2 @ B)) = A"
      by (intro takeWhile_append_none) (auto simp: A_def flatten_from_tiers t_def)
    then show ?thesis by (simp add: get_tier_begin_def)
  qed
  consider "us2 \<noteq> []" | "us2 = []" "B = []" | "us2 = []" "B \<noteq> []" "us1 \<noteq> []"
    | "us2 = []" "B \<noteq> []" "us1 = []" by blast
  then have "announce_erase_at (length A + length us1) (A @ ?M us1 @ Announce_Url u t # ?M us2 @ B)
      = Inr (flatten_from 0 (n1 @ rest @ n2))"
    by cases (use hdB tb in \<open>simp_all add: announce_erase_at_def expects_def result nth_append Let_def\<close>)
  then show ?thesis by (simp add: xs A_def)
qed

lemma find_index_found:
  assumes "x \<in> set xs"
  shows "xs = take (find_index (\<lambda>y. y = x) xs) xs @ x # drop (Suc (find_index (\<lambda>y. y = x) xs)) xs"
    "find_index (\<lambda>y. y = x) xs < length xs"
  using assms by (induction xs) (auto simp: find_index_def)

lemma find_index_missing: "x \<notin> set xs \<Longrightarrow> find_index (\<lambda>y. y = x) xs = length xs"
  unfolding find_index_def by (induction xs) auto

lemma find_index_map_url:
  "find_index (\<lambda>a. a = Announce_Url u t) (map (\<lambda>v. Announce_Url v t) us) = find_index (\<lambda>v. v = u) us"
  by (simp add: find_index_def takeWhile_map comp_def)

lemma get_tier_begin_flatten:
  "get_tier_begin (flatten_from 0 n) t = length (flatten_from 0 (take t n))"
proof -
  have "takeWhile (\<lambda>a. au_tier a < t) (flatten_from 0 (take t n) @ flatten_from (length (take t n)) (drop t n))
      = flatten_from 0 (take t n)"
    by (rule takeWhile_append_none) (auto simp: flatten_from_tiers)
  then show ?thesis
    using flatten_from_append [of 0 "take t n" "drop t n"] by (simp add: get_tier_begin_def)
qed

lemma get_tier_end_begin: "get_tier_end xs t = get_tier_begin xs (Suc t)"
  by (simp add: get_tier_end_def get_tier_begin_def not_less less_Suc_eq_le)

lemma tier_range_flatten:
  assumes "tiers_ok n"
  shows "tier_range (flatten_from 0 n) t = (if t < length n then map (\<lambda>u. Announce_Url u t) (n ! t) else [])"
  by (auto simp: tier_range_filter sorted_flatten_from assms flatten_from_filter filter_empty_conv
      flatten_from_tiers)

lemma announce_find_flatten:
  assumes n: "tiers_ok n"
  shows "announce_find (flatten_from 0 n) (Announce_Url u t)
    = (if t < length n \<and> u \<in> set (n ! t)
       then length (flatten_from 0 (take t n)) + find_index (\<lambda>v. v = u) (n ! t)
       else length (flatten_from 0 n))"
proof (cases "t < length n")
  case True
  then have e: "length (flatten_from 0 (take (Suc t) n)) = length (flatten_from 0 (take t n)) + length (n ! t)"
    by (simp add: take_Suc_conv_app_nth flatten_from_append)
  show ?thesis
    using True find_index_found [of u "n ! t"]
    by (auto simp: announce_find_def get_tier_def get_tier_begin_flatten get_tier_end_begin n
        tier_range_flatten find_index_map_url e find_index_missing)
next
  case False
  then show ?thesis
    by (simp add: announce_find_def get_tier_def get_tier_begin_flatten get_tier_end_begin n
        tier_range_flatten find_index_def)
qed

lemma announce_erase_flatten:
  assumes n: "tiers_ok n"
  shows "announce_erase (Announce_Url u t) (flatten_from 0 n) = Inr (flatten_from 0 (tiers_erase u t n))"
proof (cases "t < length n \<and> u \<in> set (n ! t)")
  case True
  define i where "i = find_index (\<lambda>v. v = u) (n ! t)"
  define us1 where "us1 = take i (n ! t)"
  define us2 where "us2 = drop (Suc i) (n ! t)"
  have us: "n ! t = us1 @ u # us2" and i: "i < length (n ! t)" "length us1 = i"
    using True find_index_found [of u "n ! t"] by (simp_all add: i_def us1_def us2_def)
  have split: "n = take t n @ (us1 @ u # us2) # drop (Suc t) n"
    using True by (simp add: us [symmetric] id_take_nth_drop)
  have "sorted (n ! t)" using n True by (simp add: tiers_ok_def)
  then have r: "remove1 u (n ! t) = us1 @ us2"
    by (intro sorted_mset_unique) (simp_all add: us sorted_remove1 sorted_append del: remove1_append)
  have pos: "length (flatten_from 0 (take t n)) + i < length (flatten_from 0 n)"
    by (subst (2) split) (simp add: flatten_from_append i)
  have "announce_erase_at (length (flatten_from 0 (take t n)) + length us1)
          (flatten_from 0 (take t n @ (us1 @ u # us2) # drop (Suc t) n))
      = Inr (flatten_from 0 (take t n @ (if us1 @ us2 = [] then [] else [us1 @ us2]) @ drop (Suc t) n))"
    using n by (intro announce_erase_at_flatten) (simp flip: split)
  then show ?thesis
    using True pos i(2) r
    by (simp add: announce_erase_def announce_find_flatten n tiers_erase_def flip: split i_def)
qed (auto simp: announce_erase_def announce_find_flatten n tiers_erase_def)

lemma tiers_ok_erase: "tiers_ok n \<Longrightarrow> tiers_ok (tiers_erase u t n)"
  using nth_mem [of t n]
  by (auto simp: tiers_ok_def tiers_erase_def sorted_remove1 dest: in_set_takeD in_set_dropD)

section \<open>The contract of a tiered container\<close>

lemma sort_snoc: "sort (us @ [v]) = insort v (sort us)" for v :: "'a :: linorder"
  by (rule sorted_mset_unique) (simp_all add: sorted_insort)

lemma sort_eq_Nil_iff: "sort us = [] \<longleftrightarrow> us = []" for us :: "'a :: linorder list"
  by (metis length_sort length_0_conv)

locale tiered_container =
  fixes inv :: "'s \<Rightarrow> bool"
    and tiers :: "'s \<Rightarrow> string list list"
    and ins :: "announce_url \<Rightarrow> 's \<Rightarrow> 's result"
    and del :: "announce_url \<Rightarrow> 's \<Rightarrow> 's result"
  assumes inv_tiers: "inv s \<Longrightarrow> tiers_ok (tiers s)"
    and ins_tiers: "inv s \<Longrightarrow> au_tier a \<le> length (tiers s) \<Longrightarrow>
      \<exists>s'. ins a s = Inr s' \<and> inv s' \<and> tiers s' = tiers_insert (au_url a) (au_tier a) (tiers s)"
    and ins_gap: "inv s \<Longrightarrow> length (tiers s) < au_tier a \<Longrightarrow> ins a s = Inl Contract"
    and del_tiers: "inv s \<Longrightarrow>
      \<exists>s'. del a s = Inr s' \<and> inv s' \<and> tiers s' = tiers_erase (au_url a) (au_tier a) (tiers s)"
begin

lemma ins_inv: "inv s \<Longrightarrow> ins a s = Inr s' \<Longrightarrow> inv s'"
  using ins_tiers [of s a] ins_gap [of s a] by (cases "au_tier a \<le> length (tiers s)") auto

lemma add_level:
  assumes "inv s" "tiers s = n @ (if us = [] then [] else [sort us])"
  shows "\<exists>s'. rfold ins (map (\<lambda>u. Announce_Url u (length n)) vs) s = Inr s' \<and> inv s' \<and>
    tiers s' = n @ (if us @ vs = [] then [] else [sort (us @ vs)])"
  using assms
proof (induction vs arbitrary: s us)
  case (Cons v vs)
  have "tiers_insert v (length n) (tiers s) = n @ [sort (us @ [v])]"
    using Cons.prems(2)
    by (auto simp: tiers_insert_def nth_append list_update_append sort_snoc)
  then obtain s' where s': "ins (Announce_Url v (length n)) s = Inr s'" "inv s'"
      "tiers s' = n @ (if us @ [v] = [] then [] else [sort (us @ [v])])"
    using ins_tiers [OF Cons.prems(1), of "Announce_Url v (length n)"] Cons.prems(2) by auto
  show ?case
    using Cons.IH [OF s'(2,3)] s'(1) by simp
qed auto

lemma load_levels:
  assumes "inv s" "\<forall>us \<in> set n. us \<noteq> []"
  shows "\<exists>s'. rfold ins (flatten_from (length (tiers s)) n) s = Inr s' \<and> inv s' \<and>
    tiers s' = tiers s @ map sort n"
  using assms
proof (induction n arbitrary: s)
  case (Cons us n)
  obtain s1 where s1: "rfold ins (map (\<lambda>u. Announce_Url u (length (tiers s))) us) s = Inr s1" "inv s1"
      "tiers s1 = tiers s @ [sort us]"
    using add_level [of s "tiers s" "[]" us] Cons.prems by auto
  obtain s2 where "rfold ins (flatten_from (length (tiers s1)) n) s1 = Inr s2" "inv s2"
      "tiers s2 = tiers s1 @ map sort n"
    using Cons.IH [of s1] s1(2) Cons.prems(2) by auto
  then show ?case
    using s1 by (auto simp: rfold_append)
qed simp

end

interpretation al: tiered_container announce_ok as_nested_vector announce_insert announce_erase
proof unfold_locales
  fix s a
  assume s: "announce_ok s"
  let ?n = "as_nested_vector s"
  note fl = flatten_as_nested [OF s]
  have tc: "tier_count s = length ?n"
    by (simp add: as_nested_vector_def)
  show "tiers_ok ?n" by (rule fl(2))
  show "\<exists>s'. announce_erase a s = Inr s' \<and> announce_ok s' \<and>
      as_nested_vector s' = tiers_erase (au_url a) (au_tier a) ?n"
    using announce_erase_flatten [OF fl(2), of "au_url a" "au_tier a"]
    by (intro exI [of _ "flatten_from 0 (tiers_erase (au_url a) (au_tier a) ?n)"])
      (simp add: fl tiers_ok_erase)
  show "\<exists>s'. announce_insert a s = Inr s' \<and> announce_ok s' \<and>
      as_nested_vector s' = tiers_insert (au_url a) (au_tier a) ?n" if "au_tier a \<le> length ?n"
    using that insort_flatten [OF fl(2) that, of "au_url a"] s announce_insert_insort [of s a]
      tiers_ok_insert [OF fl(2), of "au_url a" "au_tier a"] announce_ok_def [of s]
    by (intro exI [of _ "flatten_from 0 (tiers_insert (au_url a) (au_tier a) ?n)"])
      (simp add: fl tc)
  show "announce_insert a s = Inl Contract" if "length ?n < au_tier a"
    using that by (simp add: announce_insert_def expects_def tc)
qed

lemma announce_emplace_insert:
  assumes "announce_ok xs"
  shows "announce_emplace u t xs = announce_insert (Announce_Url u t) xs"
proof (cases "t \<le> tier_count xs")
  case True
  define n where "n = as_nested_vector xs"
  have xs: "xs = flatten_from 0 n" and n: "tiers_ok n"
    using flatten_as_nested [OF assms] by (simp_all add: n_def)
  define A where "A = flatten_from 0 (take t n)"
  define M where "M = tier_range xs t"
  define B where "B = flatten_from (Suc t) (drop (Suc t) n)"
  have M: "M = (if t < length n then map (\<lambda>u. Announce_Url u t) (n ! t) else [])"
    by (simp add: M_def xs tier_range_flatten n)
  have split: "xs = A @ M @ B"
  proof (cases "t < length n")
    case True
    then have "n = take t n @ n ! t # drop (Suc t) n" by (simp add: id_take_nth_drop)
    then show ?thesis
      using True flatten_from_append [of 0 "take t n" "n ! t # drop (Suc t) n"]
      by (simp add: xs A_def B_def M)
  qed (simp add: xs A_def B_def M)
  have tw: "takeWhile (\<lambda>b. \<not> Announce_Url u t < b) (M @ B) = takeWhile (\<lambda>b. \<not> u < au_url b) M"
  proof -
    have "takeWhile (\<lambda>b. \<not> Announce_Url u t < b) B = []"
      by (cases B) (use flatten_from_tiers [of "hd B" "Suc t" "drop (Suc t) n"] B_def in
          \<open>auto simp: announce_less\<close>)
    moreover have "takeWhile (\<lambda>b. \<not> Announce_Url u t < b) M = takeWhile (\<lambda>b. \<not> u < au_url b) M"
      by (rule takeWhile_cong) (auto simp: M announce_less split: if_splits)
    ultimately show ?thesis
      by (auto simp: takeWhile_append) (metis takeWhile_eq_all_conv)
  qed
  have "\<not> Announce_Url u t < b" if "b \<in> set A" for b
    using that by (auto simp: A_def flatten_from_tiers announce_less)
  then have "length (takeWhile (\<lambda>b. \<not> Announce_Url u t < b) xs)
      = length A + length (takeWhile (\<lambda>b. \<not> u < au_url b) M)"
    by (subst split) (simp add: takeWhile_append2 tw)
  moreover have "get_tier_begin xs t = length A"
    by (simp add: xs get_tier_begin_flatten A_def)
  ultimately show ?thesis
    using True by (simp add: announce_emplace_def announce_insert_def get_tier_def Let_def M_def)
qed (simp add: announce_emplace_def announce_insert_def expects_def)

lemma announce_lookup:
  assumes "announce_ok xs"
  shows "announce_contains xs a \<longleftrightarrow> a \<in> set xs"
    and "announce_contains_url xs u \<longleftrightarrow> (\<exists>a \<in> set xs. au_url a = u)"
proof -
  have bs: "binary_search (\<lambda>x v. f x < v) (\<lambda>v x. v < f x) ys v \<longleftrightarrow> v \<in> f ` set ys"
    if "sorted (map f ys)" for f :: "'a \<Rightarrow> 'b :: linorder" and ys v
    using that by (induction ys) (auto simp: binary_search_def)
  have so: "sorted xs" using assms by (simp add: announce_ok_def)
  show "announce_contains xs a \<longleftrightarrow> a \<in> set xs"
    using bs [of id xs a] so by (simp add: announce_contains_def)
  have "sorted (map au_url (tier_range xs t))" for t
    using sorted_wrt_filter [OF so, of "\<lambda>a. au_tier a = t"]
    by (auto simp: tier_range_filter so sorted_map announce_less_eq
        elim!: sorted_wrt_mono_rel [rotated])
  moreover have "au_tier a < Suc (tier_count xs)" if "a \<in> set xs" for a
    using sorted_last_max [OF so that] that by (auto simp: tier_count_def announce_less_eq)
  ultimately show "announce_contains_url xs u \<longleftrightarrow> (\<exists>a \<in> set xs. au_url a = u)"
    by (simp add: announce_contains_url_def list_ex_iff bs tier_range_filter so) force
qed

section \<open>Properties\<close>

text \<open>
  C38: Inserting a tracker into a well-formed list, through insert or emplace, adds its url to
  its tier in order (or opens the next tier), keeps the list well-formed, and is refused
  exactly when it would leave a gap between the tiers.
\<close>

theorem announce_insert_refines:
  assumes "announce_ok xs"
  shows "announce_emplace (au_url a) (au_tier a) xs = announce_insert a xs \<and>
    (if tier_count xs < au_tier a then announce_insert a xs = Inl Contract
     else \<exists>ys. announce_insert a xs = Inr ys \<and> announce_ok ys \<and>
       as_nested_vector ys = tiers_insert (au_url a) (au_tier a) (as_nested_vector xs))"
  using assms al.ins_gap [of xs a] al.ins_tiers [of xs a]
  by (simp add: announce_emplace_insert as_nested_vector_def)

theorem announce_insert_refines_witness:
  "\<exists>ys. announce_insert (Announce_Url ''b'' 0) [Announce_Url ''c'' 0, Announce_Url ''a'' 1] = Inr ys \<and>
     as_nested_vector ys = [[''b'', ''c''], [''a'']]"
proof -
  have ok: "announce_ok [Announce_Url ''c'' 0, Announce_Url ''a'' 1]"
    using announce_ok_flatten [of "[[''c''], [''a'']]"] by (simp add: tiers_ok_def)
  show ?thesis
    using announce_insert_refines [OF ok, of "Announce_Url ''b'' 0"] as_nested_flatten [of "[[''c''], [''a'']]"]
    by (auto simp: tier_count_def tiers_ok_def tiers_insert_def)
qed

text \<open>
  C39: Erasing a tracker removes it from its tier; when it was the last one of the tier, the
  tiers above move down by one, so that the list stays well-formed. A tracker that is not in
  the list is ignored.
\<close>

theorem announce_erase_refines:
  assumes "announce_ok xs"
  shows "\<exists>ys. announce_erase a xs = Inr ys \<and> announce_ok ys \<and>
    as_nested_vector ys = tiers_erase (au_url a) (au_tier a) (as_nested_vector xs)"
  using al.del_tiers [OF assms] .

theorem announce_erase_refines_witness:
  "\<exists>ys. announce_erase (Announce_Url ''c'' 0) [Announce_Url ''c'' 0, Announce_Url ''a'' 1] = Inr ys \<and>
     as_nested_vector ys = [[''a'']]"
proof -
  have ok: "announce_ok [Announce_Url ''c'' 0, Announce_Url ''a'' 1]"
    using announce_ok_flatten [of "[[''c''], [''a'']]"] by (simp add: tiers_ok_def)
  show ?thesis
    using announce_erase_refines [OF ok, of "Announce_Url ''c'' 0"] as_nested_flatten [of "[[''c''], [''a'']]"]
    by (auto simp: tiers_ok_def tiers_erase_def)
qed

lemma announce_find_at:
  assumes "announce_ok xs"
  shows "announce_find xs a < length xs \<longleftrightarrow> a \<in> set xs"
    and "a \<in> set xs \<Longrightarrow> xs ! announce_find xs a = a"
proof -
  define n where "n = as_nested_vector xs"
  have xs: "xs = flatten_from 0 n" and n: "tiers_ok n"
    using flatten_as_nested [OF assms] by (simp_all add: n_def)
  let ?t = "au_tier a" and ?u = "au_url a"
  have mem: "a \<in> set xs \<longleftrightarrow> ?t < length n \<and> ?u \<in> set (n ! ?t)"
    by (simp add: xs flatten_from_tiers)
  have at: "announce_find xs a < length xs \<and> xs ! announce_find xs a = a" if "a \<in> set xs"
  proof -
    have "n = take ?t n @ n ! ?t # drop (Suc ?t) n" using that mem by (simp add: id_take_nth_drop)
    then have "xs = flatten_from 0 (take ?t n) @ map (\<lambda>u. Announce_Url u ?t) (n ! ?t)
        @ flatten_from (Suc ?t) (drop (Suc ?t) n)"
      using that mem flatten_from_append [of 0 "take ?t n" "n ! ?t # drop (Suc ?t) n"] by (simp add: xs)
    moreover have "n ! ?t ! find_index (\<lambda>v. v = ?u) (n ! ?t) = ?u"
      using that mem find_index_found [of ?u "n ! ?t"] by (metis nth_append_length length_take min.absorb2 less_imp_le)
    moreover have "announce_find xs a = length (flatten_from 0 (take ?t n)) + find_index (\<lambda>v. v = ?u) (n ! ?t)"
      using that mem announce_find_flatten [OF n, of ?u ?t] by (simp add: xs)
    ultimately show ?thesis
      using find_index_found(2) [of ?u "n ! ?t"] that mem by (simp add: nth_append)
  qed
  moreover have "announce_find xs a = length xs" if "a \<notin> set xs"
    using that mem announce_find_flatten [OF n, of ?u ?t] by (auto simp: xs)
  ultimately show "announce_find xs a < length xs \<longleftrightarrow> a \<in> set xs"
    and "a \<in> set xs \<Longrightarrow> xs ! announce_find xs a = a" by (metis less_irrefl)+
qed

text \<open>
  In a well-formed list the binary searches of \<^verbatim>\<open>contains\<close> and the tier-wise \<^verbatim>\<open>find\<close> agree with
  membership.
\<close>

theorem announce_lookup_correct:
  assumes "announce_ok xs"
  shows "(announce_contains xs a \<longleftrightarrow> a \<in> set xs) \<and>
    (announce_contains_url xs u \<longleftrightarrow> (\<exists>b \<in> set xs. au_url b = u)) \<and>
    (if a \<in> set xs then announce_find xs a < length xs \<and> xs ! announce_find xs a = a
     else length xs \<le> announce_find xs a)"
  using announce_lookup [OF assms] announce_find_at [OF assms, of a] by auto

theorem announce_lookup_correct_witness:
  "announce_contains_url [Announce_Url ''c'' 0, Announce_Url ''a'' (Suc 0)] ''a'' \<and>
   \<not> announce_contains [Announce_Url ''c'' 0, Announce_Url ''a'' (Suc 0)] (Announce_Url ''a'' 0)"
proof -
  have ok: "announce_ok [Announce_Url ''c'' 0, Announce_Url ''a'' (Suc 0)]"
    using announce_ok_flatten [of "[[''c''], [''a'']]"] by (simp add: tiers_ok_def)
  show ?thesis
    using announce_lookup_correct [OF ok, of "Announce_Url ''a'' 0" "''a''"] by simp
qed

text \<open>
  Adding the trackers of a nested list tier by tier, as a metafile's announce list is read,
  gives a list whose nested form is that list with every tier sorted, when no tier is empty.
\<close>

theorem announce_levels_round_trip:
  assumes "\<forall>us \<in> set n. us \<noteq> []"
  shows "\<exists>xs. rfold announce_insert (flatten_from 0 n) [] = Inr xs \<and> announce_ok xs \<and>
    as_nested_vector xs = map sort n"
proof -
  have "announce_ok []" "as_nested_vector [] = []"
    by (simp_all add: announce_ok_def tier_count_def as_nested_vector_def)
  then show ?thesis
    using al.load_levels [of "[]" n] assms by auto
qed

theorem announce_levels_round_trip_witness:
  "\<exists>xs. rfold announce_insert (flatten_from 0 [[''b'', ''a''], [''c'']]) [] = Inr xs \<and>
     as_nested_vector xs = map sort [[''b'', ''a''], [''c'']]"
  using announce_levels_round_trip [of "[[''b'', ''a''], [''c'']]"] by auto

lemma announce_url_list_of_flatten: "announce_url_list_of il = flatten_from 0 il"
proof -
  have "concat (map (\<lambda>(tier, level). concat (map (\<lambda>url. sort_key au_url [Announce_Url url tier]) level))
      (enumerate k il)) = flatten_from k il" for k
    by (induction il arbitrary: k) (auto simp: concat_map_singleton)
  then show ?thesis by (simp add: announce_url_list_of_def)
qed

lemma sorted_flatten_tiers: "sorted (flatten_from k n) \<Longrightarrow> us \<in> set n \<Longrightarrow> sorted us"
proof (induction n arbitrary: k)
  case (Cons vs n)
  then have "sorted (map (\<lambda>u. Announce_Url u k) vs)" "sorted (flatten_from (Suc k) n)"
    by (simp_all add: sorted_append)
  moreover from this(1) have "sorted vs"
    by (simp add: sorted_map announce_less_eq)
  ultimately show ?case
    using Cons.IH Cons.prems(2) by auto
qed simp

text \<open>
  The constructor from nested braces sorts a temporary of one element, so it yields a
  well-formed list exactly when every tier it is given is sorted already.
\<close>

theorem announce_url_list_of_unsorted:
  assumes "\<forall>us \<in> set il. us \<noteq> []"
  shows "announce_ok (announce_url_list_of il) \<longleftrightarrow> (\<forall>us \<in> set il. sorted us)"
  using assms announce_ok_flatten [of il] sorted_flatten_tiers [of 0 il]
  by (auto simp: announce_url_list_of_flatten tiers_ok_def announce_ok_def)

theorem announce_url_list_of_unsorted_witness:
  "\<not> announce_ok (announce_url_list_of [[''b'', ''a'']]) \<and>
   \<not> announce_contains_url (announce_url_list_of [[''b'', ''a'']]) ''a''"
proof -
  have "announce_url_list_of [[''b'', ''a'']] = [Announce_Url ''b'' 0, Announce_Url ''a'' 0]"
    by (simp add: announce_url_list_of_flatten)
  then have "\<not> announce_contains_url (announce_url_list_of [[''b'', ''a'']]) ''a''"
    by (simp add: announce_contains_url_def tier_count_def tier_range_def get_tier_def
        get_tier_begin_def get_tier_end_def binary_search_def)
  then show ?thesis
    using announce_url_list_of_unsorted [of "[[''b'', ''a'']]"] by simp
qed

end
