(* ===== verification/Checksums.thy ===== *)
theory Checksums
  imports Hashes
begin

text \<open>
  File checksums (\<^verbatim>\<open>include/dottorrent/checksum.hpp\<close>): the digest of a known hash function, or
  bytes under a name the library does not know, and the factory functions that choose.
\<close>

datatype checksum =
    Basic_Checksum hash_function hash
  | Generic_Checksum string "byte list"

fun checksum_name :: "checksum \<Rightarrow> string" where
  "checksum_name (Basic_Checksum f v) = (case hash_function_name f of Inr s \<Rightarrow> s | Inl _ \<Rightarrow> '''')"
| "checksum_name (Generic_Checksum key v) = key"

fun checksum_value :: "checksum \<Rightarrow> byte list" where
  "checksum_value (Basic_Checksum f v) = v"
| "checksum_value (Generic_Checksum key v) = v"

fun checksum_algorithm :: "checksum \<Rightarrow> hash_function" where
  "checksum_algorithm (Basic_Checksum f v) = f"
| "checksum_algorithm (Generic_Checksum key v) = hf_none"

definition checksum_size :: "checksum \<Rightarrow> nat" where
  "checksum_size c = length (checksum_value c)"

definition checksum_hex_string :: "checksum \<Rightarrow> string" where
  "checksum_hex_string c = to_hexadecimal_string (checksum_value c)"

definition checksum_eq :: "checksum \<Rightarrow> checksum \<Rightarrow> bool" where
  "checksum_eq a b \<longleftrightarrow> checksum_name a = checksum_name b \<and> checksum_value a = checksum_value b"

text \<open>
  The constructor from characters reserves room but does not grow the vector before it writes
  through the iterator, so any character is written out of range.
\<close>

definition generic_checksum_of_chars :: "string \<Rightarrow> string \<Rightarrow> checksum result" where
  "generic_checksum_of_chars key value =
     (if value = [] then Inr (Generic_Checksum key []) else Inl Undefined)"

definition make_checksum :: "string \<Rightarrow> byte list \<Rightarrow> checksum result" where
  "make_checksum key value =
     (case make_hash_function key of
        Some f \<Rightarrow> rbind (hash_of_span (size_bytes f) value) (\<lambda>h. Inr (Basic_Checksum f h))
      | None \<Rightarrow> Inr (Generic_Checksum key value))"

definition make_checksum_default :: "string \<Rightarrow> checksum" where
  "make_checksum_default key =
     (case make_hash_function key of
        Some f \<Rightarrow> Basic_Checksum f (hash_zero (size_bytes f))
      | None \<Rightarrow> Generic_Checksum key [])"

definition make_checksum_fn :: "hash_function \<Rightarrow> byte list \<Rightarrow> checksum result" where
  "make_checksum_fn f value =
     (if f \<in> set supported_hash_functions
      then rbind (hash_of_span (size_bytes f) value) (\<lambda>h. Inr (Basic_Checksum f h))
      else Inl Invalid_Argument)"

definition make_checksum_fn_default :: "hash_function \<Rightarrow> checksum result" where
  "make_checksum_fn_default f =
     (if f \<in> set supported_hash_functions
      then Inr (Basic_Checksum f (hash_zero (size_bytes f)))
      else Inl Invalid_Argument)"

definition make_checksum_from_hex :: "string \<Rightarrow> string \<Rightarrow> checksum result" where
  "make_checksum_from_hex key hex_string =
     rbind (from_hexadecimal_string_to hex_string) (\<lambda>data.
     rbind (throw_if (length data \<noteq> length hex_string div 2) Invalid_Argument) (\<lambda>_.
       make_checksum key data))"

definition make_checksum_fn_from_hex :: "hash_function \<Rightarrow> string \<Rightarrow> checksum result" where
  "make_checksum_fn_from_hex f hex_string =
     rbind (from_hexadecimal_string_to hex_string) (\<lambda>data.
     rbind (throw_if (length data \<noteq> length hex_string div 2) Invalid_Argument) (\<lambda>_.
       make_checksum_fn f data))"

text \<open>What the factories make is well formed: a known name has a digest of its width.\<close>

fun checksum_ok :: "checksum \<Rightarrow> bool" where
  "checksum_ok (Basic_Checksum f v) \<longleftrightarrow> f \<in> set supported_hash_functions \<and> length v = size_bytes f"
| "checksum_ok (Generic_Checksum key v) \<longleftrightarrow> make_hash_function key = None"

lemma make_checksum_ok: "make_checksum key value = Inr c \<Longrightarrow> checksum_ok c"
  by (auto simp: make_checksum_def hash_of_span_def make_hash_function_Some result_simps
      dest: hash_function_name_supported split: option.splits)

lemma supported_name: "f \<in> set supported_hash_functions \<Longrightarrow> \<exists>s. hash_function_name f = Inr s"
  by (cases f) (simp_all add: supported_hash_functions_def)

lemma make_checksum_of_ok:
  assumes "checksum_ok c"
  shows "make_checksum (checksum_name c) (checksum_value c) = Inr c"
proof (cases c)
  case (Basic_Checksum f v)
  with assms obtain s where "hash_function_name f = Inr s"
    using supported_name by auto
  with Basic_Checksum assms show ?thesis
    by (auto simp: make_checksum_def hash_of_span_def make_hash_function_Some [THEN iffD2])
next
  case (Generic_Checksum key v)
  with assms show ?thesis by (simp add: make_checksum_def)
qed

text \<open>
  A checksum the library made can be made again from its name and value, as copying a file
  entry does, and the result is the checksum itself.
\<close>

theorem make_checksum_again:
  assumes "checksum_ok c"
  shows "make_checksum (checksum_name c) (checksum_value c) = Inr c"
  using assms by (rule make_checksum_of_ok)

theorem make_checksum_again_witness:
  "checksum_ok (Generic_Checksum ''crc32'' [1, 2])
   \<and> make_checksum ''crc32'' [1, 2] = Inr (Generic_Checksum ''crc32'' [1, 2])"
proof -
  have "checksum_ok (Generic_Checksum ''crc32'' [1, 2])"
    by (simp add: make_hash_function_def supported_hash_functions_def)
  with make_checksum_again [OF this] show ?thesis by simp
qed

text \<open>
  No digest of SHA3-384 is accepted: the class is instantiated with 284 bits, so its digest
  is 35 bytes wide, and a value of the real width of 48 bytes is refused.
\<close>

theorem sha3_384_digest_refused:
  assumes "length value = 48"
  shows "make_checksum ''sha3_384'' value = Inl Invalid_Argument"
proof -
  have "make_hash_function ''sha3_384'' = Some sha3_384"
    by (simp add: make_hash_function_Some)
  with assms show ?thesis
    by (simp add: make_checksum_def hash_of_span_def size_bytes_def bits_literal_def)
qed

theorem sha3_384_digest_refused_witness:
  "make_checksum ''sha3_384'' (replicate 48 7) = Inl Invalid_Argument"
  by (rule sha3_384_digest_refused) simp

end
