(* ===== verification/Ordered_Map.thy ===== *)
theory Ordered_Map
  imports Prelude "HOL-Library.List_Lexorder" "HOL-Library.Char_ord"
begin

text \<open>
  \<^verbatim>\<open>std::map<std::string, V>\<close> as the library uses it (file checksums, bencode dictionaries, the
  other info fields): an association list in ascending key order, compared as
  \<^verbatim>\<open>std::string\<close> compares, byte by byte and unsigned. The locale states the contract its
  clients rely on; the interpretation at the end discharges it.
\<close>

section \<open>The container\<close>

type_synonym 'v omap = "(string \<times> 'v) list"

fun om_insert_or_assign :: "string \<Rightarrow> 'v \<Rightarrow> 'v omap \<Rightarrow> 'v omap" where
  "om_insert_or_assign k v [] = [(k, v)]"
| "om_insert_or_assign k v ((k', v') # m) =
     (if k < k' then (k, v) # (k', v') # m
      else if k = k' then (k, v) # m
      else (k', v') # om_insert_or_assign k v m)"

definition om_find :: "'v omap \<Rightarrow> string \<Rightarrow> 'v option" where
  "om_find m k = map_of m k"

definition om_emplace :: "string \<Rightarrow> 'v \<Rightarrow> 'v omap \<Rightarrow> 'v omap" where
  "om_emplace k v m = (if om_find m k = None then om_insert_or_assign k v m else m)"

definition om_erase :: "string \<Rightarrow> 'v omap \<Rightarrow> 'v omap" where
  "om_erase k m = filter (\<lambda>e. fst e \<noteq> k) m"

definition om_ok :: "'v omap \<Rightarrow> bool" where
  "om_ok m \<longleftrightarrow> sorted_wrt (<) (map fst m)"

lemma om_find_Nil [simp]: "om_find [] k = None"
  by (simp add: om_find_def)

lemma om_find_assign: "om_find (om_insert_or_assign k v m) = (om_find m)(k \<mapsto> v)"
  by (induction m) (auto simp: om_find_def fun_eq_iff)

lemma keys_assign: "fst ` set (om_insert_or_assign k v m) = insert k (fst ` set m)"
  by (induction k v m rule: om_insert_or_assign.induct) auto

lemma om_ok_assign: "om_ok m \<Longrightarrow> om_ok (om_insert_or_assign k v m)"
proof (induction k v m rule: om_insert_or_assign.induct)
  case (1 k v)
  then show ?case by (simp add: om_ok_def)
next
  case (2 k v k' v' m)
  have keys: "x \<in> set (map fst (om_insert_or_assign k v m)) \<longleftrightarrow> x = k \<or> x \<in> set (map fst m)" for x
    using keys_assign [of k v m] by (metis image_set insert_iff)
  show ?case
  proof (cases "k < k' \<or> k = k'")
    case True
    with "2.prems" show ?thesis
      by (auto simp: om_ok_def dest: order.strict_trans)
  next
    case False
    then have "k' < k" by auto
    moreover have "om_ok (om_insert_or_assign k v m)"
      using "2.IH" "2.prems" False by (auto simp: om_ok_def)
    ultimately show ?thesis
      using "2.prems" False keys unfolding om_ok_def by (auto simp del: set_map)
  qed
qed

lemma om_find_erase: "om_find (om_erase k m) = (om_find m)(k := None)"
  by (induction m) (auto simp: om_find_def om_erase_def fun_eq_iff)

lemma om_ok_erase: "om_ok m \<Longrightarrow> om_ok (om_erase k m)"
  by (induction m) (auto simp: om_ok_def om_erase_def)

section \<open>The contract\<close>

locale string_map =
  fixes empty :: 'm
    and find :: "'m \<Rightarrow> string \<Rightarrow> 'v option"
    and assign :: "string \<Rightarrow> 'v \<Rightarrow> 'm \<Rightarrow> 'm"
    and emplace :: "string \<Rightarrow> 'v \<Rightarrow> 'm \<Rightarrow> 'm"
    and erase :: "string \<Rightarrow> 'm \<Rightarrow> 'm"
    and items :: "'m \<Rightarrow> (string \<times> 'v) list"
    and invar :: "'m \<Rightarrow> bool"
  assumes find_empty: "find empty k = None"
    and find_assign: "find (assign k v m) = (find m)(k \<mapsto> v)"
    and find_emplace: "find (emplace k v m) = (find m)(k \<mapsto> (case find m k of None \<Rightarrow> v | Some w \<Rightarrow> w))"
    and find_erase: "find (erase k m) = (find m)(k := None)"
    and find_items: "find m = map_of (items m)"
    and items_sorted: "invar m \<Longrightarrow> sorted_wrt (<) (map fst (items m))"
    and invar_empty: "invar empty"
    and invar_assign: "invar m \<Longrightarrow> invar (assign k v m)"
    and invar_emplace: "invar m \<Longrightarrow> invar (emplace k v m)"
    and invar_erase: "invar m \<Longrightarrow> invar (erase k m)"
begin

text \<open>A sequence of assignments: the last one of a key wins.\<close>

lemma find_assigns:
  "find (fold (\<lambda>e. assign (fst e) (snd e)) kvs m) = find m ++ map_of (rev kvs)"
proof (induction kvs arbitrary: m)
  case Nil
  then show ?case by simp
next
  case (Cons e kvs)
  then show ?case
    by (cases e) (auto simp: find_assign map_add_def fun_eq_iff split: option.splits)
qed

lemma invar_assigns: "invar m \<Longrightarrow> invar (fold (\<lambda>e. assign (fst e) (snd e)) kvs m)"
  by (induction kvs arbitrary: m) (auto intro: invar_assign)

text \<open>Two maps with the same lookups hold the same sorted items.\<close>

lemma items_determined:
  assumes "invar m" and "invar m'" and "find m = find m'"
  shows "items m = items m'"
proof -
  have s: "sorted_wrt (<) (map fst (items m))" "sorted_wrt (<) (map fst (items m'))"
    using assms items_sorted by auto
  then have d: "distinct (map fst (items m))" "distinct (map fst (items m'))"
    by (auto simp: strict_sorted_iff)
  have same: "set (items m) = set (items m')"
  proof (rule set_eqI)
    fix e
    show "e \<in> set (items m) \<longleftrightarrow> e \<in> set (items m')"
      using map_of_eq_Some_iff [OF d(1)] map_of_eq_Some_iff [OF d(2)] assms(3)
      by (cases e) (simp only: find_items)
  qed
  have "inj_on fst (set (items m) \<union> set (items m'))"
    using d(1) same by (simp add: distinct_map)
  then show ?thesis
    using s d same by (intro map_sorted_distinct_set_unique) (auto intro: strict_sorted_imp_sorted)
qed

end

lemma om_emplace_find:
  "om_find (om_emplace k v m) = (om_find m)(k \<mapsto> (case om_find m k of None \<Rightarrow> v | Some w \<Rightarrow> w))"
  by (auto simp: om_emplace_def om_find_assign split: option.splits)

interpretation om: string_map "[]" om_find om_insert_or_assign om_emplace om_erase "\<lambda>m. m" om_ok
proof unfold_locales
  show "om_ok (om_emplace k v m)" if "om_ok m" for k m and v :: 'a
    using that by (auto simp: om_emplace_def intro: om_ok_assign)
qed (auto simp: om_find_assign om_emplace_find om_find_erase om_find_def om_ok_def
      intro: om_ok_assign [unfolded om_ok_def] om_ok_erase [unfolded om_ok_def])

end
