(* ===== verification/File_Entry.thy ===== *)
theory File_Entry
  imports Checksums Ordered_Map
begin

text \<open>
  One file of a torrent: \<^verbatim>\<open>file_entry.cpp\<close> and \<^verbatim>\<open>file_entry.hpp\<close>. The record has the members of
  the class; the mutex is left out. A \<^verbatim>\<open>std::filesystem::path\<close> is the list of its elements, with
  the root directory ''/'' as first element of an absolute path, and compares element by
  element. The file system that \<^verbatim>\<open>make_file_entry\<close> looks at is a value of its own.
\<close>

unbundle bit_operations_syntax

section \<open>Paths\<close>

type_synonym path = "string list"

fun join_path :: "string list \<Rightarrow> string" where
  "join_path [] = ''''"
| "join_path [c] = c"
| "join_path (c # cs) = c @ ''/'' @ join_path cs"

definition is_absolute :: "path \<Rightarrow> bool" where
  "is_absolute p \<longleftrightarrow> p \<noteq> [] \<and> hd p = ''/''"

definition path_string :: "path \<Rightarrow> string" where
  "path_string p = (if is_absolute p then ''/'' @ join_path (tl p) else join_path p)"

definition path_append :: "path \<Rightarrow> path \<Rightarrow> path" where
  "path_append p q = (if is_absolute q then q else p @ q)"

definition starts_with :: "string \<Rightarrow> string \<Rightarrow> bool" where
  "starts_with s prefix \<longleftrightarrow> take (length prefix) s = prefix"

text \<open>\<^verbatim>\<open>path::lexically_relative\<close> as the standard describes it.\<close>

fun path_mismatch :: "path \<Rightarrow> path \<Rightarrow> path \<times> path" where
  "path_mismatch (a # as) (b # bs) = (if a = b then path_mismatch as bs else (a # as, b # bs))"
| "path_mismatch as bs = (as, bs)"

definition lexically_relative :: "path \<Rightarrow> path \<Rightarrow> path" where
  "lexically_relative p base =
     (if is_absolute p \<noteq> is_absolute base then []
      else
        let (as, bs) = path_mismatch p base;
            up = length (filter (\<lambda>c. c \<noteq> '''' \<and> c \<noteq> ''.'' \<and> c \<noteq> ''..'') bs);
            down = length (filter (\<lambda>c. c = ''..'') bs)
        in if as = [] \<and> bs = [] then [''.'']
           else if up < down then []
           else if up = down \<and> (as = [] \<or> hd as = '''') then [''.'']
           else replicate (up - down) ''..'' @ as)"

section \<open>The entry\<close>

record file_entry =
  fe_path :: path
  fe_file_size :: nat
  fe_checksums :: "checksum omap"
  fe_has_v2_data :: bool
  fe_pieces_root :: hash
  fe_piece_layer :: "hash list"
  fe_attributes :: "file_attributes option"
  fe_symlink_path :: "path option"
  fe_last_modified_time :: "int option"

definition fe_has_attribute :: "file_attributes \<Rightarrow> file_entry \<Rightarrow> bool" where
  "fe_has_attribute flag e = (case fe_attributes e of Some a \<Rightarrow> has_flag a flag | None \<Rightarrow> False)"

definition fe_is_symlink :: "file_entry \<Rightarrow> bool" where
  "fe_is_symlink e = fe_has_attribute attribute_symlink e"

definition fe_is_executable :: "file_entry \<Rightarrow> bool" where
  "fe_is_executable e = fe_has_attribute attribute_executable e"

definition fe_is_hidden :: "file_entry \<Rightarrow> bool" where
  "fe_is_hidden e = fe_has_attribute attribute_hidden e"

definition fe_is_padding_file :: "file_entry \<Rightarrow> bool" where
  "fe_is_padding_file e = fe_has_attribute attribute_padding_file e"

text \<open>The checks at the end of the constructors.\<close>

definition fe_check_invariants :: "file_entry \<Rightarrow> unit result" where
  "fe_check_invariants e =
     (if fe_is_symlink e
      then rbind (expects (fe_symlink_path e \<noteq> None)) (\<lambda>_. expects (fe_file_size e = 0))
      else Inr ())"

definition fe_make ::
    "path \<Rightarrow> nat \<Rightarrow> file_attributes option \<Rightarrow> path option \<Rightarrow> file_entry result" where
  "fe_make p sz attributes symlink =
     (let e = \<lparr>fe_path = p, fe_file_size = sz, fe_checksums = [], fe_has_v2_data = False,
               fe_pieces_root = hash_zero 32, fe_piece_layer = [], fe_attributes = attributes,
               fe_symlink_path = symlink, fe_last_modified_time = None\<rparr>
      in rbind (fe_check_invariants e) (\<lambda>_. Inr e))"

definition copy_checksums :: "checksum omap \<Rightarrow> checksum omap result" where
  "copy_checksums cs =
     rfold (\<lambda>(k, v) m. rbind (make_checksum (checksum_name v) (checksum_value v)) (\<lambda>c.
              Inr (om_emplace k c m))) cs []"

definition fe_copy :: "file_entry \<Rightarrow> file_entry result" where
  "fe_copy e =
     rbind (fe_check_invariants e) (\<lambda>_.
     rbind (copy_checksums (fe_checksums e)) (\<lambda>cs. Inr (e\<lparr>fe_checksums := cs\<rparr>)))"

definition fe_copy_assign :: "file_entry \<Rightarrow> file_entry \<Rightarrow> file_entry result" where
  "fe_copy_assign self e =
     rbind (copy_checksums (fe_checksums e)) (\<lambda>cs. Inr (e\<lparr>fe_checksums := cs\<rparr>))"

definition fe_move :: "file_entry \<Rightarrow> file_entry result" where
  "fe_move e = rbind (fe_check_invariants e) (\<lambda>_. Inr e)"

text \<open>
  Move assignment moves the target's own checksum map onto itself. The library leaves a map
  that is moved onto itself in a valid but unspecified state, so its content is the
  parameter \<open>self_move\<close>.
\<close>

definition fe_move_assign ::
    "(checksum omap \<Rightarrow> checksum omap) \<Rightarrow> file_entry \<Rightarrow> file_entry \<Rightarrow> file_entry" where
  "fe_move_assign self_move self e = e\<lparr>fe_checksums := self_move (fe_checksums self)\<rparr>"

definition fe_get_pieces_root :: "file_entry \<Rightarrow> hash result" where
  "fe_get_pieces_root e =
     rbind (throw_if (\<not> fe_has_v2_data e) Invalid_Argument) (\<lambda>_. Inr (fe_pieces_root e))"

definition fe_set_pieces_root :: "hash \<Rightarrow> file_entry \<Rightarrow> file_entry" where
  "fe_set_pieces_root h e = e\<lparr>fe_pieces_root := h, fe_has_v2_data := True\<rparr>"

definition fe_get_piece_layer :: "file_entry \<Rightarrow> hash list result" where
  "fe_get_piece_layer e =
     rbind (throw_if (\<not> fe_has_v2_data e) Invalid_Argument) (\<lambda>_. Inr (fe_piece_layer e))"

definition fe_set_piece_layer :: "hash list \<Rightarrow> file_entry \<Rightarrow> file_entry" where
  "fe_set_piece_layer layer e = e\<lparr>fe_piece_layer := layer, fe_has_v2_data := True\<rparr>"

definition fe_get_checksum :: "string \<Rightarrow> file_entry \<Rightarrow> checksum option" where
  "fe_get_checksum algorithm e = om_find (fe_checksums e) algorithm"

definition fe_get_checksum_fn :: "hash_function \<Rightarrow> file_entry \<Rightarrow> checksum option result" where
  "fe_get_checksum_fn f e =
     rbind (hash_function_name f) (\<lambda>key. Inr (om_find (fe_checksums e) key))"

definition fe_add_checksum :: "checksum \<Rightarrow> file_entry \<Rightarrow> file_entry" where
  "fe_add_checksum c e = e\<lparr>fe_checksums := om_emplace (checksum_name c) c (fe_checksums e)\<rparr>"

definition fe_remove_checksum :: "string \<Rightarrow> file_entry \<Rightarrow> file_entry" where
  "fe_remove_checksum key e = e\<lparr>fe_checksums := om_erase key (fe_checksums e)\<rparr>"

definition fe_set_last_modified_time :: "int \<Rightarrow> file_entry \<Rightarrow> file_entry" where
  "fe_set_last_modified_time t e = e\<lparr>fe_last_modified_time := Some t\<rparr>"

definition fe_eq :: "file_entry \<Rightarrow> file_entry \<Rightarrow> bool" where
  "fe_eq a b \<longleftrightarrow> fe_path a = fe_path b"

definition fe_less :: "file_entry \<Rightarrow> file_entry \<Rightarrow> bool" where
  "fe_less a b \<longleftrightarrow> fe_path a < fe_path b"

section \<open>Entries for files on disk\<close>

datatype fs_node =
    Fs_Regular nat bool
  | Fs_Symlink path
  | Fs_Directory
  | Fs_Other

record file_system =
  fs_node_at :: "path \<Rightarrow> fs_node option"
  fs_current_path :: path

text \<open>
  Following links, at most 40 deep as Linux does; a relative target is taken from the
  directory of the link.
\<close>

fun fs_follow :: "nat \<Rightarrow> file_system \<Rightarrow> path \<Rightarrow> fs_node option" where
  "fs_follow 0 fs p = None"
| "fs_follow (Suc n) fs p =
     (case fs_node_at fs p of
        Some (Fs_Symlink target) \<Rightarrow> fs_follow n fs (path_append (butlast p) target)
      | node \<Rightarrow> node)"

definition fs_status :: "file_system \<Rightarrow> path \<Rightarrow> fs_node option" where
  "fs_status fs p = fs_follow 41 fs p"

definition fs_is_symlink :: "file_system \<Rightarrow> path \<Rightarrow> bool" where
  "fs_is_symlink fs p = (case fs_node_at fs p of Some (Fs_Symlink _) \<Rightarrow> True | _ \<Rightarrow> False)"

definition fs_is_regular_file :: "file_system \<Rightarrow> path \<Rightarrow> bool" where
  "fs_is_regular_file fs p = (case fs_status fs p of Some (Fs_Regular _ _) \<Rightarrow> True | _ \<Rightarrow> False)"

definition fs_file_size :: "file_system \<Rightarrow> path \<Rightarrow> nat result" where
  "fs_file_size fs p = (case fs_status fs p of Some (Fs_Regular n _) \<Rightarrow> Inr n | _ \<Rightarrow> Inl System_Error)"

definition fs_any_exec :: "file_system \<Rightarrow> path \<Rightarrow> bool" where
  "fs_any_exec fs p = (case fs_status fs p of Some (Fs_Regular _ x) \<Rightarrow> x | _ \<Rightarrow> False)"

definition fs_absolute :: "file_system \<Rightarrow> path \<Rightarrow> path" where
  "fs_absolute fs p = (if is_absolute p then p else path_append (fs_current_path fs) p)"

definition make_file_entry :: "file_system \<Rightarrow> path \<Rightarrow> path \<Rightarrow> file_options \<Rightarrow> file_entry result" where
  "make_file_entry fs file0 root_directory options =
     (let file = fs_absolute fs file0 in
      rbind (throw_if (fs_status fs file = None) Invalid_Argument) (\<lambda>_.
      rbind (throw_if (\<not> (fs_is_regular_file fs file \<or> fs_is_symlink fs file)) Invalid_Argument) (\<lambda>_.
      let relative_file = lexically_relative file root_directory in
      rbind (throw_if (starts_with (path_string relative_file) ''..'') Invalid_Argument) (\<lambda>_.
      rbind (fs_file_size fs file) (\<lambda>sz.
      let attributes =
            (if enum_and options options_add_attributes \<noteq> options_none
             then Some (if fs_is_regular_file fs file \<and> fs_any_exec fs file
                        then enum_or attribute_none attribute_executable else attribute_none)
             else None) in
      if enum_and options options_copy_symlinks \<noteq> options_none \<and> fs_is_symlink fs file
      then (case attributes of
              None \<Rightarrow> Inl Undefined
            | Some a \<Rightarrow>
                fe_make relative_file 0 (Some (enum_or a attribute_symlink))
                  (case fs_node_at fs file of Some (Fs_Symlink t) \<Rightarrow> Some t | _ \<Rightarrow> None))
      else fe_make relative_file sz attributes None)))))"

text \<open>\<open>decimal\<close> stands for the formatting library's conversion of a number.\<close>

definition make_padding_file_entry :: "(nat \<Rightarrow> string) \<Rightarrow> nat \<Rightarrow> file_entry result" where
  "make_padding_file_entry decimal padding_size =
     fe_make [''.pad'', decimal padding_size] padding_size (Some attribute_padding_file) None"

section \<open>Well-formed entries\<close>

definition checksums_ok :: "checksum omap \<Rightarrow> bool" where
  "checksums_ok m \<longleftrightarrow> om_ok m \<and> (\<forall>(k, c) \<in> set m. checksum_name c = k \<and> checksum_ok c)"

definition fe_ok :: "file_entry \<Rightarrow> bool" where
  "fe_ok e \<longleftrightarrow> (fe_is_symlink e \<longrightarrow> fe_symlink_path e \<noteq> None \<and> fe_file_size e = 0) \<and>
     checksums_ok (fe_checksums e)"

lemma fe_check_invariants_iff:
  "fe_check_invariants e = Inr () \<longleftrightarrow> (fe_is_symlink e \<longrightarrow> fe_symlink_path e \<noteq> None \<and> fe_file_size e = 0)"
  by (auto simp: fe_check_invariants_def expects_def)

lemma om_insert_last:
  "\<forall>(k', v') \<in> set m. k' < k \<Longrightarrow> om_insert_or_assign k v m = m @ [(k, v)]"
  by (induction k v m rule: om_insert_or_assign.induct) auto

lemma copy_checksums_id:
  assumes "checksums_ok m"
  shows "copy_checksums m = Inr m"
proof -
  have "rfold (\<lambda>(k, v) m. rbind (make_checksum (checksum_name v) (checksum_value v)) (\<lambda>c.
          Inr (om_emplace k c m))) b a = Inr (a @ b)"
    if "checksums_ok (a @ b)" for a b
    using that
  proof (induction b arbitrary: a)
    case (Cons x b)
    obtain k v where x: "x = (k, v)" by (cases x)
    have "\<forall>(k', v') \<in> set a. k' < k" and v: "checksum_ok v"
      using Cons.prems by (auto simp: checksums_ok_def om_ok_def sorted_wrt_append x)
    moreover from this have "om_find a k = None"
      by (auto simp: om_find_def map_of_eq_None_iff)
    ultimately have "om_emplace k v a = a @ [(k, v)]"
      by (simp add: om_emplace_def om_insert_last)
    with Cons.IH [of "a @ [x]"] Cons.prems v show ?case
      by (simp add: x make_checksum_of_ok)
  qed simp
  from this [of "[]" m] assms show ?thesis
    by (simp add: copy_checksums_def)
qed

lemma fe_make_Inr:
  "fe_make p n a l = Inr e \<Longrightarrow>
     fe_ok e \<and> fe_path e = p \<and> fe_file_size e = n \<and> fe_attributes e = a \<and> fe_symlink_path e = l \<and>
     \<not> fe_has_v2_data e"
  by (auto simp: fe_make_def Let_def result_simps fe_ok_def fe_check_invariants_iff checksums_ok_def
      om_ok_def)

lemma checksums_ok_emplace:
  assumes "checksums_ok m" "checksum_ok c"
  shows "checksums_ok (om_emplace (checksum_name c) c m)"
proof -
  have "(k', c') \<in> set (om_insert_or_assign k v n) \<Longrightarrow> (k', c') = (k, v) \<or> (k', c') \<in> set n"
    for k k' and v c' :: checksum and n
    by (induction k v n rule: om_insert_or_assign.induct) (auto split: if_splits)
  then show ?thesis
    using assms by (fastforce simp: checksums_ok_def om_emplace_def om_ok_assign)
qed

section \<open>Properties\<close>

text \<open>
  Copying a well-formed entry, by construction or by assignment, returns an equal entry,
  every checksum remade from its name and value; adding a checksum keeps the entry well-formed.
\<close>

theorem fe_copy_faithful:
  assumes "fe_ok e"
  shows "fe_copy e = Inr e \<and> fe_copy_assign self e = Inr e \<and>
    (checksum_ok c \<longrightarrow> fe_ok (fe_add_checksum c e))"
  using assms checksums_ok_emplace [of "fe_checksums e" c]
  by (simp add: fe_copy_def fe_copy_assign_def copy_checksums_id fe_ok_def
      fe_check_invariants_iff [THEN iffD2] fe_add_checksum_def fe_is_symlink_def fe_has_attribute_def)

theorem fe_copy_faithful_witness:
  "\<exists>e. fe_make [''a''] 5 None None = Inr e \<and> fe_copy e = Inr e"
proof -
  have "fe_make [''a''] 5 None None \<noteq> Inl x" for x
    by (simp add: fe_make_def Let_def fe_check_invariants_def fe_is_symlink_def fe_has_attribute_def)
  then obtain e where "fe_make [''a''] 5 None None = Inr e"
    by (cases "fe_make [''a''] 5 None None") auto
  with fe_copy_faithful [of e] show ?thesis
    by (auto dest: fe_make_Inr)
qed

text \<open>
  An entry made for a file is well-formed and inside the root directory: a link is stored
  with its target and size zero, anything else with the size the file system reports.
\<close>

theorem make_file_entry_sound:
  assumes "make_file_entry fs file root options = Inr e"
  shows "fe_ok e \<and>
    fe_path e = lexically_relative (fs_absolute fs file) root \<and>
    \<not> starts_with (path_string (fe_path e)) ''..'' \<and>
    (if fe_is_symlink e
     then fs_is_symlink fs (fs_absolute fs file) \<and> fe_file_size e = 0
     else Inr (fe_file_size e) = fs_file_size fs (fs_absolute fs file))"
proof -
  let ?file = "fs_absolute fs file"
  have rel: "\<not> starts_with (path_string (lexically_relative ?file root)) ''..''"
    using assms by (auto simp: make_file_entry_def Let_def result_simps throw_if_def split: if_splits)
  have "(\<exists>a. fs_is_symlink fs ?file \<and>
          fe_make (lexically_relative ?file root) 0 (Some (enum_or a attribute_symlink))
            (case fs_node_at fs ?file of Some (Fs_Symlink t) \<Rightarrow> Some t | _ \<Rightarrow> None) = Inr e) \<or>
      (\<exists>n a. fs_file_size fs ?file = Inr n \<and> (a = None \<or> a = Some attribute_none
            \<or> a = Some (enum_or attribute_none attribute_executable)) \<and>
          fe_make (lexically_relative ?file root) n a None = Inr e)"
    using assms
    by (auto simp: make_file_entry_def Let_def result_simps split: if_splits)
  moreover have "\<not> has_flag attribute_none attribute_symlink"
    "\<not> has_flag (enum_or attribute_none attribute_executable) attribute_symlink"
    by (simp_all add: has_flag_def enum_and_def enum_or_def attribute_defs)
  moreover have "has_flag (enum_or a attribute_symlink) attribute_symlink" for a
    unfolding has_flag_bits enum_or_def by (simp add: bit_or_iff attribute_symlink_def bit_flags)
  ultimately show ?thesis
    using rel by (auto dest!: fe_make_Inr simp: fe_is_symlink_def fe_has_attribute_def)
qed

definition sample_fs :: file_system where
  "sample_fs = \<lparr>fs_node_at = (\<lambda>p. if p = [''/'', ''r'', ''f''] then Some (Fs_Regular 7 True)
                  else if p = [''/'', ''r'', ''l''] then Some (Fs_Symlink [''f'']) else None),
               fs_current_path = [''/'', ''r'']\<rparr>"

lemma sample_entry:
  "\<exists>e. make_file_entry sample_fs [''l''] [''/'', ''r''] options_add_attributes = Inr e \<and>
     fe_is_symlink e \<and> fe_symlink_path e = Some [''f'']"
  by (simp add: make_file_entry_def sample_fs_def fs_absolute_def is_absolute_def path_append_def
      fs_status_def fs_follow.simps numeral_eq_Suc throw_if_def fs_is_regular_file_def fs_is_symlink_def
      lexically_relative_def Let_def path_string_def starts_with_def fs_file_size_def fs_any_exec_def
      options_add_attributes_def options_copy_symlinks_def options_none_def enum_and_def
      enum_or_def attribute_defs fe_make_def fe_check_invariants_def fe_is_symlink_def
      fe_has_attribute_def has_flag_def expects_def)

theorem make_file_entry_sound_witness:
  "\<exists>e. make_file_entry sample_fs [''l''] [''/'', ''r''] options_add_attributes = Inr e \<and>
     fe_ok e \<and> fe_file_size e = 0"
  using sample_entry make_file_entry_sound by fastforce

text \<open>
  The default options, which only ask for attributes, already store links as links: the test
  for \<^verbatim>\<open>copy_symlinks\<close> is true when any bit is shared with it.
\<close>

theorem add_attributes_copies_symlinks:
  "make_file_entry fs file root options_add_attributes = make_file_entry fs file root options_copy_symlinks"
  by (simp add: make_file_entry_def enum_and_def options_none_def options_add_attributes_def
      options_copy_symlinks_def)

text \<open>
  Without a root directory the path of every file that can be added becomes the empty path,
  because an absolute path has no relative form against an empty one.
\<close>

theorem no_root_directory_empty_path:
  assumes "is_absolute (fs_current_path fs)" "make_file_entry fs file [] options = Inr e"
  shows "fe_path e = []"
proof -
  have abs: "is_absolute (fs_absolute fs file)"
    using assms(1) by (auto simp: fs_absolute_def path_append_def is_absolute_def)
  have "\<exists>sz a l. fe_make (lexically_relative (fs_absolute fs file) []) sz a l = Inr e"
    using assms(2) by (auto simp: make_file_entry_def Let_def result_simps split: if_splits option.splits)
  moreover have "lexically_relative (fs_absolute fs file) [] = []"
    using abs by (simp add: lexically_relative_def is_absolute_def)
  ultimately show ?thesis
    using fe_make_Inr by fastforce
qed

lemma sample_entry_no_root:
  "\<exists>e. make_file_entry sample_fs [''f''] [] options_none = Inr e"
  by (simp add: make_file_entry_def sample_fs_def fs_absolute_def is_absolute_def path_append_def
      fs_status_def fs_follow.simps numeral_eq_Suc throw_if_def fs_is_regular_file_def fs_is_symlink_def
      lexically_relative_def Let_def path_string_def starts_with_def fs_file_size_def fs_any_exec_def
      options_add_attributes_def options_copy_symlinks_def options_none_def enum_and_def
      enum_or_def attribute_defs fe_make_def fe_check_invariants_def fe_is_symlink_def
      fe_has_attribute_def has_flag_def expects_def)

theorem no_root_directory_empty_path_witness:
  "\<exists>e. make_file_entry sample_fs [''f''] [] options_none = Inr e \<and> fe_path e = []"
proof -
  have "is_absolute (fs_current_path sample_fs)"
    by (simp add: sample_fs_def is_absolute_def)
  from sample_entry_no_root no_root_directory_empty_path [OF this] show ?thesis
    by blast
qed

end
