(* ===== verification/File_Storage.thy ===== *)
theory File_Storage
  imports File_Entry
begin

text \<open>
  The files of a torrent and their v1 pieces: \<^verbatim>\<open>file_storage.cpp\<close> and \<^verbatim>\<open>file_storage.hpp\<close>. The
  record has the members of the class without the mutex; the index over the files, which the
  class mutates behind const, is a part of the state that the operations return.
\<close>

unbundle bit_operations_syntax

section \<open>State and operations\<close>

record file_storage =
  st_total_file_size :: nat
  st_total_regular_file_size :: nat
  st_piece_size :: nat
  st_root_directory :: path
  st_file_mode :: file_mode
  st_files :: "file_entry list"
  st_pieces :: "hash list"
  st_index_valid :: bool
  st_files_index :: "nat list"

text \<open>\<^verbatim>\<open>index_valid_\<close> has no initialiser, so a new object holds any value there.\<close>

definition st_new :: "bool \<Rightarrow> file_storage" where
  "st_new indet =
     \<lparr>st_total_file_size = 0, st_total_regular_file_size = 0, st_piece_size = 0,
      st_root_directory = [], st_file_mode = mode_empty, st_files = [], st_pieces = [],
      st_index_valid = indet, st_files_index = []\<rparr>"

definition copy_files :: "file_entry list \<Rightarrow> file_entry list result" where
  "copy_files es = rfold (\<lambda>e out. rbind (fe_copy e) (\<lambda>e'. Inr (out @ [e']))) es []"

definition st_copy :: "bool \<Rightarrow> file_storage \<Rightarrow> file_storage result" where
  "st_copy indet other =
     rbind (copy_files (st_files other)) (\<lambda>files.
       Inr ((st_new indet)\<lparr>st_total_file_size := st_total_file_size other,
              st_piece_size := st_piece_size other, st_root_directory := st_root_directory other,
              st_files := files, st_pieces := st_pieces other\<rparr>))"

definition st_copy_assign :: "file_storage \<Rightarrow> file_storage \<Rightarrow> file_storage result" where
  "st_copy_assign self other =
     rbind (copy_files (st_files other)) (\<lambda>files.
       Inr (self\<lparr>st_total_file_size := st_total_file_size other,
              st_piece_size := st_piece_size other, st_root_directory := st_root_directory other,
              st_files := files, st_pieces := st_pieces other\<rparr>))"

definition st_has_root_directory :: "file_storage \<Rightarrow> bool" where
  "st_has_root_directory st \<longleftrightarrow> st_root_directory st \<noteq> []"

definition lexically_normal :: "path \<Rightarrow> path" where
  "lexically_normal p =
     rev (fold (\<lambda>c acc. if c = ''.'' \<or> c = '''' then acc
                       else if c = ''..'' then
                         (case acc of [] \<Rightarrow> [c]
                          | d # ds \<Rightarrow> if d = ''..'' then c # acc else if d = ''/'' then acc else ds)
                       else c # acc) p [])"

definition st_set_root_directory :: "file_system \<Rightarrow> path \<Rightarrow> file_storage \<Rightarrow> file_storage result" where
  "st_set_root_directory fs root st =
     rbind (expects (fs_status fs root \<noteq> None)) (\<lambda>_.
       Inr (st\<lparr>st_root_directory := lexically_normal (fs_absolute fs root)\<rparr>))"

definition st_push :: "file_entry \<Rightarrow> file_storage \<Rightarrow> file_storage" where
  "st_push e st =
     st\<lparr>st_index_valid := False,
        st_total_file_size := size_add (st_total_file_size st) (fe_file_size e),
        st_total_regular_file_size :=
          (if fe_is_padding_file e then st_total_regular_file_size st
           else size_add (st_total_regular_file_size st) (fe_file_size e)),
        st_files := st_files st @ [e]\<rparr>"

definition st_add_file :: "file_entry \<Rightarrow> file_storage \<Rightarrow> file_storage result" where
  "st_add_file file st = rbind (fe_copy file) (\<lambda>e. Inr (st_push e st))"

definition st_add_file_move :: "file_entry \<Rightarrow> file_storage \<Rightarrow> file_storage result" where
  "st_add_file_move file st = rbind (fe_move file) (\<lambda>e. Inr (st_push e st))"

definition st_add_path :: "file_system \<Rightarrow> path \<Rightarrow> file_options \<Rightarrow> file_storage \<Rightarrow> file_storage result" where
  "st_add_path fs p options st =
     rbind (make_file_entry fs p (st_root_directory st) options) (\<lambda>f. st_add_file_move f st)"

definition st_add_files :: "file_entry list \<Rightarrow> file_storage \<Rightarrow> file_storage result" where
  "st_add_files files st = rfold st_add_file files st"

text \<open>Erasing from a vector move-assigns every later element to the place before it.\<close>

definition erase_entry ::
    "(checksum omap \<Rightarrow> checksum omap) \<Rightarrow> nat \<Rightarrow> file_entry list \<Rightarrow> file_entry list" where
  "erase_entry self_move i es =
     take i es @ map (\<lambda>j. fe_move_assign self_move (es ! j) (es ! Suc j)) [i..<length es - 1]"

definition st_remove_file ::
    "(checksum omap \<Rightarrow> checksum omap) \<Rightarrow> file_entry \<Rightarrow> file_storage \<Rightarrow> file_storage" where
  "st_remove_file self_move e st =
     (let st = st\<lparr>st_index_valid := False\<rparr>;
          i = length (takeWhile (\<lambda>x. \<not> fe_eq x e) (st_files st))
      in if i = length (st_files st) then st
         else let it = st_files st ! i in
           st\<lparr>st_total_file_size := size_sub (st_total_file_size st) (fe_file_size it),
              st_total_regular_file_size :=
                (if fe_is_padding_file it then st_total_regular_file_size st
                 else size_sub (st_total_regular_file_size st) (fe_file_size it)),
              st_files := erase_entry self_move i (st_files st)\<rparr>)"

definition st_clear :: "file_storage \<Rightarrow> file_storage" where
  "st_clear st = st\<lparr>st_index_valid := False, st_files := [], st_total_file_size := 0\<rparr>"

definition st_get :: "file_storage \<Rightarrow> nat \<Rightarrow> file_entry result" where
  "st_get st i = rbind (expects (i < length (st_files st))) (\<lambda>_. Inr (st_files st ! i))"

definition st_front :: "file_storage \<Rightarrow> file_entry result" where
  "st_front st = rbind (expects (1 \<le> length (st_files st))) (\<lambda>_. Inr (st_files st ! 0))"

definition st_back :: "file_storage \<Rightarrow> file_entry result" where
  "st_back st = rbind (expects (1 \<le> length (st_files st))) (\<lambda>_.
     Inr (st_files st ! (length (st_files st) - 1)))"

definition st_at :: "file_storage \<Rightarrow> nat \<Rightarrow> file_entry result" where
  "st_at st i = vec_at (st_files st) i"

definition st_file_count :: "file_storage \<Rightarrow> nat" where
  "st_file_count st = length (st_files st)"

definition st_regular_file_count :: "file_storage \<Rightarrow> nat" where
  "st_regular_file_count st = count_if (\<lambda>e. \<not> fe_is_padding_file e) (st_files st)"

definition sum_sizes :: "(file_entry \<Rightarrow> nat) \<Rightarrow> file_entry list \<Rightarrow> nat" where
  "sum_sizes f es = fold (\<lambda>e s. size_add s (f e)) es 0"

definition st_regular_size :: "file_storage \<Rightarrow> nat" where
  "st_regular_size st = sum_sizes (\<lambda>e. if fe_is_padding_file e then 0 else fe_file_size e) (st_files st)"

definition st_set_file_mode :: "file_mode \<Rightarrow> file_storage \<Rightarrow> file_storage" where
  "st_set_file_mode mode st = st\<lparr>st_file_mode := mode\<rparr>"

definition st_get_file_mode :: "file_storage \<Rightarrow> file_mode" where
  "st_get_file_mode st =
     (if st_file_count st = 0 then mode_empty
      else if st_file_count st = 1 then st_file_mode st
      else mode_multi)"

definition has_v2_or_needs_none :: "file_entry \<Rightarrow> bool" where
  "has_v2_or_needs_none e \<longleftrightarrow>
     (if fe_is_padding_file e \<or> fe_is_symlink e \<or> fe_file_size e = 0 then True else fe_has_v2_data e)"

definition st_protocol :: "file_storage \<Rightarrow> protocol" where
  "st_protocol st =
     (let v1 = (st_pieces st \<noteq> []);
          v2 = list_all has_v2_or_needs_none (st_files st)
      in if v1 \<and> v2 then enum_or protocol_v1 protocol_v2
         else if v1 then protocol_v1
         else if v2 then protocol_v2
         else if st_total_file_size st = 0 then protocol_v1
         else protocol_none)"

definition st_piece_count :: "file_storage \<Rightarrow> nat" where
  "st_piece_count st =
     (if st_piece_size st = 0 then 0
      else size_sub (size_add (st_total_file_size st) (st_piece_size st)) 1 div st_piece_size st)"

definition st_set_piece_size :: "nat \<Rightarrow> file_storage \<Rightarrow> file_storage result" where
  "st_set_piece_size sz st =
     rbind (expects (KiB 16 \<le> sz)) (\<lambda>_.
     rbind (expects (has_single_bit sz)) (\<lambda>_. Inr (st\<lparr>st_piece_size := sz\<rparr>)))"

definition st_allocate_pieces :: "file_storage \<Rightarrow> file_storage" where
  "st_allocate_pieces st = st\<lparr>st_pieces := replicate (st_piece_count st) (hash_zero 20)\<rparr>"

definition st_get_piece_hash :: "file_storage \<Rightarrow> nat \<Rightarrow> hash result" where
  "st_get_piece_hash st i =
     rbind (expects (i < st_piece_count st)) (\<lambda>_.
       if i < length (st_pieces st) then Inr (st_pieces st ! i) else Inl Undefined)"

definition st_set_last_modified_time :: "nat \<Rightarrow> int \<Rightarrow> file_storage \<Rightarrow> file_storage result" where
  "st_set_last_modified_time i t st =
     rbind (expects (i < st_file_count st)) (\<lambda>_.
       Inr (st\<lparr>st_files := (st_files st)[i := fe_set_last_modified_time t (st_files st ! i)]\<rparr>))"

definition st_eq :: "file_storage \<Rightarrow> file_storage \<Rightarrow> bool" where
  "st_eq a b \<longleftrightarrow> st_root_directory a = st_root_directory b \<and>
     list_all2 fe_eq (st_files a) (st_files b) \<and> st_piece_size a = st_piece_size b"

definition st_get_pieces_offsets :: "file_storage \<Rightarrow> nat \<Rightarrow> (nat \<times> nat) result" where
  "st_get_pieces_offsets st i =
     rbind (expects (i < st_file_count st)) (\<lambda>_.
     rbind (st_at st i) (\<lambda>entry.
       let cumulative_size = sum_sizes fe_file_size (take i (st_files st));
           offset = cumulative_size div st_piece_size st;
           count = size_sub (size_add (fe_file_size entry) (st_piece_size st)) 1 div st_piece_size st
       in if st_piece_size st = 0 then Inl Undefined else Inr (offset, size_add offset count)))"

definition st_get_pieces_span :: "file_storage \<Rightarrow> nat \<Rightarrow> hash list result" where
  "st_get_pieces_span st i =
     rbind (expects (i < st_file_count st)) (\<lambda>_.
     rbind (st_get_pieces_offsets st i) (\<lambda>(first, last).
       if first \<le> length (st_pieces st) \<and> last \<le> length (st_pieces st)
       then Inr (subrange (st_pieces st) first (last - first)) else Inl Undefined))"

definition st_set_piece_hash :: "nat \<Rightarrow> hash \<Rightarrow> file_storage \<Rightarrow> file_storage result" where
  "st_set_piece_hash i h st =
     rbind (expects (i < length (st_pieces st))) (\<lambda>_.
     rbind (expects (length (st_pieces st) = st_piece_count st)) (\<lambda>_.
       Inr (st\<lparr>st_pieces := (st_pieces st)[i := h]\<rparr>)))"

text \<open>The order of entries with equal paths, which the sort leaves open, is taken as stable.\<close>

definition st_index :: "file_storage \<Rightarrow> file_storage" where
  "st_index st =
     st\<lparr>st_files_index := sort_key (\<lambda>i. fe_path (st_files st ! i)) [0..<length (st_files st)],
        st_index_valid := True\<rparr>"

definition st_directory_contents :: "path \<Rightarrow> file_storage \<Rightarrow> nat list \<times> file_storage" where
  "st_directory_contents directory st0 =
     (let st = (if st_index_valid st0 then st0 else st_index st0);
          from = dropWhile (\<lambda>i. fe_path (st_files st ! i) < directory) (st_files_index st)
      in (takeWhile (\<lambda>i. starts_with (path_string (fe_path (st_files st ! i))) (path_string directory)) from,
          st))"

definition is_padding_directory :: "path \<Rightarrow> file_storage \<Rightarrow> bool \<times> file_storage" where
  "is_padding_directory directory st0 =
     (let (contents, st) = st_directory_contents directory st0
      in (list_all (\<lambda>i. fe_is_padding_file (st_files st ! i)) contents, st))"

text \<open>\<^verbatim>\<open>current_dir\<close> is never updated, so the directories counted are single path elements.\<close>

definition entry_directories :: "file_entry \<Rightarrow> string list" where
  "entry_directories e = map (\<lambda>c. path_string (path_append [] [c])) (butlast (fe_path e))"

definition directory_count :: "path \<Rightarrow> bool \<Rightarrow> file_storage \<Rightarrow> nat" where
  "directory_count root include_padding_directories st =
     (let entries = filter (\<lambda>f. root = [] \<or> starts_with (path_string (fe_path f)) (path_string root)) (st_files st);
          directories = remdups (concat (map entry_directories entries));
          candidates = remdups (concat (map entry_directories (filter fe_is_padding_file entries)))
      in if include_padding_directories then length directories
         else length directories - count_if (\<lambda>dir. fst (is_padding_directory [dir] st)) candidates)"

definition choose_piece_size :: "file_storage \<Rightarrow> (nat \<times> file_storage) result" where
  "choose_piece_size st =
     (if st_total_file_size st = 0 then Inl Undefined
      else let exp = min (max 15 (int (log2_floor (st_total_file_size st)) - 9)) 24;
               piece_size = 2 ^ nat exp
           in rbind (st_set_piece_size piece_size st) (\<lambda>st'. Inr (piece_size, st')))"

fun exclusive_scan :: "(file_entry \<Rightarrow> nat) \<Rightarrow> nat \<Rightarrow> file_entry list \<Rightarrow> nat list" where
  "exclusive_scan f s [] = []"
| "exclusive_scan f s (e # es) = s # exclusive_scan f (size_add s (f e)) es"

fun inclusive_scan :: "(file_entry \<Rightarrow> nat) \<Rightarrow> nat \<Rightarrow> file_entry list \<Rightarrow> nat list" where
  "inclusive_scan f s [] = []"
| "inclusive_scan f s (e # es) = size_add s (f e) # inclusive_scan f (size_add s (f e)) es"

definition exclusive_file_size_scan :: "file_storage \<Rightarrow> nat list" where
  "exclusive_file_size_scan st = exclusive_scan fe_file_size 0 (st_files st)"

definition inclusive_file_size_scan_v1 :: "file_storage \<Rightarrow> nat list" where
  "inclusive_file_size_scan_v1 st = inclusive_scan fe_file_size 0 (st_files st)"

definition inclusive_file_size_scan_v2 :: "file_storage \<Rightarrow> nat list" where
  "inclusive_file_size_scan_v2 st =
     inclusive_scan (\<lambda>e. if fe_is_padding_file e then 0 else fe_file_size e) 0 (st_files st)"

definition make_v1_pieces_string :: "file_storage \<Rightarrow> string" where
  "make_v1_pieces_string st = concat (map hash_view (st_pieces st))"

definition make_v2_piece_layers_string :: "file_entry \<Rightarrow> string result" where
  "make_v2_piece_layers_string e =
     rbind (fe_get_piece_layer e) (\<lambda>layers. Inr (concat (map hash_view layers)))"

definition is_piece_aligned :: "file_storage \<Rightarrow> bool result" where
  "is_piece_aligned st =
     rbind (expects (st_piece_size st \<noteq> 0)) (\<lambda>_.
       Inr (fst (fold (\<lambda>e (is_aligned, bytes_offset).
                   (if fe_is_padding_file e then is_aligned
                    else is_aligned \<and> bytes_offset mod st_piece_size st = 0,
                    size_add bytes_offset (fe_file_size e)))
                 (st_files st) (True, 0))))"

definition align_entry ::
    "(nat \<Rightarrow> string) \<Rightarrow> nat \<Rightarrow> file_entry \<Rightarrow> file_entry list \<times> nat \<Rightarrow> (file_entry list \<times> nat) result" where
  "align_entry decimal piece_size entry s =
     (let (aligned_entries, total_padding_bytes) = s;
          bytes_till_next_piece = size_sub piece_size (fe_file_size entry mod piece_size)
      in rbind (fe_move entry) (\<lambda>moved.
         rbind (expects (bytes_till_next_piece \<noteq> 0)) (\<lambda>_.
           if bytes_till_next_piece \<noteq> piece_size
           then rbind (make_padding_file_entry decimal bytes_till_next_piece) (\<lambda>pad.
                  Inr (aligned_entries @ [moved, pad], size_add total_padding_bytes bytes_till_next_piece))
           else Inr (aligned_entries @ [moved], total_padding_bytes))))"

text \<open>
  With no files the loop bound \<^verbatim>\<open>file_count()-1\<close> wraps around and the first access violates
  its contract.
\<close>

definition optimize_alignment :: "(nat \<Rightarrow> string) \<Rightarrow> file_storage \<Rightarrow> file_storage result" where
  "optimize_alignment decimal st =
     rbind (expects (st_piece_size st \<noteq> 0)) (\<lambda>_.
       if st_files st = [] then Inl Contract
       else
         rbind (rfold (align_entry decimal (st_piece_size st)) (butlast (st_files st)) ([], 0))
           (\<lambda>(aligned_entries, total_padding_bytes).
         rbind (st_back st) (\<lambda>entry.
         rbind (fe_move entry) (\<lambda>moved.
         rbind (st_add_files (aligned_entries @ [moved]) (st_clear st)) (\<lambda>st'.
         rbind (expects (st_total_file_size st' = size_add (st_regular_size st') total_padding_bytes))
           (\<lambda>_. Inr st'))))))"

section \<open>Sizes\<close>

definition st_ok :: "file_storage \<Rightarrow> bool" where
  "st_ok st \<longleftrightarrow>
     st_total_file_size st = sum_list (map fe_file_size (st_files st)) mod size_bound \<and>
     list_all fe_ok (st_files st)"

lemma sum_sizes_exact:
  "sum_list (map f es) < size_bound \<Longrightarrow> sum_sizes f es = sum_list (map f es)"
  using fold_size_add_exact [of 0 f es] by (simp add: sum_sizes_def)

lemma st_ok_push: "st_ok st \<Longrightarrow> fe_ok e \<Longrightarrow> st_ok (st_push e st)"
  by (simp add: st_ok_def st_push_def size_add_def mod_add_left_eq)

lemma fe_copy_id: "fe_ok e \<Longrightarrow> fe_copy e = Inr e"
  by (simp add: fe_copy_def fe_ok_def fe_check_invariants_iff [THEN iffD2] copy_checksums_id)

lemma fe_move_id: "fe_ok e \<Longrightarrow> fe_move e = Inr e"
  by (simp add: fe_move_def fe_ok_def fe_check_invariants_iff [THEN iffD2])

lemma st_add_files_push:
  "list_all fe_ok es \<Longrightarrow> st_add_files es st = Inr (fold st_push es st)"
proof (induction es arbitrary: st)
  case (Cons e es)
  have "st_add_files es (st_push e st) = rfold st_add_file es (st_push e st)"
    by (simp add: st_add_files_def)
  with Cons show ?case
    by (simp add: st_add_files_def st_add_file_def fe_copy_id)
qed (simp add: st_add_files_def)

lemma fold_push:
  "st_files (fold st_push es st) = st_files st @ es"
  "st_piece_size (fold st_push es st) = st_piece_size st"
  "st_total_file_size (fold st_push es st) =
     fold (\<lambda>e s. size_add s (fe_file_size e)) es (st_total_file_size st)"
  by (induction es arbitrary: st) (simp_all add: st_push_def)

text \<open>Removing the first entry with a path.\<close>

definition remove_path :: "path \<Rightarrow> file_entry list \<Rightarrow> file_entry list" where
  "remove_path p es =
     takeWhile (\<lambda>x. fe_path x \<noteq> p) es @ drop 1 (dropWhile (\<lambda>x. fe_path x \<noteq> p) es)"

definition without_checksums :: "file_entry \<Rightarrow> file_entry" where
  "without_checksums e = e\<lparr>fe_checksums := []\<rparr>"

lemma erase_entry_shift:
  assumes "i < length es"
  shows "map without_checksums (erase_entry sm i es) = map without_checksums (take i es @ drop (Suc i) es)"
proof -
  have "drop (Suc i) es = map (\<lambda>j. es ! Suc j) [i..<length es - 1]"
    using assms by (intro nth_equalityI) auto
  then show ?thesis
    by (simp add: erase_entry_def fe_move_assign_def without_checksums_def comp_def)
qed

lemma remove_file_files:
  "map without_checksums (st_files (st_remove_file sm e st))
     = map without_checksums (remove_path (fe_path e) (st_files st))"
proof -
  let ?P = "\<lambda>x. fe_path x \<noteq> fe_path e"
  define i where "i = length (takeWhile ?P (st_files st))"
  have P: "(\<lambda>x. \<not> fe_eq x e) = ?P"
    by (simp add: fe_eq_def)
  have tk: "take i (st_files st) = takeWhile ?P (st_files st)"
    and dr: "drop (Suc i) (st_files st) = drop 1 (dropWhile ?P (st_files st))"
    by (simp_all add: i_def takeWhile_eq_take [symmetric] dropWhile_eq_drop)
  show ?thesis
  proof (cases "i = length (st_files st)")
    case True
    then show ?thesis
      using tk dr by (simp add: st_remove_file_def P i_def [symmetric] Let_def remove_path_def)
  next
    case False
    then have "i < length (st_files st)"
      using length_takeWhile_le [of ?P "st_files st"] by (simp add: i_def)
    from erase_entry_shift [OF this, of sm] False show ?thesis
      by (simp add: st_remove_file_def P i_def [symmetric] Let_def remove_path_def tk dr)
  qed
qed

lemma sum_list_without_checksums:
  "map without_checksums es = map without_checksums es' \<Longrightarrow>
     map fe_file_size es = map fe_file_size es'"
proof -
  assume "map without_checksums es = map without_checksums es'"
  then have "map fe_file_size (map without_checksums es) = map fe_file_size (map without_checksums es')"
    by simp
  then show ?thesis by (simp add: comp_def without_checksums_def)
qed

text \<open>
  C31: The recorded total size stays the sum of the sizes of the files, modulo the width, through
  adding, removing and clearing; removing deletes the first file with the path and keeps the
  others, up to their checksums.
\<close>

theorem storage_total_maintained:
  assumes "st_ok st" "fe_ok e"
  shows "st_add_file e st = Inr (st_push e st) \<and> st_ok (st_push e st) \<and> st_ok (st_clear st) \<and>
    map without_checksums (st_files (st_remove_file sm e st))
      = map without_checksums (remove_path (fe_path e) (st_files st)) \<and>
    st_total_file_size (st_remove_file sm e st)
      = sum_list (map fe_file_size (st_files (st_remove_file sm e st))) mod size_bound"
proof -
  let ?P = "\<lambda>x. fe_path x \<noteq> fe_path e"
  let ?es = "st_files st"
  have sizes: "map fe_file_size (st_files (st_remove_file sm e st)) = map fe_file_size (remove_path (fe_path e) ?es)"
    by (rule sum_list_without_checksums, rule remove_file_files)
  have P: "(\<lambda>x. \<not> fe_eq x e) = ?P"
    by (simp add: fe_eq_def)
  have "st_total_file_size (st_remove_file sm e st)
      = sum_list (map fe_file_size (remove_path (fe_path e) ?es)) mod size_bound"
  proof (cases "dropWhile ?P ?es")
    case Nil
    then have all: "takeWhile ?P ?es = ?es"
      by (metis append_Nil2 takeWhile_dropWhile_id)
    show ?thesis
      using assms(1) by (simp add: st_remove_file_def P Let_def remove_path_def st_ok_def all Nil)
  next
    case (Cons x xs)
    have es: "?es = takeWhile ?P ?es @ x # xs"
      using Cons by (metis takeWhile_dropWhile_id)
    then have at: "?es ! length (takeWhile ?P ?es) = x" "length (takeWhile ?P ?es) \<noteq> length ?es"
      by (metis nth_append_length) (metis es Cons dropWhile_eq_Nil_conv append_self_conv list.discI
          append_eq_conv_conj take_all order_refl)
    have "sum_list (map fe_file_size ?es)
        = sum_list (map fe_file_size (remove_path (fe_path e) ?es)) + fe_file_size x"
      by (subst es) (simp add: remove_path_def Cons)
    then show ?thesis
      using assms(1) at by (simp add: st_remove_file_def P Let_def st_ok_def size_sub_add)
  qed
  then show ?thesis
    using assms remove_file_files [of sm e st] st_ok_push [OF assms]
    by (simp add: sizes st_add_file_def fe_copy_id st_ok_def st_clear_def)
qed

section \<open>Witness storage\<close>

definition sample_entry_of :: "string \<Rightarrow> nat \<Rightarrow> file_entry" where
  "sample_entry_of name n =
     \<lparr>fe_path = [name], fe_file_size = n, fe_checksums = [], fe_has_v2_data = False,
      fe_pieces_root = [], fe_piece_layer = [], fe_attributes = None, fe_symlink_path = None,
      fe_last_modified_time = None\<rparr>"

lemma sample_entry_ok [simp]: "fe_ok (sample_entry_of name n)"
  by (simp add: fe_ok_def sample_entry_of_def fe_is_symlink_def fe_has_attribute_def checksums_ok_def om_ok_def)

lemma sample_entry_simps [simp]:
  "fe_file_size (sample_entry_of name n) = n" "fe_path (sample_entry_of name n) = [name]"
  "\<not> fe_is_padding_file (sample_entry_of name n)" "\<not> fe_is_symlink (sample_entry_of name n)"
  by (simp_all add: sample_entry_of_def fe_is_padding_file_def fe_is_symlink_def fe_has_attribute_def)

definition sample_storage :: "nat \<Rightarrow> nat list \<Rightarrow> file_storage" where
  "sample_storage ps ns =
     fold st_push (map (sample_entry_of ''f'') ns) ((st_new False)\<lparr>st_piece_size := ps\<rparr>)"

lemma sample_storage_simps [simp]:
  "st_files (sample_storage ps ns) = map (sample_entry_of ''f'') ns"
  "st_piece_size (sample_storage ps ns) = ps"
  "sum_list ns < size_bound \<Longrightarrow> st_total_file_size (sample_storage ps ns) = sum_list ns"
proof -
  have "fold (\<lambda>e s. size_add s (fe_file_size e)) (map (sample_entry_of ''f'') ns) 0 = sum_list ns"
    if "sum_list ns < size_bound"
    using that fold_size_add_exact [of 0 fe_file_size "map (sample_entry_of ''f'') ns"]
    by (simp add: comp_def)
  then show "st_files (sample_storage ps ns) = map (sample_entry_of ''f'') ns"
    "st_piece_size (sample_storage ps ns) = ps"
    "sum_list ns < size_bound \<Longrightarrow> st_total_file_size (sample_storage ps ns) = sum_list ns"
    by (simp_all add: sample_storage_def fold_push st_new_def)
qed

theorem storage_total_maintained_witness:
  "st_ok (st_clear (sample_storage 4 [5])) \<and> st_ok (sample_storage 4 [5])"
proof -
  have "st_ok (sample_storage 4 [5])"
    by (simp add: st_ok_def size_bound_def)
  with storage_total_maintained [OF this sample_entry_ok [of "''f''" 5]] show ?thesis by blast
qed

text \<open>
  C32: Removing a file moves every later entry one place down by move assignment, which leaves
  the checksums behind: the checksums of a moved entry do not depend on its own.
\<close>

theorem remove_file_misplaces_checksums:
  assumes "st_files st = before @ x # after" "\<forall>y \<in> set before. fe_path y \<noteq> fe_path x"
    "j < length after"
  shows "fe_checksums (st_files (st_remove_file self_move x st) ! (length before + j))
    = self_move (fe_checksums ((x # after) ! j))"
proof -
  have tk: "takeWhile (\<lambda>y. \<not> fe_eq y x) (before @ x # after) = before"
    using assms(2) by (simp add: fe_eq_def)
  have "erase_entry self_move (length before) (before @ x # after) ! (length before + j)
      = fe_move_assign self_move ((before @ x # after) ! (length before + j))
          ((before @ x # after) ! Suc (length before + j))"
    using assms(3) by (simp add: erase_entry_def nth_append)
  then show ?thesis
    by (simp add: st_remove_file_def assms(1) tk Let_def nth_append fe_move_assign_def)
qed

theorem remove_file_misplaces_checksums_witness:
  "fe_checksums (st_files (st_remove_file id (sample_entry_of ''f'' 1) (sample_storage 4 [1, 2])) ! 0) = []"
  using remove_file_misplaces_checksums
    [of "sample_storage 4 [1, 2]" "[]" "sample_entry_of ''f'' 1" "[sample_entry_of ''f'' 2]" 0 id]
  by (simp add: sample_entry_of_def)

section \<open>Pieces\<close>

text \<open>
  The piece range of a file starts at the piece its first byte lies in, and ends behind the
  piece of its last byte except when the file crosses one more piece boundary than its size
  alone accounts for; then the range is one piece short.
\<close>

theorem pieces_offsets_of_file:
  assumes "i < length (st_files st)" "0 < st_piece_size st"
    and "sum_list (map fe_file_size (st_files st)) + st_piece_size st < size_bound"
    and "0 < fe_file_size (st_files st ! i)"
  shows "let ps = st_piece_size st;
             start = sum_list (map fe_file_size (take i (st_files st)));
             n = fe_file_size (st_files st ! i);
             short = (if start mod ps + (n - 1) mod ps < ps then 0 else 1)
         in \<exists>last. st_get_pieces_offsets st i = Inr (start div ps, last) \<and>
              (start + n - 1) div ps + 1 = last + short"
proof -
  define ps where "ps = st_piece_size st"
  define start where "start = sum_list (map fe_file_size (take i (st_files st)))"
  define n where "n = fe_file_size (st_files st ! i)"
  have split: "st_files st = take i (st_files st) @ st_files st ! i # drop (Suc i) (st_files st)"
    using assms(1) by (simp add: id_take_nth_drop)
  from arg_cong [OF split, of "\<lambda>es. sum_list (map fe_file_size es)"]
  have "sum_list (map fe_file_size (st_files st))
      = start + n + sum_list (map fe_file_size (drop (Suc i) (st_files st)))"
    by (simp add: start_def n_def)
  then have bound: "start + n + ps < size_bound"
    using assms(3) by (simp add: ps_def)
  have ps: "0 < ps" and n: "0 < n"
    using assms by (simp_all add: ps_def n_def)
  have count: "(n + ps - 1) div ps = (n - 1) div ps + 1"
  proof -
    have "n + ps - 1 = (n - 1) + ps" using n by simp
    then show ?thesis using div_add_self2 [of ps "n - 1"] ps by (simp only:)
  qed
  have le: "start div ps + (n + ps - 1) div ps \<le> start + (n + ps - 1)"
    by (intro add_mono div_le_dividend)
  have offs: "st_get_pieces_offsets st i = Inr (start div ps, start div ps + ((n - 1) div ps + 1))"
  proof -
    have "sum_sizes fe_file_size (take i (st_files st)) = start"
      using bound by (simp add: sum_sizes_exact start_def)
    moreover have "size_sub (size_add n ps) 1 = n + ps - 1"
      using bound n by (simp add: size_add_exact size_sub_exact)
    moreover have "size_add (start div ps) ((n - 1) div ps + 1) = start div ps + ((n - 1) div ps + 1)"
      using le bound n count by (intro size_add_exact) linarith
    ultimately show ?thesis
      using assms(1) ps count
      by (simp add: st_get_pieces_offsets_def expects_def st_file_count_def st_at_def vec_at_def Let_def
          flip: ps_def n_def)
  qed
  have "(start + n - 1) div ps = start div ps + (n - 1) div ps + (start mod ps + (n - 1) mod ps) div ps"
    using n div_add1_eq [of start "n - 1" ps] by simp
  moreover have "(start mod ps + (n - 1) mod ps) div ps = (if start mod ps + (n - 1) mod ps < ps then 0 else 1)"
  proof -
    have "start mod ps + (n - 1) mod ps < 2 * ps"
      using ps mod_less_divisor [of ps start] mod_less_divisor [of ps "n - 1"] by linarith
    then show ?thesis
      using ps by (auto simp: div_eq_0_iff not_less intro!: div_nat_eqI)
  qed
  ultimately show ?thesis
    by (simp add: Let_def offs flip: ps_def start_def n_def)
qed

theorem pieces_offsets_of_file_witness:
  "st_get_pieces_offsets (sample_storage 4 [3, 4]) 1 = Inr (0, 1)"
  using pieces_offsets_of_file [of 1 "sample_storage 4 [3, 4]"]
  by (simp add: size_bound_def)

lemma has_single_bit_power [simp]: "has_single_bit (2 ^ k)"
proof -
  have "(2::nat) ^ k AND mask k = take_bit k (2 ^ k)"
    by (simp add: take_bit_eq_mask)
  then show ?thesis
    by (simp add: has_single_bit_def mask_eq_exp_minus_1)
qed

text \<open>
  The chosen piece size is a power of two between 32 KiB and 16 MiB, so it passes the
  contract of \<^verbatim>\<open>set_piece_size\<close>; below 16 GiB there are at most 1024 pieces, and at least 512 unless
  the smallest piece size was chosen.
\<close>

theorem choose_piece_size_bounds:
  assumes "0 < st_total_file_size st" "st_total_file_size st < 2 ^ 34"
  shows "\<exists>k st'. choose_piece_size st = Inr (2 ^ k, st') \<and> 15 \<le> k \<and> k \<le> 24 \<and>
    st_piece_size st' = 2 ^ k \<and> st_piece_count st' \<le> 1024 \<and> (15 < k \<longrightarrow> 512 \<le> st_piece_count st')"
proof -
  define n where "n = st_total_file_size st"
  define L where "L = log2_floor n"
  define k where "k = nat (min (max 15 (int L - 9)) 24)"
  have n: "0 < n" "n < 2 ^ 34" using assms by (simp_all add: n_def)
  have L: "2 ^ L \<le> n" "n < 2 ^ Suc L" using log2_floor_bounds [of n] n by (auto simp: L_def)
  have k: "15 \<le> k" "k \<le> 24" by (auto simp: k_def)
  have "(2::nat) ^ L < 2 ^ 34" using L n by linarith
  then have "L < 34" by (simp only: power_strict_increasing_iff [of "2::nat"] one_less_numeral_iff semiring_norm)
  then have kL: "Suc L \<le> k + 10" "15 < k \<longrightarrow> k + 9 \<le> L"
    by (auto simp: k_def)
  have pos: "(0::nat) < 2 ^ k" by simp
  have "(2::nat) ^ 15 \<le> 2 ^ k" by (rule power_increasing) (use k in auto)
  then have set_ok: "st_set_piece_size (2 ^ k) st = Inr (st\<lparr>st_piece_size := 2 ^ k\<rparr>)"
    by (simp add: st_set_piece_size_def expects_def KiB_def size_mul_def size_bound_def)
  have k24: "(2::nat) ^ k \<le> 2 ^ 24" by (rule power_increasing) (use k in auto)
  then have "n + 2 ^ k < size_bound" using n by (simp add: size_bound_def)
  then have count: "st_piece_count (st\<lparr>st_piece_size := 2 ^ k\<rparr>) = ceil_div n (2 ^ k)"
    using n by (simp add: st_piece_count_def size_add_exact size_sub_exact ceil_div_def flip: n_def)
  have "(2::nat) ^ Suc L \<le> 2 ^ (k + 10)" by (rule power_increasing) (use kL in auto)
  then have "n \<le> 1024 * 2 ^ k" using L by (simp add: power_add)
  then have upper: "ceil_div n (2 ^ k) \<le> 1024" by (simp add: ceil_div_le_iff)
  have lower: "512 \<le> ceil_div n (2 ^ k)" if "15 < k"
  proof (rule ccontr)
    assume "\<not> 512 \<le> ceil_div n (2 ^ k)"
    then have "ceil_div n (2 ^ k) \<le> 511" by simp
    then have "n \<le> 511 * 2 ^ k" by (simp add: ceil_div_le_iff)
    moreover have "(2::nat) ^ (k + 9) \<le> 2 ^ L" by (rule power_increasing) (use kL that in auto)
    ultimately have "512 * 2 ^ k \<le> 511 * (2::nat) ^ k" using L by (simp add: power_add)
    then show False using pos by simp
  qed
  have "choose_piece_size st = Inr (2 ^ k, st\<lparr>st_piece_size := 2 ^ k\<rparr>)"
    using n set_ok by (simp add: choose_piece_size_def Let_def flip: n_def L_def k_def)
  with k upper lower count show ?thesis by auto
qed

theorem choose_piece_size_bounds_witness:
  "\<exists>k st'. choose_piece_size (sample_storage 0 [100000000]) = Inr (2 ^ k, st') \<and> st_piece_count st' \<le> 1024"
  using choose_piece_size_bounds [of "sample_storage 0 [100000000]"] by (auto simp: size_bound_def)

section \<open>Alignment\<close>

definition padding_for :: "nat \<Rightarrow> nat \<Rightarrow> nat" where
  "padding_for ps n = (if n mod ps = 0 then 0 else ps - n mod ps)"

definition pad_entry :: "(nat \<Rightarrow> string) \<Rightarrow> nat \<Rightarrow> file_entry" where
  "pad_entry decimal n =
     \<lparr>fe_path = [''.pad'', decimal n], fe_file_size = n, fe_checksums = [], fe_has_v2_data = False,
      fe_pieces_root = hash_zero 32, fe_piece_layer = [], fe_attributes = Some attribute_padding_file,
      fe_symlink_path = None, fe_last_modified_time = None\<rparr>"

definition with_padding :: "(nat \<Rightarrow> string) \<Rightarrow> nat \<Rightarrow> file_entry \<Rightarrow> file_entry list" where
  "with_padding decimal ps e =
     e # (if padding_for ps (fe_file_size e) = 0 then []
          else [pad_entry decimal (padding_for ps (fe_file_size e))])"

lemma pad_entry_simps [simp]:
  "fe_is_padding_file (pad_entry d n)" "fe_file_size (pad_entry d n) = n" "fe_ok (pad_entry d n)"
  "make_padding_file_entry d n = Inr (pad_entry d n)"
proof -
  have "\<not> has_flag attribute_padding_file attribute_symlink"
    by (simp add: has_flag_def enum_and_def attribute_defs)
  then show "fe_is_padding_file (pad_entry d n)" "fe_file_size (pad_entry d n) = n" "fe_ok (pad_entry d n)"
    "make_padding_file_entry d n = Inr (pad_entry d n)"
    by (simp_all add: pad_entry_def fe_is_padding_file_def fe_has_attribute_def has_flag_def enum_and_def
        fe_ok_def fe_is_symlink_def checksums_ok_def om_ok_def make_padding_file_entry_def fe_make_def
        fe_check_invariants_def Let_def)
qed

lemma padding_for_aligned: "0 < ps \<Longrightarrow> (n + padding_for ps n) mod ps = 0"
proof (cases "n mod ps = 0")
  case False
  assume ps: "0 < ps"
  have "n + (ps - n mod ps) = (n - n mod ps) + ps"
    using mod_less_divisor [OF ps, of n] mod_less_eq_dividend [of n ps] by linarith
  then show ?thesis
    using False by (simp add: padding_for_def minus_mod_eq_mult_div)
qed (simp add: padding_for_def)

lemma padding_for_less: "0 < ps \<Longrightarrow> padding_for ps n < ps"
  by (auto simp: padding_for_def)

lemma align_entry_step:
  assumes "fe_ok e" "0 < ps" "ps < size_bound" "p + padding_for ps (fe_file_size e) < size_bound"
  shows "align_entry d ps e (out, p) = Inr (out @ with_padding d ps e, p + padding_for ps (fe_file_size e))"
proof -
  define q where "q = ps - fe_file_size e mod ps"
  have m: "fe_file_size e mod ps < ps" using assms(2) by simp
  then have sub: "size_sub ps (fe_file_size e mod ps) = q" and q: "0 < q" "q \<le> ps"
    using assms by (simp_all add: size_sub_exact q_def)
  have pad: "padding_for ps (fe_file_size e) = (if q = ps then 0 else q)"
    using m assms(2) by (auto simp: padding_for_def q_def)
  have "q \<noteq> ps \<Longrightarrow> size_add p q = p + q"
    using assms(4) pad by (simp add: size_add_exact)
  then show ?thesis
    using q assms(1) by (simp add: align_entry_def sub fe_move_id expects_def with_padding_def pad Let_def)
qed

lemma align_loop:
  assumes "list_all fe_ok es" "0 < ps" "ps < size_bound"
    "p + sum_list (map (\<lambda>e. padding_for ps (fe_file_size e)) es) < size_bound"
  shows "rfold (align_entry d ps) es (out, p)
    = Inr (out @ concat (map (with_padding d ps) es), p + sum_list (map (\<lambda>e. padding_for ps (fe_file_size e)) es))"
  using assms
proof (induction es arbitrary: out p)
  case (Cons e es)
  then show ?case
    by (simp add: align_entry_step add.assoc)
qed simp

lemma aligned_scan:
  assumes "0 < ps" "off mod ps = 0" "\<forall>e \<in> set es. \<not> fe_is_padding_file e" "\<not> fe_is_padding_file l"
    "off + sum_list (map (\<lambda>e. fe_file_size e + padding_for ps (fe_file_size e)) es) < size_bound"
  shows "fst (fold (\<lambda>e (al, o'). (if fe_is_padding_file e then al else al \<and> o' mod ps = 0,
            size_add o' (fe_file_size e))) (concat (map (with_padding d ps) es) @ [l]) (True, off))"
  using assms
proof (induction es arbitrary: off)
  case (Cons e es)
  let ?n = "fe_file_size e" and ?p = "padding_for ps (fe_file_size e)"
  have nxt: "(off + (?n + ?p)) mod ps = 0"
    using Cons.prems(1,2) padding_for_aligned [of ps ?n] by (metis add_0 mod_add_eq mod_0)
  have ih: "fst (fold (\<lambda>e (al, o'). (if fe_is_padding_file e then al else al \<and> o' mod ps = 0,
            size_add o' (fe_file_size e))) (concat (map (with_padding d ps) es) @ [l]) (True, off + (?n + ?p)))"
    using Cons.prems nxt by (intro Cons.IH) (simp_all add: add.assoc)
  have "size_add off ?n = off + ?n" "size_add (off + ?n) ?p = off + (?n + ?p)"
    using Cons.prems(5) by (simp_all add: size_add_exact add.assoc)
  moreover have "with_padding d ps e = e # (if ?p = 0 then [] else [pad_entry d ?p])"
    by (simp add: with_padding_def)
  ultimately show ?case
    using ih Cons.prems by auto
qed simp

definition aligned_files :: "(nat \<Rightarrow> string) \<Rightarrow> nat \<Rightarrow> file_entry list \<Rightarrow> file_entry list" where
  "aligned_files decimal ps es = concat (map (with_padding decimal ps) (butlast es)) @ [last es]"

abbreviation regular_size :: "file_entry \<Rightarrow> nat" where
  "regular_size e \<equiv> (if fe_is_padding_file e then 0 else fe_file_size e)"

abbreviation no_padding_bytes :: "file_entry list \<Rightarrow> bool" where
  "no_padding_bytes es \<equiv> list_all (\<lambda>e. fe_is_padding_file e \<longrightarrow> fe_file_size e = 0) es"

lemma with_padding_sums:
  "sum_list (map fe_file_size (concat (map (with_padding d ps) es)))
     = sum_list (map fe_file_size es) + sum_list (map (\<lambda>e. padding_for ps (fe_file_size e)) es)"
  "sum_list (map regular_size (concat (map (with_padding d ps) es))) = sum_list (map regular_size es)"
  "list_all fe_ok es \<Longrightarrow> list_all fe_ok (concat (map (with_padding d ps) es))"
  "filter (\<lambda>e. \<not> fe_is_padding_file e) (concat (map (with_padding d ps) es))
     = filter (\<lambda>e. \<not> fe_is_padding_file e) es"
  by (induction es) (simp_all add: with_padding_def)

lemma regular_sum_le: "sum_list (map regular_size es) \<le> sum_list (map fe_file_size es)"
  by (rule sum_list_mono) simp

lemma regular_sum_eq:
  "sum_list (map fe_file_size es) = sum_list (map regular_size es) \<longleftrightarrow> no_padding_bytes es"
proof (induction es)
  case (Cons e es)
  with regular_sum_le [of es] show ?case by (cases "fe_is_padding_file e") auto
qed simp

lemma alignment_bound:
  assumes "es \<noteq> []" "0 < ps" "sum_list (map (\<lambda>e. fe_file_size e + ps) es) < size_bound"
  shows "sum_list (map fe_file_size es)
    + sum_list (map (\<lambda>e. padding_for ps (fe_file_size e)) (butlast es)) + ps < size_bound"
proof -
  obtain xs l where es: "es = xs @ [l]" using assms(1) by (metis append_butlast_last_id)
  have "sum_list (map (\<lambda>e. padding_for ps (fe_file_size e)) xs) \<le> sum_list (map (\<lambda>e. ps) xs)"
    by (rule sum_list_mono) (simp add: padding_for_less [OF assms(2)] less_imp_le)
  then show ?thesis using assms(3) by (simp add: es sum_list_addf)
qed

lemma optimize_alignment_run:
  fixes decimal :: "nat \<Rightarrow> string"
  assumes "st_files st \<noteq> []" "0 < st_piece_size st" "list_all fe_ok (st_files st)"
    and bound0: "sum_list (map (\<lambda>e. fe_file_size e + st_piece_size st) (st_files st)) < size_bound"
  defines "files \<equiv> aligned_files decimal (st_piece_size st) (st_files st)"
  shows "optimize_alignment decimal st
    = (if no_padding_bytes (st_files st) then Inr (fold st_push files (st_clear st)) else Inl Contract)"
    and "st_total_file_size (fold st_push files (st_clear st)) = sum_list (map fe_file_size files)"
proof -
  define ps where "ps = st_piece_size st"
  define es where "es = butlast (st_files st)"
  define l where "l = last (st_files st)"
  define total_pad where "total_pad = sum_list (map (\<lambda>e. padding_for ps (fe_file_size e)) es)"
  define st' where "st' = fold st_push files (st_clear st)"
  have split: "st_files st = es @ [l]" using assms(1) by (simp add: es_def l_def)
  have ok: "list_all fe_ok es" "fe_ok l" "0 < ps" using assms(2,3) split by (auto simp: ps_def)
  have bound: "sum_list (map fe_file_size (es @ [l])) + total_pad + ps < size_bound"
    using alignment_bound [OF assms(1,2) bound0] unfolding split by (simp add: total_pad_def ps_def)
  have loop: "rfold (align_entry decimal ps) es ([], 0) = Inr (concat (map (with_padding decimal ps) es), total_pad)"
    using align_loop [of es ps 0 decimal "[]"] ok bound by (simp add: total_pad_def)
  have files: "files = concat (map (with_padding decimal ps) es) @ [l]"
    by (simp add: files_def aligned_files_def ps_def es_def l_def)
  have sizes: "sum_list (map fe_file_size files) = sum_list (map fe_file_size (es @ [l])) + total_pad"
    by (simp add: files with_padding_sums total_pad_def)
  show total: "st_total_file_size (fold st_push files (st_clear st)) = sum_list (map fe_file_size files)"
    using bound fold_size_add_exact [of 0 fe_file_size files] sizes by (simp add: fold_push st_clear_def)
  have reg: "st_regular_size st' = sum_list (map regular_size (es @ [l]))"
  proof -
    have "sum_list (map regular_size files) = sum_list (map regular_size (es @ [l]))"
      unfolding files map_append sum_list_append with_padding_sums by simp
    moreover have "sum_list (map regular_size (es @ [l])) < size_bound"
      using regular_sum_le [of "es @ [l]"] bound by linarith
    ultimately show ?thesis
      by (simp add: st_regular_size_def sum_sizes_exact st'_def fold_push st_clear_def)
  qed
  have "size_add (st_regular_size st') total_pad = sum_list (map regular_size (es @ [l])) + total_pad"
    unfolding reg using regular_sum_le [of "es @ [l]"] bound by (intro size_add_exact) linarith
  then have contract: "st_total_file_size st' = size_add (st_regular_size st') total_pad
      \<longleftrightarrow> no_padding_bytes (es @ [l])"
    using regular_sum_eq [of "es @ [l]"] total sizes by (simp only: st'_def add_right_cancel)
  have "list_all fe_ok files" using ok by (simp add: files with_padding_sums)
  then show "optimize_alignment decimal st
      = (if no_padding_bytes (st_files st) then Inr (fold st_push files (st_clear st)) else Inl Contract)"
    using contract ok loop split
    by (simp add: optimize_alignment_def expects_def st_back_def fe_move_id st_add_files_push
        flip: ps_def files st'_def)
qed

text \<open>
  C30: Aligning a storage without padding files puts every file at a piece boundary, keeps the
  files and their order, only adds padding files, and passes its final contract.
\<close>

theorem optimize_alignment_aligns:
  assumes "st_files st \<noteq> []" "0 < st_piece_size st" "list_all fe_ok (st_files st)"
    "list_all (\<lambda>e. \<not> fe_is_padding_file e) (st_files st)"
    "sum_list (map (\<lambda>e. fe_file_size e + st_piece_size st) (st_files st)) < size_bound"
  shows "\<exists>st'. optimize_alignment decimal st = Inr st' \<and> is_piece_aligned st' = Inr True \<and>
    filter (\<lambda>e. \<not> fe_is_padding_file e) (st_files st') = st_files st \<and>
    st_piece_size st' = st_piece_size st \<and>
    st_total_file_size st' = sum_list (map fe_file_size (st_files st'))"
proof -
  define ps where "ps = st_piece_size st"
  define st' where "st' = fold st_push (aligned_files decimal ps (st_files st)) (st_clear st)"
  obtain es l where files: "st_files st = es @ [l]" using assms(1) by (metis append_butlast_last_id)
  have st': "st_files st' = aligned_files decimal ps (st_files st)" "st_piece_size st' = ps"
    by (simp_all add: st'_def fold_push st_clear_def ps_def)
  have "no_padding_bytes (st_files st)" using assms(4) by (auto simp: list_all_iff)
  then have run: "optimize_alignment decimal st = Inr st'"
    "st_total_file_size st' = sum_list (map fe_file_size (st_files st'))"
    using optimize_alignment_run [OF assms(1-3,5), of decimal] st'(1) by (simp_all add: st'_def ps_def)
  have "fst (fold (\<lambda>e (al, o'). (if fe_is_padding_file e then al else al \<and> o' mod ps = 0,
      size_add o' (fe_file_size e))) (aligned_files decimal ps (st_files st)) (True, 0))"
    using aligned_scan [of ps 0 es l decimal] alignment_bound [OF assms(1,2,5)] assms(2,4)
    by (auto simp: aligned_files_def files ps_def list_all_iff sum_list_addf)
  then have "is_piece_aligned st' = Inr True"
    unfolding is_piece_aligned_def st' using assms(2) by (simp add: expects_def ps_def)
  moreover have "filter (\<lambda>e. \<not> fe_is_padding_file e) (st_files st') = st_files st"
    using assms(4) by (auto simp: st' aligned_files_def files with_padding_sums list_all_iff filter_id_conv)
  ultimately show ?thesis
    using run st'(2) by (auto simp: ps_def)
qed

theorem optimize_alignment_aligns_witness:
  "\<exists>st'. optimize_alignment (\<lambda>n. ''3'') (sample_storage 4 [5, 2]) = Inr st' \<and> is_piece_aligned st' = Inr True"
  using optimize_alignment_aligns [of "sample_storage 4 [5, 2]" "\<lambda>n. ''3''"]
  by (auto simp: size_bound_def)

text \<open>
  Aligning terminates the program on an empty storage and on a storage that holds non-empty
  padding files already, so aligning twice is not possible once padding was added.
\<close>

theorem optimize_alignment_refuses:
  assumes "0 < st_piece_size st" "list_all fe_ok (st_files st)"
    "sum_list (map (\<lambda>e. fe_file_size e + st_piece_size st) (st_files st)) < size_bound"
  shows "(\<exists>st'. optimize_alignment decimal st = Inr st') \<longleftrightarrow>
    st_files st \<noteq> [] \<and> list_all (\<lambda>e. fe_is_padding_file e \<longrightarrow> fe_file_size e = 0) (st_files st)"
proof (cases "st_files st = []")
  case True
  then show ?thesis by (simp add: optimize_alignment_def expects_def)
next
  case False
  then show ?thesis
    using optimize_alignment_run(1) [OF False assms, of decimal] by simp
qed

definition padded_storage :: file_storage where
  "padded_storage = st_push (pad_entry (\<lambda>n. ''3'') 3) (sample_storage 4 [5])"

theorem optimize_alignment_refuses_witness:
  "\<nexists>st'. optimize_alignment (\<lambda>n. ''3'') padded_storage = Inr st'"
proof -
  have "st_files padded_storage = [sample_entry_of ''f'' 5, pad_entry (\<lambda>n. ''3'') 3]"
    "st_piece_size padded_storage = 4"
    by (simp_all add: padded_storage_def st_push_def)
  then show ?thesis
    using optimize_alignment_refuses [of padded_storage "\<lambda>n. ''3''"] by (simp add: size_bound_def)
qed

section \<open>Protocol and directories\<close>

text \<open>
  A storage reports no protocol only when it has no v1 pieces, is not empty, and holds a
  non-empty regular file without v2 data; in particular a new storage, in which nothing was
  hashed, reports v2.
\<close>

theorem storage_protocol_none:
  "(st_protocol st = protocol_none \<longleftrightarrow>
     st_pieces st = [] \<and> st_total_file_size st \<noteq> 0 \<and>
     list_ex (\<lambda>e. \<not> fe_is_padding_file e \<and> \<not> fe_is_symlink e \<and> fe_file_size e \<noteq> 0 \<and> \<not> fe_has_v2_data e)
       (st_files st)) \<and>
   st_protocol (st_new indet) = protocol_v2"
proof -
  have "list_ex (\<lambda>e. \<not> fe_is_padding_file e \<and> \<not> fe_is_symlink e \<and> fe_file_size e \<noteq> 0 \<and> \<not> fe_has_v2_data e)
      (st_files st) \<longleftrightarrow> \<not> list_all has_v2_or_needs_none (st_files st)"
    by (auto simp: list_ex_iff list_all_iff has_v2_or_needs_none_def)
  then show ?thesis
    by (auto simp: st_protocol_def st_new_def hybrid_is_v1_or_v2 Let_def)
qed

lemma prefix_between:
  fixes d :: path
  shows "take (length d) q = d \<Longrightarrow> d \<le> p \<Longrightarrow> p \<le> q \<Longrightarrow> take (length d) p = d"
proof (induction d arbitrary: p q)
  case (Cons c d)
  then obtain e p' where p: "p = e # p'" by (cases p) auto
  from Cons.prems(1) obtain q' where q: "q = c # q'" "take (length d) q' = d" by (cases q) auto
  from Cons.prems have "c \<le> e" "e \<le> c" by (auto simp: p q Cons_le_Cons)
  then have "e = c" by simp
  with Cons.prems(2,3) Cons.IH [OF q(2), of p'] show ?case
    by (simp add: p q Cons_le_Cons)
qed simp

lemma prefix_le: "d \<le> d @ r" for d :: path
  by (induction d) (simp_all add: Cons_le_Cons)

lemma join_path_prefix: "starts_with (join_path (d @ r)) (join_path d)"
proof (induction d rule: join_path.induct)
  case (2 c)
  then show ?case by (cases r) (simp_all add: starts_with_def)
qed (simp_all add: starts_with_def)

lemma path_string_prefix: "take (length d) p = d \<Longrightarrow> starts_with (path_string p) (path_string d)"
proof -
  assume "take (length d) p = d"
  then obtain r where p: "p = d @ r" by (metis append_take_drop_id)
  show ?thesis
  proof (cases d)
    case Nil
    then show ?thesis by (simp add: path_string_def is_absolute_def starts_with_def)
  next
    case (Cons c cs)
    then show ?thesis
      using join_path_prefix [of d r] join_path_prefix [of cs r]
      by (simp add: p path_string_def is_absolute_def starts_with_def)
  qed
qed

text \<open>
  The contents of a directory include every file below it, and every file returned has a
  path whose string starts with the directory's string.
\<close>

theorem directory_contents_complete:
  assumes "\<not> st_index_valid st"
  shows "{i. i < length (st_files st) \<and> take (length dir) (fe_path (st_files st ! i)) = dir}
      \<subseteq> set (fst (st_directory_contents dir st)) \<and>
    set (fst (st_directory_contents dir st))
      \<subseteq> {i. i < length (st_files st) \<and>
           starts_with (path_string (fe_path (st_files st ! i))) (path_string dir)}"
proof -
  let ?p = "\<lambda>i. fe_path (st_files st ! i)"
  let ?s = "\<lambda>i. starts_with (path_string (?p i)) (path_string dir)"
  define L where "L = sort_key ?p [0..<length (st_files st)]"
  define F where "F = dropWhile (\<lambda>i. ?p i < dir) L"
  have eq: "fst (st_directory_contents dir st) = takeWhile ?s F"
    using assms by (simp add: st_directory_contents_def st_index_def Let_def L_def F_def)
  have sorted: "sorted_wrt (\<lambda>i j. ?p i \<le> ?p j) L"
    using sorted_sort_key [of ?p "[0..<length (st_files st)]"] by (simp add: L_def sorted_map)
  have F: "F = filter (\<lambda>i. \<not> ?p i < dir) L"
    unfolding F_def
    by (rule dropWhile_sorted_partition, rule sorted_wrt_mono_rel [OF _ sorted]) (auto intro: le_less_trans)
  have sub: "?s i \<Longrightarrow> i \<in> set (takeWhile ?s F)"
    if i: "i \<in> set F" "take (length dir) (?p i) = dir" for i
  proof -
    obtain a b where F_split: "F = a @ i # b" using i(1) by (meson split_list)
    have "sorted_wrt (\<lambda>i j. ?p i \<le> ?p j) F"
      unfolding F by (rule sorted_wrt_filter [OF sorted])
    then have below: "?p j \<le> ?p i" if "j \<in> set a" for j
      using that by (auto simp: F_split sorted_wrt_append)
    have "?s j" if "j \<in> set a" for j
    proof -
      have "j \<in> set F" using that by (simp add: F_split)
      then have "dir \<le> ?p j" by (simp add: F not_less)
      from prefix_between [OF i(2) this below [OF that]] show ?thesis
        by (rule path_string_prefix)
    qed
    moreover have "?s i" using i(2) by (rule path_string_prefix)
    ultimately show ?thesis by (simp add: F_split)
  qed
  have "i \<in> set (takeWhile ?s F)" if "i < length (st_files st)" "take (length dir) (?p i) = dir" for i
  proof -
    have "dir \<le> ?p i"
      using prefix_le [of dir "drop (length dir) (?p i)"] that(2) by (metis append_take_drop_id)
    then have "i \<in> set F" using that(1) by (simp add: F L_def not_less)
    then show ?thesis using sub that(2) path_string_prefix by blast
  qed
  moreover have "j < length (st_files st) \<and> ?s j" if "j \<in> set (takeWhile ?s F)" for j
    using set_takeWhileD [OF that] by (simp add: F L_def)
  ultimately show ?thesis unfolding eq by blast
qed

definition neighbour_storage :: file_storage where
  "neighbour_storage =
     fold st_push [(sample_entry_of ''a'' 1)\<lparr>fe_path := [''d'', ''a'']\<rparr>,
                   (sample_entry_of ''b'' 1)\<lparr>fe_path := [''d10'', ''b'']\<rparr>] (st_new False)"

theorem directory_contents_complete_witness:
  "0 \<in> set (fst (st_directory_contents [''d''] neighbour_storage))"
proof -
  have "\<not> st_index_valid neighbour_storage"
    "st_files neighbour_storage = [(sample_entry_of ''a'' 1)\<lparr>fe_path := [''d'', ''a'']\<rparr>,
       (sample_entry_of ''b'' 1)\<lparr>fe_path := [''d10'', ''b'']\<rparr>]"
    by (simp_all add: neighbour_storage_def st_push_def st_new_def)
  with directory_contents_complete [of neighbour_storage "[''d'']"] show ?thesis
    by auto
qed

text \<open>
  The contents of a directory also hold the files of a neighbour whose name starts with the
  directory's name.
\<close>

theorem directory_contents_neighbour:
  "fst (st_directory_contents [''d''] neighbour_storage) = [0, 1]"
  by (simp add: st_directory_contents_def neighbour_storage_def st_push_def st_new_def st_index_def
      sample_entry_of_def starts_with_def path_string_def is_absolute_def Let_def upt_rec)

end
