(* ===== verification/Hasher.thy ===== *)
theory Hasher
  imports Hashes
begin

text \<open>
  The two hasher interfaces (\<^verbatim>\<open>hasher/single_buffer_hasher.hpp\<close>, \<^verbatim>\<open>hasher/multi_buffer_hasher.hpp\<close>)
  and the state their implementations keep. The cryptographic function of the backend is the
  parameter \<open>H\<close>, from the bytes of a message to its digest; the backends stream, so the state of a
  single-buffer hasher is the bytes absorbed since the last reset (\<^verbatim>\<open>openssl_hasher.hpp\<close>:
  \<^verbatim>\<open>finalize_to\<close> resets). A multi-buffer hasher holds one job per context (\<^verbatim>\<open>backends/isal.hpp\<close>).
\<close>

type_synonym digest_function = "byte list \<Rightarrow> hash"
type_synonym hasher = "byte list"

definition hasher_new :: hasher where
  "hasher_new = []"

definition hasher_update :: "byte list \<Rightarrow> hasher \<Rightarrow> hasher" where
  "hasher_update data h = h @ data"

definition hasher_finalize :: "digest_function \<Rightarrow> hasher \<Rightarrow> hash \<times> hasher" where
  "hasher_finalize H h = (H h, hasher_new)"

definition make_hash :: "digest_function \<Rightarrow> byte list \<Rightarrow> hash" where
  "make_hash H data = fst (hasher_finalize H (hasher_update data hasher_new))"

lemmas hasher_defs = hasher_new_def hasher_update_def hasher_finalize_def make_hash_def

text \<open>
  A job that was never submitted holds an undefined digest. Waiting for a job whose last part
  was not submitted never ends.
\<close>

datatype job = Fresh | Running "byte list" | Complete "byte list"

type_synonym multi_hasher = "job list"

definition mb_resize :: "nat \<Rightarrow> multi_hasher \<Rightarrow> multi_hasher" where
  "mb_resize n js = (if length js \<le> n then js @ replicate (n - length js) Fresh else take n js)"

definition mb_reset :: "multi_hasher \<Rightarrow> multi_hasher" where
  "mb_reset js = []"

definition mb_job_count :: "multi_hasher \<Rightarrow> nat" where
  "mb_job_count js = length js"

definition mb_submit_new :: "byte list \<Rightarrow> multi_hasher \<Rightarrow> nat \<times> multi_hasher" where
  "mb_submit_new data js = (length js, js @ [Complete data])"

definition mb_submit_first_new :: "byte list \<Rightarrow> multi_hasher \<Rightarrow> nat \<times> multi_hasher" where
  "mb_submit_first_new data js = (length js, js @ [Running data])"

definition mb_submit :: "nat \<Rightarrow> byte list \<Rightarrow> multi_hasher \<Rightarrow> multi_hasher result" where
  "mb_submit i data js = rbind (expects (i < length js)) (\<lambda>_. Inr (js[i := Complete data]))"

definition mb_submit_first :: "nat \<Rightarrow> byte list \<Rightarrow> multi_hasher \<Rightarrow> multi_hasher result" where
  "mb_submit_first i data js = rbind (expects (i < length js)) (\<lambda>_. Inr (js[i := Running data]))"

definition mb_submit_update :: "nat \<Rightarrow> byte list \<Rightarrow> multi_hasher \<Rightarrow> multi_hasher result" where
  "mb_submit_update i data js = rbind (expects (i < length js)) (\<lambda>_.
     Inr (case js ! i of Running b \<Rightarrow> js[i := Running (b @ data)] | _ \<Rightarrow> js))"

definition mb_submit_last :: "nat \<Rightarrow> byte list \<Rightarrow> multi_hasher \<Rightarrow> multi_hasher result" where
  "mb_submit_last i data js = rbind (expects (i < length js)) (\<lambda>_.
     Inr (case js ! i of Running b \<Rightarrow> js[i := Complete (b @ data)] | _ \<Rightarrow> js))"

definition mb_finalize :: "digest_function \<Rightarrow> nat \<Rightarrow> multi_hasher \<Rightarrow> hash result" where
  "mb_finalize H i js = rbind (expects (i < length js)) (\<lambda>_.
     case js ! i of Complete b \<Rightarrow> Inr (H b) | Running b \<Rightarrow> Inl Diverges | Fresh \<Rightarrow> Inl Undefined)"

lemmas mb_defs =
  mb_submit_def mb_submit_first_def mb_submit_update_def mb_submit_last_def mb_finalize_def

lemma length_mb_resize [simp]: "length (mb_resize n js) = n"
  by (simp add: mb_resize_def)

text \<open>Submitting one message per job, in order, completes every job with its message.\<close>

lemma mb_submit_all:
  assumes "length js = length ds" "n \<le> length ds"
  shows "rfold (\<lambda>i js. mb_submit i (ds ! i) js) [0..<n] js
    = Inr (map Complete (take n ds) @ drop n js)"
  using assms(2)
proof (induction n)
  case (Suc n)
  then have "(map Complete (take n ds) @ drop n js)[n := Complete (ds ! n)]
      = map Complete (take (Suc n) ds) @ drop (Suc n) js"
    using assms(1)
    by (intro nth_equalityI) (auto simp: nth_append nth_list_update min_def less_Suc_eq)
  with Suc show ?case
    using assms(1) by (simp add: rfold_append mb_submit_def expects_def)
qed simp

end
