(* ===== verification/Merkle_Tree.thy ===== *)
theory Merkle_Tree
  imports Hasher
begin

text \<open>
  The merkle tree of a v2 file (\<^verbatim>\<open>merkle_tree.hpp\<close>): a complete binary tree stored layer by layer in
  a vector, the root first. The index arithmetic of the class is 32 bits wide where it shifts
  \<^verbatim>\<open>1U\<close>; the results below are for trees of height at most 30, that is files of up to 2^30 blocks
  of 16 KiB.
\<close>

section \<open>Layout\<close>

type_synonym merkle_tree = "hash list"

definition shl_u32 :: "nat \<Rightarrow> nat \<Rightarrow> nat" where
  "shl_u32 k n = u32 (k * 2 ^ n)"

definition pred_u32 :: "nat \<Rightarrow> nat" where
  "pred_u32 n = u32 (n + (2 ^ 32 - 1))"

definition nodes_in_layer :: "nat \<Rightarrow> nat" where
  "nodes_in_layer layer = shl_u32 1 layer"

definition total_node_count_for_height :: "nat \<Rightarrow> nat" where
  "total_node_count_for_height height = pred_u32 (shl_u32 1 (height + 1))"

definition get_flat_index :: "nat \<Rightarrow> nat \<Rightarrow> nat" where
  "get_flat_index layer index = size_add (pred_u32 (shl_u32 1 layer)) index"

definition get_node_layer :: "nat \<Rightarrow> nat" where
  "get_node_layer flat_index = log2_floor (size_add flat_index 1)"

definition get_node_index :: "nat \<Rightarrow> nat \<times> nat" where
  "get_node_index flat_index =
     (let layer = get_node_layer flat_index
      in (u32 layer, u32 (size_sub flat_index (get_flat_index layer 0))))"

definition mt_parent :: "nat \<Rightarrow> nat" where
  "mt_parent flat_idx = (if flat_idx = 0 then 0 else (flat_idx - 1) div 2)"

definition left_child :: "nat \<Rightarrow> nat" where
  "left_child flat_idx = size_add (size_mul flat_idx 2) 1"

definition right_child :: "nat \<Rightarrow> nat" where
  "right_child flat_idx = size_add (size_mul flat_idx 2) 2"

definition left_child_n :: "nat \<Rightarrow> nat \<Rightarrow> nat" where
  "left_child_n flat_idx n = size_sub (size_add (size_mul flat_idx (shl_u32 2 n)) (shl_u32 2 n)) 1"

definition right_child_n :: "nat \<Rightarrow> nat \<Rightarrow> nat" where
  "right_child_n flat_idx n = size_sub (size_add (size_mul flat_idx (shl_u32 2 n)) (shl_u32 4 n)) 2"

section \<open>Operations\<close>

definition set_leaf_nodes :: "nat \<Rightarrow> hash \<Rightarrow> merkle_tree result" where
  "set_leaf_nodes leaf_nodes v =
     (let height = (if leaf_nodes \<noteq> 0 then log2_ceil leaf_nodes else 1);
          node_count = total_node_count_for_height height
      in rbind (expects (node_count \<ge> 1)) (\<lambda>_. Inr (replicate node_count v)))"

definition tree_height :: "merkle_tree \<Rightarrow> nat" where
  "tree_height t = get_node_layer (size_sub (length t) 1)"

definition mt_node_count :: "merkle_tree \<Rightarrow> nat" where
  "mt_node_count t = length t"

definition leaf_count :: "merkle_tree \<Rightarrow> nat" where
  "leaf_count t = (length t + 1) div 2"

definition mt_root :: "merkle_tree \<Rightarrow> hash result" where
  "mt_root t = (case t of [] \<Rightarrow> Inl Undefined | h # _ \<Rightarrow> Inr h)"

definition mt_has_root :: "merkle_tree \<Rightarrow> bool result" where
  "mt_has_root t = rbind (mt_root t) (\<lambda>h. Inr (h \<noteq> hash_zero (length h)))"

definition get_node :: "merkle_tree \<Rightarrow> nat \<Rightarrow> nat \<Rightarrow> hash result" where
  "get_node t layer index =
     rbind (expects (layer \<le> tree_height t)) (\<lambda>_.
     rbind (expects (index < nodes_in_layer layer)) (\<lambda>_.
       if get_flat_index layer index < length t then Inr (t ! get_flat_index layer index)
       else Inl Undefined))"

definition set_node :: "nat \<Rightarrow> nat \<Rightarrow> hash \<Rightarrow> merkle_tree \<Rightarrow> merkle_tree result" where
  "set_node layer index v t =
     rbind (expects (layer \<le> tree_height t)) (\<lambda>_.
     rbind (expects (index < nodes_in_layer layer)) (\<lambda>_.
     rbind (expects (get_flat_index layer index \<le> length t)) (\<lambda>_.
       if get_flat_index layer index < length t then Inr (t[get_flat_index layer index := v])
       else Inl Undefined)))"

definition get_leaf :: "merkle_tree \<Rightarrow> nat \<Rightarrow> hash result" where
  "get_leaf t index = get_node t (tree_height t) index"

definition set_leaf :: "nat \<Rightarrow> hash \<Rightarrow> merkle_tree \<Rightarrow> merkle_tree result" where
  "set_leaf index v t = set_node (tree_height t) index v t"

definition get_layer :: "merkle_tree \<Rightarrow> nat \<Rightarrow> hash list result" where
  "get_layer t depth =
     rbind (expects (depth \<le> tree_height t)) (\<lambda>_.
       if get_flat_index depth 0 + nodes_in_layer depth \<le> length t
       then Inr (subrange t (get_flat_index depth 0) (nodes_in_layer depth)) else Inl Undefined)"

definition get_node_range :: "merkle_tree \<Rightarrow> nat \<Rightarrow> nat \<Rightarrow> nat \<Rightarrow> hash list result" where
  "get_node_range t layer fst0 lst =
     rbind (expects (layer \<le> tree_height t)) (\<lambda>_.
     rbind (expects (fst0 < nodes_in_layer layer)) (\<lambda>_.
     rbind (expects (lst \<le> nodes_in_layer layer)) (\<lambda>_.
     rbind (expects (fst0 \<le> lst)) (\<lambda>_.
       Inr (subrange t (get_flat_index layer fst0) (lst - fst0))))))"

definition update_pair ::
    "digest_function \<Rightarrow> nat \<Rightarrow> nat \<Rightarrow> hasher \<times> merkle_tree \<Rightarrow> (hasher \<times> merkle_tree) result" where
  "update_pair H layer i s =
     (let (h, t) = s in
      rbind (get_node t layer i) (\<lambda>l.
      rbind (get_node t layer (i + 1)) (\<lambda>r.
      let (digest, h') = hasher_finalize H (hasher_update r (hasher_update l h)) in
      rbind (set_node (layer - 1) (mt_parent (i + 1)) digest t) (\<lambda>t'. Inr (h', t')))))"

definition even_indices :: "nat \<Rightarrow> nat list" where
  "even_indices n = map (\<lambda>j. 2 * j) [0..<(n + 1) div 2]"

definition update_layer ::
    "digest_function \<Rightarrow> nat \<Rightarrow> hasher \<times> merkle_tree \<Rightarrow> (hasher \<times> merkle_tree) result" where
  "update_layer H layer s = rfold (update_pair H layer) (even_indices (nodes_in_layer layer)) s"

definition mt_update :: "digest_function \<Rightarrow> hasher \<Rightarrow> merkle_tree \<Rightarrow> (hasher \<times> merkle_tree) result" where
  "mt_update H h t = rfold (update_layer H) (rev [1..<Suc (tree_height t)]) (h, t)"

text \<open>The multi-buffer variant, which hashes the pairs of a layer as parallel jobs.\<close>

definition update_layer_mb ::
    "digest_function \<Rightarrow> nat \<Rightarrow> multi_hasher \<times> merkle_tree \<Rightarrow> (multi_hasher \<times> merkle_tree) result" where
  "update_layer_mb H layer s =
     (let (js, t) = s; n_nodes = nodes_in_layer layer in
      rbind (expects (n_nodes mod 2 = 0)) (\<lambda>_.
      let n_jobs = n_nodes div 2 in
      rbind (rfold (\<lambda>j js. rbind (get_node t layer (2 * j)) (\<lambda>l. mb_submit_first j l js))
               [0..<n_jobs] (mb_resize n_jobs js)) (\<lambda>js.
      rbind (rfold (\<lambda>j js. rbind (get_node t layer (2 * j + 1)) (\<lambda>r. mb_submit_last j r js))
               [0..<n_jobs] js) (\<lambda>js.
      rbind (rfold (\<lambda>j t. rbind (mb_finalize H j js) (\<lambda>digest.
               set_node (layer - 1) (mt_parent (2 * j)) digest t)) [0..<n_jobs] t) (\<lambda>t.
        Inr (js, t))))))"

definition mt_update_mb ::
    "digest_function \<Rightarrow> multi_hasher \<Rightarrow> merkle_tree \<Rightarrow> (multi_hasher \<times> merkle_tree) result" where
  "mt_update_mb H js t = rfold (update_layer_mb H) (rev [1..<Suc (tree_height t)]) (js, t)"

section \<open>Well-formed trees\<close>

definition mt_ok :: "nat \<Rightarrow> merkle_tree \<Rightarrow> bool" where
  "mt_ok h t \<longleftrightarrow> h \<le> 30 \<and> length t = 2 ^ Suc h - 1"

definition flat :: "nat \<Rightarrow> nat \<Rightarrow> nat" where
  "flat layer i = 2 ^ layer - 1 + i"

text \<open>The merkle hash of the subtree of height \<open>d\<close> over leaves \<open>leaf\<close>, the reference definition.\<close>

fun merkle_hash :: "digest_function \<Rightarrow> (nat \<Rightarrow> hash) \<Rightarrow> nat \<Rightarrow> nat \<Rightarrow> hash" where
  "merkle_hash H leaf 0 i = leaf i"
| "merkle_hash H leaf (Suc d) i = H (merkle_hash H leaf d (2 * i) @ merkle_hash H leaf d (2 * i + 1))"

lemma pow_le_30: "l \<le> 30 \<Longrightarrow> (2::nat) ^ l \<le> 1073741824"
  using power_increasing [of l 30 "2::nat"] by simp

lemma pred_u32_exact: "0 < n \<Longrightarrow> n < 2 ^ 32 \<Longrightarrow> pred_u32 (u32 n) = n - 1"
proof (cases n)
  case (Suc m)
  assume "n < 2 ^ 32"
  moreover have "Suc m + (2 ^ 32 - 1) = m + 2 ^ 32" by simp
  ultimately show ?thesis using Suc by (simp add: pred_u32_def u32_def)
qed simp

lemma layer_arith:
  assumes "l \<le> 30"
  shows "nodes_in_layer l = 2 ^ l" "i < 2 ^ l \<Longrightarrow> get_flat_index l i = flat l i"
proof -
  have p: "(2::nat) ^ l \<le> 1073741824" "0 < (2::nat) ^ l" using pow_le_30 [OF assms] by simp_all
  then show "nodes_in_layer l = 2 ^ l" by (simp add: nodes_in_layer_def shl_u32_def u32_def)
  have "pred_u32 (shl_u32 1 l) = 2 ^ l - 1"
    using p pred_u32_exact [of "2 ^ l"] by (simp add: shl_u32_def)
  then show "i < 2 ^ l \<Longrightarrow> get_flat_index l i = flat l i"
    using p by (simp add: get_flat_index_def flat_def size_add_exact size_bound_def)
qed

lemma tree_height_ok: "mt_ok h t \<Longrightarrow> tree_height t = h"
proof -
  assume ok: "mt_ok h t"
  define n where "n = (2::nat) ^ h"
  have n: "0 < n" "n \<le> 1073741824" "(2::nat) ^ Suc h = 2 * n"
    using ok pow_le_30 [of h] by (simp_all add: n_def mt_ok_def)
  have "size_sub (length t) 1 = 2 * n - 2" "size_add (2 * n - 2) 1 = 2 * n - 1"
    using ok n by (simp_all add: mt_ok_def size_sub_exact size_add_exact size_bound_def)
  moreover have "log2_floor (2 * n - 1) = h"
    by (rule log2_floor_unique) (use n n_def in auto)
  ultimately show ?thesis by (simp add: tree_height_def get_node_layer_def)
qed

lemma flat_bound: "mt_ok h t \<Longrightarrow> l \<le> h \<Longrightarrow> i < 2 ^ l \<Longrightarrow> flat l i < length t"
proof -
  assume a: "mt_ok h t" "l \<le> h" "i < 2 ^ l"
  then have "(2::nat) ^ l \<le> 2 ^ h" by (intro power_increasing) auto
  then have "2 ^ l - 1 + i < 2 * 2 ^ h - 1" using a(3) by linarith
  with a show ?thesis by (simp add: mt_ok_def flat_def)
qed

lemma node_access:
  assumes "mt_ok h t" "l \<le> h" "i < 2 ^ l"
  shows "get_node t l i = Inr (t ! flat l i)" "set_node l i v t = Inr (t[flat l i := v])"
proof -
  have l: "l \<le> 30" using assms by (simp add: mt_ok_def)
  show "get_node t l i = Inr (t ! flat l i)" "set_node l i v t = Inr (t[flat l i := v])"
    using assms layer_arith [OF l] flat_bound [OF assms] tree_height_ok [OF assms(1)]
    by (simp_all add: get_node_def set_node_def expects_def)
qed

lemma mt_ok_update [simp]: "mt_ok h (t[i := v]) = mt_ok h t"
  by (simp add: mt_ok_def)

lemma set_leaf_nodes_ok:
  assumes "0 < n" "n \<le> 2 ^ 30"
  shows "set_leaf_nodes n v = Inr (replicate (2 ^ Suc (log2_ceil n) - 1) v)"
    and "mt_ok (log2_ceil n) (replicate (2 ^ Suc (log2_ceil n) - 1) v)"
    and "n \<le> 2 ^ log2_ceil n" and "0 < log2_ceil n \<Longrightarrow> 2 ^ (log2_ceil n - 1) < n"
proof -
  define h where "h = log2_floor (2 * n - 1)"
  have eq: "log2_ceil n = h"
    using assms by (simp add: log2_ceil_def h_def size_mul_exact size_sub_exact size_bound_def)
  have b: "2 ^ h \<le> 2 * n - 1" "2 * n - 1 < 2 ^ Suc h"
    using log2_floor_bounds [of "2 * n - 1"] assms by (auto simp: h_def)
  show "n \<le> 2 ^ log2_ceil n" using b by (simp add: eq)
  have "(2::nat) ^ h < 2 ^ 31" using b assms by simp
  then have h30: "h \<le> 30" by (simp only: power_strict_increasing_iff [of "2::nat"] one_less_numeral_iff semiring_norm)
  have p: "(2::nat) ^ Suc h \<le> 2147483648" "0 < (2::nat) ^ Suc h" using pow_le_30 [OF h30] by auto
  have count: "total_node_count_for_height h = 2 ^ Suc h - 1"
    using p pred_u32_exact [of "2 ^ Suc h"] by (simp add: total_node_count_for_height_def shl_u32_def)
  have ge: "1 \<le> (2::nat) ^ Suc h - 1"
    using one_le_power [of "2::nat" h] unfolding power_Suc by linarith
  show "0 < log2_ceil n \<Longrightarrow> 2 ^ (log2_ceil n - 1) < n"
    using b by (cases h) (simp_all add: eq)
  show "mt_ok (log2_ceil n) (replicate (2 ^ Suc (log2_ceil n) - 1) v)"
    using h30 by (simp add: eq mt_ok_def)
  show "set_leaf_nodes n v = Inr (replicate (2 ^ Suc (log2_ceil n) - 1) v)"
    using assms count ge by (simp add: set_leaf_nodes_def eq expects_def Let_def)
qed

section \<open>Updating computes the merkle hashes\<close>

definition pair_hash :: "digest_function \<Rightarrow> merkle_tree \<Rightarrow> nat \<Rightarrow> nat \<Rightarrow> hash" where
  "pair_hash H t l j = H (t ! flat (Suc l) (2 * j) @ t ! flat (Suc l) (2 * j + 1))"

definition hash_prefix :: "digest_function \<Rightarrow> merkle_tree \<Rightarrow> nat \<Rightarrow> nat \<Rightarrow> merkle_tree" where
  "hash_prefix H t l m =
     map (\<lambda>p. if flat l 0 \<le> p \<and> p < flat l m then pair_hash H t l (p - flat l 0) else t ! p) [0..<length t]"

lemma length_hash_prefix [simp]: "length (hash_prefix H t l m) = length t"
  by (simp add: hash_prefix_def)

lemma mt_ok_hash_prefix [simp]: "mt_ok h (hash_prefix H t l m) = mt_ok h t"
  by (simp add: mt_ok_def)

lemma flat_Suc: "flat l (Suc m) = Suc (flat l m)"
  by (simp add: flat_def)

lemma flat_layers:
  assumes "k < l" "j < 2 ^ k"
  shows "flat k j < flat l i"
proof -
  have "(2::nat) ^ Suc k \<le> 2 ^ l" using assms(1) by (intro power_increasing) auto
  with assms(2) show ?thesis by (simp add: flat_def)
qed

lemma hash_prefix_nth:
  assumes "mt_ok h t" "m \<le> 2 ^ l" "k \<le> h" "i < 2 ^ k"
  shows "hash_prefix H t l m ! flat k i = (if k = l \<and> i < m then pair_hash H t l i else t ! flat k i)"
proof -
  have b: "flat k i < length t" using flat_bound assms by simp
  consider "k < l" | "k = l" | "l < k" by linarith
  then have "flat l 0 \<le> flat k i \<and> flat k i < flat l m \<longleftrightarrow> k = l \<and> i < m"
  proof cases
    case 1
    then show ?thesis using flat_layers [of k l i 0] assms by auto
  next
    case 3
    have "flat l m \<le> flat k i"
    proof (cases m)
      case 0
      then show ?thesis using flat_layers [of l k 0 i] 3 by simp
    next
      case (Suc m')
      then show ?thesis
        using flat_layers [of l k m' i] 3 assms by (simp add: flat_Suc)
    qed
    then show ?thesis using 3 by simp
  next
    case 2
    then show ?thesis
      by (simp only: flat_def add_le_cancel_left nat_add_left_cancel_less le0 simp_thms)
  qed
  then show ?thesis
    using b by (auto simp: hash_prefix_def flat_def)
qed

lemma update_pairs_prefix:
  assumes "mt_ok h t" "Suc l \<le> h" "m \<le> 2 ^ l"
  shows "rfold (update_pair H (Suc l)) (map (\<lambda>j. 2 * j) [0..<m]) (hasher_new, t)
    = Inr (hasher_new, hash_prefix H t l m)"
  using assms(3)
proof (induction m)
  case 0
  have "hash_prefix H t l 0 = t"
    by (rule nth_equalityI) (auto simp: hash_prefix_def)
  then show ?case by simp
next
  case (Suc m)
  let ?t = "hash_prefix H t l m"
  have ok: "mt_ok h ?t" and l: "l \<le> h" using assms by simp_all
  have m: "2 * m < 2 ^ Suc l" "2 * m + 1 < 2 ^ Suc l" "m < 2 ^ l" using Suc.prems by simp_all
  have "?t ! flat (Suc l) (2 * m) = t ! flat (Suc l) (2 * m)"
    "?t ! flat (Suc l) (2 * m + 1) = t ! flat (Suc l) (2 * m + 1)"
    using hash_prefix_nth [OF assms(1), of m l "Suc l"] assms(2) m by auto
  then have "update_pair H (Suc l) (2 * m) (hasher_new, ?t)
      = Inr (hasher_new, ?t[flat l m := pair_hash H t l m])"
    using node_access [OF ok assms(2)] node_access(2) [OF ok l] m
    by (simp add: update_pair_def hasher_defs pair_hash_def mt_parent_def)
  moreover have "?t[flat l m := pair_hash H t l m] = hash_prefix H t l (Suc m)"
  proof (rule nth_equalityI)
    fix p
    assume "p < length (?t[flat l m := pair_hash H t l m])"
    then have p: "p < length t" by simp
    have "flat l 0 \<le> flat l m" "flat l m - flat l 0 = m" by (simp_all add: flat_def)
    then show "?t[flat l m := pair_hash H t l m] ! p = hash_prefix H t l (Suc m) ! p"
      using p by (auto simp: hash_prefix_def nth_list_update flat_Suc less_Suc_eq)
  qed simp
  ultimately show ?case
    using Suc by (simp add: rfold_append)
qed

lemma update_layer_prefix:
  assumes "mt_ok h t" "Suc l \<le> h"
  shows "update_layer H (Suc l) (hasher_new, t) = Inr (hasher_new, hash_prefix H t l (2 ^ l))"
proof -
  have "Suc l \<le> 30" using assms by (simp add: mt_ok_def)
  from layer_arith(1) [OF this] show ?thesis
    using update_pairs_prefix [OF assms order.refl]
    by (simp add: update_layer_def even_indices_def)
qed

definition hashed_down_to :: "digest_function \<Rightarrow> nat \<Rightarrow> merkle_tree \<Rightarrow> nat \<Rightarrow> merkle_tree \<Rightarrow> bool" where
  "hashed_down_to H h t l t' \<longleftrightarrow> mt_ok h t' \<and>
     (\<forall>k i. l \<le> k \<longrightarrow> k \<le> h \<longrightarrow> i < 2 ^ k \<longrightarrow>
        t' ! flat k i = merkle_hash H (\<lambda>j. t ! flat h j) (h - k) i)"

lemma hashed_down_step:
  assumes "hashed_down_to H h t (Suc l) t'" "Suc l \<le> h"
  shows "hashed_down_to H h t l (hash_prefix H t' l (2 ^ l))"
  unfolding hashed_down_to_def
proof (intro conjI allI impI)
  have ok: "mt_ok h t'" using assms(1) by (simp add: hashed_down_to_def)
  then show "mt_ok h (hash_prefix H t' l (2 ^ l))" by simp
  fix k i
  assume k: "l \<le> k" "k \<le> h" and i: "i < (2::nat) ^ k"
  show "hash_prefix H t' l (2 ^ l) ! flat k i = merkle_hash H (\<lambda>j. t ! flat h j) (h - k) i"
  proof (cases "k = l")
    case True
    have d: "h - l = Suc (h - Suc l)" using assms(2) by simp
    have "2 * i < 2 ^ Suc l" "2 * i + 1 < 2 ^ Suc l" using i True by simp_all
    then show ?thesis
      using hash_prefix_nth [OF ok order.refl k(2) i, of H l] assms i True
      by (simp add: d pair_hash_def hashed_down_to_def)
  next
    case False
    then show ?thesis
      using hash_prefix_nth [OF ok order.refl k(2) i, of H l] assms(1) k i
      by (simp add: hashed_down_to_def)
  qed
qed

lemma update_layers_down:
  assumes "mt_ok h t" "n \<le> h"
  shows "\<exists>t'. rfold (update_layer H) (rev [Suc (h - n)..<Suc h]) (hasher_new, t) = Inr (hasher_new, t') \<and>
    hashed_down_to H h t (h - n) t'"
  using assms(2)
proof (induction n)
  case 0
  then show ?case using assms(1) by (auto simp: hashed_down_to_def)
next
  case (Suc n)
  then obtain t' where t': "rfold (update_layer H) (rev [Suc (h - n)..<Suc h]) (hasher_new, t) = Inr (hasher_new, t')"
      "hashed_down_to H h t (h - n) t'" by auto
  define l where "l = h - Suc n"
  have l: "h - n = Suc l" "Suc l \<le> h" "h - Suc n = l" using Suc.prems by (simp_all add: l_def)
  have ok: "mt_ok h t'" using t'(2) by (simp add: hashed_down_to_def)
  have "[Suc l..<Suc h] = Suc l # [Suc (Suc l)..<Suc h]" using l by (simp add: upt_conv_Cons)
  then show ?case
    using t' update_layer_prefix [OF ok l(2), of H] hashed_down_step [of H h t l t'] l
    by (simp add: rfold_append)
qed

lemma mt_update_hashes:
  assumes "mt_ok h t"
  shows "\<exists>t'. mt_update H hasher_new t = Inr (hasher_new, t') \<and> hashed_down_to H h t 0 t'"
  using update_layers_down [OF assms order.refl, of H] tree_height_ok [OF assms]
  by (simp add: mt_update_def)

text \<open>
  C18: Updating a tree of height at most 30 succeeds and sets every node, the root included, to
  the merkle hash of the leaves below it; the leaves are unchanged and the hasher is left reset.
\<close>

theorem merkle_update_correct:
  assumes "mt_ok h t"
  shows "\<exists>t'. mt_update H hasher_new t = Inr (hasher_new, t') \<and> mt_ok h t' \<and>
    mt_root t' = Inr (merkle_hash H (\<lambda>j. t ! flat h j) h 0) \<and>
    (\<forall>k i. k \<le> h \<longrightarrow> i < 2 ^ k \<longrightarrow>
       get_node t' k i = Inr (merkle_hash H (\<lambda>j. t ! flat h j) (h - k) i))"
proof -
  obtain t' where t': "mt_update H hasher_new t = Inr (hasher_new, t')" "hashed_down_to H h t 0 t'"
    using mt_update_hashes [OF assms] by blast
  then have ok: "mt_ok h t'" by (simp add: hashed_down_to_def)
  have node: "get_node t' k i = Inr (merkle_hash H (\<lambda>j. t ! flat h j) (h - k) i)"
    if "k \<le> h" "i < 2 ^ k" for k i
    using node_access(1) [OF ok that] t'(2) that by (simp add: hashed_down_to_def)
  have "t' ! flat 0 0 = merkle_hash H (\<lambda>j. t ! flat h j) h 0"
    using t'(2) by (simp add: hashed_down_to_def)
  moreover have "t' \<noteq> []" using flat_bound [OF ok, of 0 0] by auto
  ultimately have "mt_root t' = Inr (merkle_hash H (\<lambda>j. t ! flat h j) h 0)"
    by (cases t') (simp_all add: mt_root_def flat_def)
  with t'(1) ok node show ?thesis by blast
qed

theorem merkle_update_correct_witness:
  "\<exists>t'. mt_update (take 1) hasher_new [[], [1], [2 :: byte]] = Inr (hasher_new, t') \<and> mt_root t' = Inr [1]"
proof -
  have "mt_ok 1 [[], [1], [2 :: byte]]" by (simp add: mt_ok_def)
  from merkle_update_correct [OF this, of "take 1"] show ?thesis
    by (auto simp: flat_def)
qed

text \<open>
  The multi-buffer update stores the digest of a pair under the parent of its left node,
  which is one place too low for every pair but the first: in a tree of four leaves the second
  inner node keeps its old value and the root is the hash of the second pair and that old value.
\<close>

theorem merkle_multi_buffer_wrong_parent:
  "\<exists>js. mt_update_mb H [] [r, x, y, a, b, c, d]
     = Inr (js, [H (H (c @ d) @ y), H (c @ d), y, a, b, c, d])"
proof -
  have ok: "mt_ok 2 [r, x, y, a, b, c, d]" for r x y a b c d :: hash by (simp add: mt_ok_def)
  have height: "tree_height [r, x, y, a, b, c, d] = 2" for r x y a b c d :: hash
    by (rule tree_height_ok [OF ok])
  have get: "get_node [r, x, y, a, b, c, d] 2 0 = Inr a" "get_node [r, x, y, a, b, c, d] 2 1 = Inr b"
    "get_node [r, x, y, a, b, c, d] 2 2 = Inr c" "get_node [r, x, y, a, b, c, d] 2 3 = Inr d"
    "get_node [r, x, y, a, b, c, d] 1 0 = Inr x" "get_node [r, x, y, a, b, c, d] 1 1 = Inr y"
    for r x y a b c d :: hash
    using node_access(1) [OF ok] by (simp_all add: flat_def)
  have set: "set_node 1 0 v [r, x, y, a, b, c, d] = Inr [r, v, y, a, b, c, d]"
    "set_node 0 0 v [r, x, y, a, b, c, d] = Inr [v, x, y, a, b, c, d]" for v r x y a b c d :: hash
    using node_access(2) [OF ok] by (simp_all add: flat_def)
  have n: "nodes_in_layer 1 = 2" "nodes_in_layer 2 = 4" by (simp_all add: layer_arith)
  have upt: "[0..<2] = [0, 1]" "[0..<1] = [0]" "rev [1..<Suc 2] = [2, 1]" by (simp_all add: upt_rec)
  have div: "(4::nat) div 2 = 2" "(2::nat) div 2 = 1" "(4::nat) mod 2 = 0" "(2::nat) mod 2 = 0"
    "mt_parent 0 = 0" "mt_parent 2 = 0" "2 + 1 = (3::nat)" "0 + 1 = (1::nat)"
    "2 * 0 = (0::nat)" "2 * 1 = (2::nat)" "2 - 1 = (1::nat)" "1 - 1 = (0::nat)"
    by (simp_all add: mt_parent_def)
  have resize: "mb_resize 2 [] = [Fresh, Fresh]" "mb_resize 1 [j, k] = [j]" for j k
    by (simp_all add: mb_resize_def numeral_2_eq_2)
  have jobs: "mb_submit_first 0 m [j, k] = Inr [Running m, k]" "mb_submit_first 1 m [j, k] = Inr [j, Running m]"
    "mb_submit_last 0 m [Running p, k] = Inr [Complete (p @ m), k]"
    "mb_submit_last 1 m [j, Running p] = Inr [j, Complete (p @ m)]"
    "mb_finalize H 0 [Complete p, k] = Inr (H p)" "mb_finalize H 1 [j, Complete p] = Inr (H p)"
    "mb_submit_first 0 m [j] = Inr [Running m]" "mb_submit_last 0 m [Running p] = Inr [Complete (p @ m)]"
    "mb_finalize H 0 [Complete p] = Inr (H p)" for m p j k
    by (simp_all add: mb_defs expects_def)
  have step2: "update_layer_mb H 2 ([], [r, x, y, a, b, c, d])
      = Inr ([Complete (a @ b), Complete (c @ d)], [r, H (c @ d), y, a, b, c, d])"
    by (simp only: update_layer_mb_def Let_def prod.case n div upt resize rfold.simps rbind.simps get jobs
        set expects_def if_True simp_thms)
  have step1: "update_layer_mb H 1 ([Complete (a @ b), Complete (c @ d)], [r, H (c @ d), y, a, b, c, d])
      = Inr ([Complete (H (c @ d) @ y)], [H (H (c @ d) @ y), H (c @ d), y, a, b, c, d])"
    by (simp only: update_layer_mb_def Let_def prod.case n div upt resize rfold.simps rbind.simps get jobs
        set expects_def if_True simp_thms)
  show ?thesis
    unfolding mt_update_mb_def height upt rfold.simps step2 rbind.simps step1 by simp
qed

end
