(* ===== verification/Chunk_Hashers.thy ===== *)
theory Chunk_Hashers
  imports File_Storage Hasher
begin

text \<open>
  The hashing of one chunk of file data: \<^verbatim>\<open>v1_chunk_hasher_sb.cpp\<close>, \<^verbatim>\<open>v1_chunk_hasher_mb.cpp\<close>,
  \<^verbatim>\<open>v2_chunk_hasher_sb.cpp\<close> and \<^verbatim>\<open>v2_chunk_hasher_mb.cpp\<close>, over the shared members of
  \<^verbatim>\<open>chunk_processor_base\<close>: the two byte counters and the two output queues, which are absent
  until they are registered. \<open>H1\<close> and \<open>H2\<close> are SHA-1 and SHA-256.
\<close>

section \<open>Chunks, hashed pieces and the state of a hasher\<close>

record data_chunk =
  dc_piece_index :: nat
  dc_file_index :: nat
  dc_data :: "byte list option"

record v1_hashed_piece =
  hp1_hash :: hash
  hp1_index :: nat

record v2_hashed_piece =
  hp2_hash :: hash
  hp2_file_index :: nat
  hp2_leaf_index :: nat

record chunk_hasher =
  ch_bytes_hashed :: nat
  ch_bytes_done :: nat
  ch_v1_queue :: "v1_hashed_piece list option"
  ch_v2_queue :: "v2_hashed_piece list option"

definition add_done :: "nat \<Rightarrow> chunk_hasher \<Rightarrow> chunk_hasher" where
  "add_done n s = s\<lparr>ch_bytes_done := size_add (ch_bytes_done s) n\<rparr>"

definition add_hashed :: "nat \<Rightarrow> chunk_hasher \<Rightarrow> chunk_hasher" where
  "add_hashed n s = s\<lparr>ch_bytes_hashed := size_add (ch_bytes_hashed s) n\<rparr>"

definition push_v1_piece :: "nat \<Rightarrow> hash \<Rightarrow> chunk_hasher \<Rightarrow> chunk_hasher result" where
  "push_v1_piece idx h s =
     (case ch_v1_queue s of
        None \<Rightarrow> Inl Contract
      | Some q \<Rightarrow> Inr (s\<lparr>ch_v1_queue := Some (q @ [\<lparr>hp1_hash = h, hp1_index = idx\<rparr>])\<rparr>))"

definition push_v2_leaf :: "nat \<Rightarrow> nat \<Rightarrow> hash \<Rightarrow> chunk_hasher \<Rightarrow> chunk_hasher result" where
  "push_v2_leaf leaf_idx file_idx h s =
     (case ch_v2_queue s of
        None \<Rightarrow> Inl Contract
      | Some q \<Rightarrow>
          Inr (s\<lparr>ch_v2_queue := Some (q @ [\<lparr>hp2_hash = h, hp2_file_index = file_idx, hp2_leaf_index = leaf_idx\<rparr>])\<rparr>))"

definition digest_of :: "digest_function \<Rightarrow> byte list \<Rightarrow> hasher \<Rightarrow> hash \<times> hasher" where
  "digest_of H data h = hasher_finalize H (hasher_update data h)"

section \<open>v1 chunks\<close>

definition hash_chunk_v1_sb ::
    "digest_function \<Rightarrow> nat \<Rightarrow> data_chunk \<Rightarrow> hasher \<times> chunk_hasher \<Rightarrow> (hasher \<times> chunk_hasher) result" where
  "hash_chunk_v1_sb H1 piece_size chunk hs =
     (let (h, s) = hs in
      case dc_data chunk of
        None \<Rightarrow> Inr (h, add_done piece_size s)
      | Some data \<Rightarrow>
          let pieces_in_chunk = ceil_div (length data) piece_size in
          rbind (expects (1 \<le> pieces_in_chunk)) (\<lambda>_.
          rbind (rfold (\<lambda>i (h, s).
                   let (piece_hash, h') = digest_of H1 (block_of piece_size data i) h
                   in rbind (push_v1_piece (dc_piece_index chunk + i) piece_hash s) (\<lambda>s'.
                        Inr (h', add_done piece_size s')))
                 [0..<pieces_in_chunk - 1] (h, s)) (\<lambda>(h, s).
          let i = pieces_in_chunk - 1;
              final_piece = drop (i * piece_size) data;
              (piece_hash, h') = digest_of H1 final_piece h
          in rbind (push_v1_piece (dc_piece_index chunk + i) piece_hash s) (\<lambda>s'.
               Inr (h', add_hashed (length data) (add_done (length final_piece) s'))))))"

definition hash_chunk_v1_mb ::
    "digest_function \<Rightarrow> nat \<Rightarrow> data_chunk \<Rightarrow> multi_hasher \<times> chunk_hasher \<Rightarrow>
      (multi_hasher \<times> chunk_hasher) result" where
  "hash_chunk_v1_mb H1 piece_size chunk hs =
     (let (js, s) = hs in
      case dc_data chunk of
        None \<Rightarrow> Inr (js, add_done piece_size s)
      | Some data \<Rightarrow>
          let pieces_in_chunk = ceil_div (length data) piece_size;
              js = mb_resize pieces_in_chunk js in
          rbind (expects (1 \<le> pieces_in_chunk)) (\<lambda>_.
          rbind (rfold (\<lambda>i js. mb_submit i (block_of piece_size data i) js) [0..<pieces_in_chunk - 1] js) (\<lambda>js.
          let i = pieces_in_chunk - 1 in
          rbind (mb_submit i (drop (i * piece_size) data) js) (\<lambda>js.
          rbind (rfold (\<lambda>i s. rbind (mb_finalize H1 i js) (\<lambda>piece_hash.
                          push_v1_piece (dc_piece_index chunk + i) piece_hash s))
                   [0..<pieces_in_chunk] s) (\<lambda>s.
            Inr (js, add_hashed (length data) (add_done (length data) s)))))))"

section \<open>v2 and hybrid chunks\<close>

definition initialize_v1_offsets :: "file_storage \<Rightarrow> nat list" where
  "initialize_v1_offsets st =
     fold (\<lambda>e offs. offs @
            [if fe_is_padding_file e then last offs
             else last offs + ceil_div (fe_file_size e) (st_piece_size st)])
       (st_files st) [0]"

definition push_compat_piece :: "nat list \<Rightarrow> nat \<Rightarrow> nat \<Rightarrow> hash \<Rightarrow> chunk_hasher \<Rightarrow> chunk_hasher result" where
  "push_compat_piece offsets file_idx piece_idx h s =
     (if ch_v1_queue s = None then Inl Contract
      else if file_idx < length offsets then push_v1_piece (offsets ! file_idx + piece_idx) h s
      else Inl Undefined)"

text \<open>Whether the last, partial piece of a file is filled up with zero bytes.\<close>

definition compat_padded :: "file_storage \<Rightarrow> nat \<Rightarrow> bool result" where
  "compat_padded st file_idx =
     (if file_idx + 1 < size_sub (st_file_count st) 1
      then rbind (st_at st (file_idx + 1)) (\<lambda>e. rbind (expects (fe_is_padding_file e)) (\<lambda>_. Inr True))
      else Inr False)"

definition compat_chunk_sb ::
    "digest_function \<Rightarrow> file_storage \<Rightarrow> nat list \<Rightarrow> data_chunk \<Rightarrow> byte list \<Rightarrow>
      hasher \<times> chunk_hasher \<Rightarrow> (hasher \<times> chunk_hasher) result" where
  "compat_chunk_sb H1 st offsets chunk data hs =
     (let piece_size = st_piece_size st;
          f = dc_file_index chunk;
          pieces_in_chunk = ceil_div (length data) piece_size;
          needs_padding = (length data mod piece_size \<noteq> 0);
          pieces_to_process = (if needs_padding then pieces_in_chunk - 1 else pieces_in_chunk) in
      rbind (rfold (\<lambda>i (h, s).
               let (piece_hash, h') = digest_of H1 (block_of piece_size data i) h
               in rbind (push_compat_piece offsets f (dc_piece_index chunk + i) piece_hash s) (\<lambda>s'.
                    Inr (h', add_hashed piece_size s')))
             [0..<pieces_to_process] hs) (\<lambda>(h, s).
        if \<not> needs_padding then Inr (h, s)
        else
          let i = pieces_to_process; final_piece = drop (i * piece_size) data in
          rbind (compat_padded st f) (\<lambda>padded.
          let padding = (if padded then replicate (piece_size - length final_piece) 0 else []);
              (piece_hash, h') = hasher_finalize H1 (hasher_update padding (hasher_update final_piece h))
          in rbind (push_compat_piece offsets f (dc_piece_index chunk + i) piece_hash s) (\<lambda>s'.
               Inr (h', add_hashed (length final_piece + length padding) s')))))"

definition hash_chunk_v2_sb ::
    "digest_function \<Rightarrow> digest_function \<Rightarrow> file_storage \<Rightarrow> bool \<Rightarrow> nat list \<Rightarrow> data_chunk \<Rightarrow>
      (hasher \<times> hasher) \<times> chunk_hasher \<Rightarrow> ((hasher \<times> hasher) \<times> chunk_hasher) result" where
  "hash_chunk_v2_sb H2 H1 st add_v1_compatibility offsets chunk hs =
     (let ((h2, h1), s) = hs; f = dc_file_index chunk in
      rbind (expects (f < st_file_count st)) (\<lambda>_.
      case dc_data chunk of
        None \<Rightarrow> rbind (st_get st f) (\<lambda>e. Inr ((h2, h1), add_done (fe_file_size e) s))
      | Some data \<Rightarrow>
          rbind (div_ceil (length data) v2_block_size) (\<lambda>blocks_in_chunk.
          let index_offset = dc_piece_index chunk * st_piece_size st div v2_block_size in
          rbind (rfold (\<lambda>i (h2, s).
                   let (leaf, h2') = digest_of H2 (block_of v2_block_size data i) h2
                   in rbind (push_v2_leaf (index_offset + i) f leaf s) (\<lambda>s'.
                        Inr (h2', add_hashed v2_block_size s')))
                 [0..<blocks_in_chunk - 1] (h2, s)) (\<lambda>(h2, s).
          let i = blocks_in_chunk - 1;
              final_block = drop (i * v2_block_size) data;
              (leaf, h2') = digest_of H2 final_block h2 in
          rbind (push_v2_leaf (index_offset + i) f leaf (add_hashed (length final_block) s)) (\<lambda>s.
          rbind (if add_v1_compatibility then compat_chunk_sb H1 st offsets chunk data (h1, s) else Inr (h1, s))
            (\<lambda>(h1', s). Inr ((h2', h1'), add_done (length data) s)))))))"

definition compat_chunk_mb ::
    "digest_function \<Rightarrow> file_storage \<Rightarrow> nat list \<Rightarrow> data_chunk \<Rightarrow> byte list \<Rightarrow>
      multi_hasher \<times> chunk_hasher \<Rightarrow> (multi_hasher \<times> chunk_hasher) result" where
  "compat_chunk_mb H1 st offsets chunk data hs =
     (let (js, s) = hs;
          piece_size = st_piece_size st;
          f = dc_file_index chunk;
          pieces_in_chunk = ceil_div (length data) piece_size;
          needs_padding = (length data mod piece_size \<noteq> 0);
          pieces_to_process = (if needs_padding then pieces_in_chunk - 1 else pieces_in_chunk);
          js = mb_resize pieces_in_chunk js in
      rbind (rfold (\<lambda>i js. mb_submit i (block_of piece_size data i) js) [0..<pieces_to_process] js) (\<lambda>js.
      rbind (if needs_padding then
               let i = pieces_to_process; final_piece = drop (i * piece_size) data in
               rbind (compat_padded st f) (\<lambda>padded.
                 if padded then
                   rbind (mb_submit_first i final_piece js) (\<lambda>js.
                     mb_submit_last i (replicate (piece_size - length final_piece) 0) js)
                 else mb_submit i final_piece js)
             else Inr js) (\<lambda>js.
      rbind (rfold (\<lambda>i s. rbind (mb_finalize H1 i js) (\<lambda>piece_hash.
                      push_compat_piece offsets f (dc_piece_index chunk + i) piece_hash s))
               [0..<pieces_in_chunk] s) (\<lambda>s.
        Inr (js, add_hashed (length data) s)))))"

definition hash_chunk_v2_mb ::
    "digest_function \<Rightarrow> digest_function \<Rightarrow> file_storage \<Rightarrow> bool \<Rightarrow> nat list \<Rightarrow> data_chunk \<Rightarrow>
      (multi_hasher \<times> multi_hasher) \<times> chunk_hasher \<Rightarrow> ((multi_hasher \<times> multi_hasher) \<times> chunk_hasher) result" where
  "hash_chunk_v2_mb H2 H1 st add_v1_compatibility offsets chunk hs =
     (let ((js2, js1), s) = hs; f = dc_file_index chunk in
      rbind (expects (f < st_file_count st)) (\<lambda>_.
      case dc_data chunk of
        None \<Rightarrow> rbind (st_get st f) (\<lambda>e. Inr ((js2, js1), add_done (fe_file_size e) s))
      | Some data \<Rightarrow>
          let blocks_in_chunk = ceil_div (length data) v2_block_size;
              index_offset = dc_piece_index chunk * st_piece_size st div v2_block_size;
              js2 = mb_resize blocks_in_chunk js2 in
          rbind (if 0 < blocks_in_chunk then
                   rbind (rfold (\<lambda>i js. mb_submit i (block_of v2_block_size data i) js) [0..<blocks_in_chunk - 1] js2)
                     (\<lambda>js. mb_submit (blocks_in_chunk - 1) (drop ((blocks_in_chunk - 1) * v2_block_size) data) js)
                 else Inr js2) (\<lambda>js2.
          rbind (rfold (\<lambda>i s. rbind (mb_finalize H2 i js2) (\<lambda>leaf.
                          rbind (push_v2_leaf (index_offset + i) f leaf s) (\<lambda>s. Inr (add_hashed v2_block_size s))))
                   [0..<blocks_in_chunk] s) (\<lambda>s.
          rbind (if add_v1_compatibility then compat_chunk_mb H1 st offsets chunk data (js1, s) else Inr (js1, s))
            (\<lambda>(js1, s). Inr ((js2, js1), add_done (length data) s))))))"

section \<open>What hashing a chunk produces\<close>

definition ch_ok :: "chunk_hasher \<Rightarrow> bool" where
  "ch_ok s \<longleftrightarrow> ch_bytes_hashed s < size_bound \<and> ch_bytes_done s < size_bound"

definition v1_pieces :: "digest_function \<Rightarrow> nat \<Rightarrow> byte list list \<Rightarrow> v1_hashed_piece list" where
  "v1_pieces H base bs = map (\<lambda>i. \<lparr>hp1_hash = H (bs ! i), hp1_index = base + i\<rparr>) [0..<length bs]"

definition v2_leaves :: "digest_function \<Rightarrow> nat \<Rightarrow> nat \<Rightarrow> byte list list \<Rightarrow> v2_hashed_piece list" where
  "v2_leaves H f base bs =
     map (\<lambda>i. \<lparr>hp2_hash = H (bs ! i), hp2_file_index = f, hp2_leaf_index = base + i\<rparr>) [0..<length bs]"

lemma v1_pieces_snoc:
  "v1_pieces H base (bs @ [b]) = v1_pieces H base bs @ [\<lparr>hp1_hash = H b, hp1_index = base + length bs\<rparr>]"
  by (simp add: v1_pieces_def nth_append)

lemma v2_leaves_snoc:
  "v2_leaves H f base (bs @ [b])
     = v2_leaves H f base bs @ [\<lparr>hp2_hash = H b, hp2_file_index = f, hp2_leaf_index = base + length bs\<rparr>]"
  by (simp add: v2_leaves_def nth_append)

lemma v1_pieces_Nil [simp]: "v1_pieces H base [] = []" and v2_leaves_Nil [simp]: "v2_leaves H f base [] = []"
  by (simp_all add: v1_pieces_def v2_leaves_def)

lemma digest_of_new [simp]: "digest_of H data hasher_new = (H data, hasher_new)"
  by (simp add: digest_of_def hasher_defs)

lemma take_blocks: "m \<le> ceil_div (length xs) n \<Longrightarrow> take m (blocks n xs) = map (block_of n xs) [0..<m]"
  by (simp add: blocks_def take_map)

lemma blocks_unsnoc:
  assumes "0 < n" "xs \<noteq> []"
  shows "blocks n xs = map (block_of n xs) [0..<ceil_div (length xs) n - 1] @ [drop ((ceil_div (length xs) n - 1) * n) xs]"
    and "0 < ceil_div (length xs) n"
proof -
  show pos: "0 < ceil_div (length xs) n" using assms by (simp add: ceil_div_pos_iff)
  then obtain k where k: "ceil_div (length xs) n = Suc k" by (cases "ceil_div (length xs) n") auto
  show "blocks n xs = map (block_of n xs) [0..<ceil_div (length xs) n - 1] @ [drop ((ceil_div (length xs) n - 1) * n) xs]"
    using last_block [OF assms(1) k] by (simp add: blocks_def k)
qed

text \<open>A chunk hasher after queueing v1 pieces, v2 leaves and counting bytes.\<close>

definition advanced :: "v1_hashed_piece list \<Rightarrow> v2_hashed_piece list \<Rightarrow> nat \<Rightarrow> nat \<Rightarrow> chunk_hasher \<Rightarrow> chunk_hasher" where
  "advanced ps ls done hashed s =
     s\<lparr>ch_v1_queue := map_option (\<lambda>q. q @ ps) (ch_v1_queue s),
        ch_v2_queue := map_option (\<lambda>q. q @ ls) (ch_v2_queue s),
        ch_bytes_done := size_add (ch_bytes_done s) done,
        ch_bytes_hashed := size_add (ch_bytes_hashed s) hashed\<rparr>"

lemma advanced_none: "ch_ok s \<Longrightarrow> advanced [] [] 0 0 s = s"
  by (cases "ch_v1_queue s"; cases "ch_v2_queue s") (simp_all add: advanced_def ch_ok_def)

lemma advanced_advanced:
  "advanced ps' ls' d' n' (advanced ps ls d n s) = advanced (ps @ ps') (ls @ ls') (d + d') (n + n') s"
  by (cases "ch_v1_queue s"; cases "ch_v2_queue s") (simp_all add: advanced_def size_add_assoc)

lemma ch_ok_advanced [simp]: "ch_ok (advanced ps ls d n s)"
  by (simp add: advanced_def ch_ok_def)

lemma add_counters:
  assumes "ch_ok s"
  shows "add_done n s = advanced [] [] n 0 s" "add_hashed n s = advanced [] [] 0 n s"
  using assms
  by (cases "ch_v1_queue s"; cases "ch_v2_queue s"; simp add: add_done_def add_hashed_def advanced_def ch_ok_def)+

lemma push_v1_advanced:
  assumes "ch_ok s" "ch_v1_queue s \<noteq> None"
  shows "push_v1_piece idx h s = Inr (advanced [\<lparr>hp1_hash = h, hp1_index = idx\<rparr>] [] 0 0 s)"
  using assms by (cases "ch_v2_queue s") (auto simp: push_v1_piece_def advanced_def ch_ok_def)

lemma push_v2_advanced:
  assumes "ch_ok s" "ch_v2_queue s \<noteq> None"
  shows "push_v2_leaf idx f h s = Inr (advanced [] [\<lparr>hp2_hash = h, hp2_file_index = f, hp2_leaf_index = idx\<rparr>] 0 0 s)"
  using assms by (cases "ch_v1_queue s") (auto simp: push_v2_leaf_def advanced_def ch_ok_def)

lemma advanced_queues [simp]:
  "ch_v1_queue (advanced ps ls d n s) = None \<longleftrightarrow> ch_v1_queue s = None"
  "ch_v2_queue (advanced ps ls d n s) = None \<longleftrightarrow> ch_v2_queue s = None"
  by (simp_all add: advanced_def)

lemma v1_piece_loop:
  assumes "ch_ok s" "ch_v1_queue s \<noteq> None"
  shows "rfold (\<lambda>i (h, s).
           let (piece_hash, h') = digest_of H (b i) h
           in rbind (push_v1_piece (base + i) piece_hash s) (\<lambda>s'. Inr (h', add_done ps s')))
         [0..<m] (hasher_new, s)
    = Inr (hasher_new, advanced (v1_pieces H base (map b [0..<m])) [] (m * ps) 0 s)"
proof (induction m)
  case 0
  then show ?case using advanced_none [OF assms(1)] by simp
next
  case (Suc m)
  then show ?case
    using assms
    by (simp add: rfold_append push_v1_advanced add_counters advanced_advanced v1_pieces_snoc add.commute)
qed

lemma mb_submit_messages:
  assumes "n \<noteq> 0" "length js = n"
  shows "rbind (rfold (\<lambda>i js. mb_submit i (b i) js) [0..<n - 1] js) (\<lambda>js. mb_submit (n - 1) l js)
    = Inr (map Complete (map b [0..<n - 1] @ [l]))"
proof -
  obtain k where n: "n = Suc k" using assms(1) by (cases n) auto
  let ?ds = "map b [0..<k] @ [l]"
  have "rfold (\<lambda>i js. mb_submit i (?ds ! i) js) [0..<k] js = rfold (\<lambda>i js. mb_submit i (b i) js) [0..<k] js"
    by (rule rfold_cong) (simp_all add: nth_append)
  then have "rfold (\<lambda>i js. mb_submit i (b i) js) [0..<k] js = Inr (map Complete (take k ?ds) @ drop k js)"
    using mb_submit_all [of js ?ds k] assms(2) by (simp add: n)
  moreover obtain j where "drop k js = [j]"
    using assms(2) n by (cases "drop k js") (auto simp: drop_eq_Nil dest: arg_cong [of _ _ length])
  ultimately show ?thesis
    using assms(2) by (simp add: n mb_submit_def expects_def list_update_append)
qed

lemma mb_finalize_complete:
  "i < length ds \<Longrightarrow> mb_finalize H i (map Complete ds) = Inr (H (ds ! i))"
  by (simp add: mb_finalize_def expects_def)

lemma length_drop_last:
  "0 < n \<Longrightarrow> xs \<noteq> [] \<Longrightarrow>
     (ceil_div (length xs) n - 1) * n + length (drop ((ceil_div (length xs) n - 1) * n) xs) = length xs"
proof -
  assume n: "0 < n" and xs: "xs \<noteq> []"
  obtain k where k: "ceil_div (length xs) n = Suc k"
    using blocks_unsnoc(2) [OF n xs] by (cases "ceil_div (length xs) n") auto
  have "\<not> length xs \<le> k * n" using ceil_div_le_iff [OF n, of "length xs" k] k by simp
  then show ?thesis using k by simp
qed

lemma hash_chunk_v1_sb_run:
  assumes "dc_data c = Some data" "data \<noteq> []" "0 < ps" "ch_ok s" "ch_v1_queue s \<noteq> None"
  shows "hash_chunk_v1_sb H ps c (hasher_new, s)
    = Inr (hasher_new, advanced (v1_pieces H (dc_piece_index c) (blocks ps data)) [] (length data) (length data) s)"
proof -
  obtain k where k: "ceil_div (length data) ps = Suc k"
    using blocks_unsnoc(2) [OF assms(3,2)] by (cases "ceil_div (length data) ps") auto
  have bl: "blocks ps data = map (block_of ps data) [0..<k] @ [drop (k * ps) data]"
    using blocks_unsnoc(1) [OF assms(3,2)] by (simp add: k)
  have len: "k * ps + (length data - k * ps) = length data"
    using length_drop_last [OF assms(3,2)] by (simp add: k)
  note loop = v1_piece_loop [OF assms(4,5), of H "block_of ps data" "dc_piece_index c" ps k]
  show ?thesis
    unfolding bl v1_pieces_snoc hash_chunk_v1_sb_def Let_def assms(1) k diff_Suc_1 prod.case option.case loop [unfolded Let_def]
    using assms(4,5) len
    by (simp del: not_None_eq add: push_v1_advanced add_counters advanced_advanced)
qed

lemma v1_finalize_loop:
  assumes "ch_ok s" "ch_v1_queue s \<noteq> None" "m \<le> length ds"
  shows "rfold (\<lambda>i s. rbind (mb_finalize H i (map Complete ds)) (\<lambda>h. push_v1_piece (base + i) h s)) [0..<m] s
    = Inr (advanced (v1_pieces H base (take m ds)) [] 0 0 s)"
  using assms(3)
proof (induction m)
  case 0
  then show ?case using advanced_none [OF assms(1)] by simp
next
  case (Suc m)
  then have "take (Suc m) ds = take m ds @ [ds ! m]" by (simp add: take_Suc_conv_app_nth)
  with Suc assms show ?case
    by (simp add: rfold_append mb_finalize_complete push_v1_advanced advanced_advanced v1_pieces_snoc)
qed

lemma hash_chunk_v1_mb_run:
  assumes "dc_data c = Some data" "data \<noteq> []" "0 < ps" "ch_ok s" "ch_v1_queue s \<noteq> None"
  shows "hash_chunk_v1_mb H ps c (js, s)
    = Inr (map Complete (blocks ps data),
           advanced (v1_pieces H (dc_piece_index c) (blocks ps data)) [] (length data) (length data) s)"
proof -
  define n where "n = ceil_div (length data) ps"
  have n: "n \<noteq> 0" using blocks_unsnoc(2) [OF assms(3,2)] by (simp add: n_def)
  have bl: "map (block_of ps data) [0..<n - 1] @ [drop ((n - 1) * ps) data] = blocks ps data"
    using blocks_unsnoc(1) [OF assms(3,2)] by (simp add: n_def)
  have "rbind (rfold (\<lambda>i js. mb_submit i (block_of ps data i) js) [0..<n - 1] (mb_resize n js))
      (\<lambda>js. mb_submit (n - 1) (drop ((n - 1) * ps) data) js) = Inr (map Complete (blocks ps data))"
    using mb_submit_messages [OF n, of "mb_resize n js" "block_of ps data" "drop ((n - 1) * ps) data"]
    by (simp only: bl length_mb_resize simp_thms)
  then obtain js' where js': "rfold (\<lambda>i js. mb_submit i (block_of ps data i) js) [0..<n - 1] (mb_resize n js) = Inr js'"
      "mb_submit (n - 1) (drop ((n - 1) * ps) data) js' = Inr (map Complete (blocks ps data))"
    by (auto simp: result_simps)
  have "rfold (\<lambda>i s. rbind (mb_finalize H i (map Complete (blocks ps data)))
      (\<lambda>h. push_v1_piece (dc_piece_index c + i) h s)) [0..<n] s
      = Inr (advanced (v1_pieces H (dc_piece_index c) (blocks ps data)) [] 0 0 s)"
    using v1_finalize_loop [OF assms(4,5), of n "blocks ps data" H "dc_piece_index c"] by (simp add: n_def)
  then show ?thesis
    using n js' assms
    by (simp add: hash_chunk_v1_mb_def expects_def Let_def add_counters advanced_advanced flip: n_def)
qed

text \<open>
  C15: Hashing a v1 chunk queues, in order, the digest of every piece of the chunk under its piece
  index and counts the bytes of the chunk; the single-buffer and the multi-buffer hasher do the
  same.
\<close>

theorem v1_chunk_hashers_agree:
  assumes "dc_data c = Some data" "data \<noteq> []" "0 < ps" "ch_ok s" "ch_v1_queue s = Some q"
  shows "\<exists>js' s'. hash_chunk_v1_sb H ps c (hasher_new, s) = Inr (hasher_new, s') \<and>
    hash_chunk_v1_mb H ps c (js, s) = Inr (js', s') \<and>
    ch_v1_queue s' = Some (q @ v1_pieces H (dc_piece_index c) (blocks ps data)) \<and>
    ch_bytes_done s' = size_add (ch_bytes_done s) (length data)"
proof -
  have q: "ch_v1_queue s \<noteq> None" using assms(5) by simp
  show ?thesis
    using hash_chunk_v1_sb_run [OF assms(1-4) q] hash_chunk_v1_mb_run [OF assms(1-4) q] assms(5)
    by (simp add: advanced_def)
qed

definition sample_hasher :: chunk_hasher where
  "sample_hasher = \<lparr>ch_bytes_hashed = 0, ch_bytes_done = 0, ch_v1_queue = Some [], ch_v2_queue = Some []\<rparr>"

lemma sample_hasher_ok [simp]: "ch_ok sample_hasher" "ch_v1_queue sample_hasher = Some []"
  "ch_v2_queue sample_hasher = Some []"
  by (simp_all add: ch_ok_def sample_hasher_def size_bound_def)

theorem v1_chunk_hashers_agree_witness:
  "\<exists>js' s'. hash_chunk_v1_mb (take 1) 2 \<lparr>dc_piece_index = 4, dc_file_index = 0, dc_data = Some [7, 8, 9]\<rparr>
     ([], sample_hasher) = Inr (js', s') \<and>
   ch_v1_queue s' = Some [\<lparr>hp1_hash = [7], hp1_index = 4\<rparr>, \<lparr>hp1_hash = [9], hp1_index = 5\<rparr>]"
proof -
  have "v1_pieces (take 1) 4 (blocks 2 [7, 8, 9 :: byte])
      = [\<lparr>hp1_hash = [7], hp1_index = 4\<rparr>, \<lparr>hp1_hash = [9], hp1_index = 5\<rparr>]"
    by (simp add: v1_pieces_def blocks_def ceil_div_def block_of_def upt_rec)
  with v1_chunk_hashers_agree [of "\<lparr>dc_piece_index = 4, dc_file_index = 0, dc_data = Some [7, 8, 9]\<rparr>"
      "[7, 8, 9]" 2 sample_hasher "[]" "take 1" "[]"]
  show ?thesis by auto
qed

section \<open>v2 chunks: the two hashers\<close>

text \<open>The v1 pieces a hybrid chunk stands for: the last one padded when the code pads it.\<close>

definition compat_blocks :: "nat \<Rightarrow> bool \<Rightarrow> byte list \<Rightarrow> byte list list" where
  "compat_blocks ps padded data =
     (let bs = blocks ps data in
      if length data mod ps \<noteq> 0 \<and> padded
      then butlast bs @ [last bs @ replicate (ps - length (last bs)) 0] else bs)"

lemma push_compat_advanced:
  assumes "ch_ok s" "ch_v1_queue s \<noteq> None" "f < length offsets"
  shows "push_compat_piece offsets f i h s
    = Inr (advanced [\<lparr>hp1_hash = h, hp1_index = offsets ! f + i\<rparr>] [] 0 0 s)"
  using assms by (simp add: push_compat_piece_def push_v1_advanced)

lemma compat_piece_loop:
  assumes "ch_ok s" "ch_v1_queue s \<noteq> None" "f < length offsets"
  shows "rfold (\<lambda>i (h, s).
           let (piece_hash, h') = digest_of H (b i) h
           in rbind (push_compat_piece offsets f (base + i) piece_hash s) (\<lambda>s'. Inr (h', add_hashed ps s')))
         [0..<m] (hasher_new, s)
    = Inr (hasher_new, advanced (v1_pieces H (offsets ! f + base) (map b [0..<m])) [] 0 (m * ps) s)"
proof (induction m)
  case 0
  then show ?case using advanced_none [OF assms(1)] by simp
next
  case (Suc m)
  then show ?case
    using assms
    by (simp add: rfold_append push_compat_advanced add_counters advanced_advanced v1_pieces_snoc
        ac_simps)
qed

lemma compat_finalize_loop:
  assumes "ch_ok s" "ch_v1_queue s \<noteq> None" "f < length offsets" "m \<le> length ds"
  shows "rfold (\<lambda>i s. rbind (mb_finalize H i (map Complete ds)) (\<lambda>h. push_compat_piece offsets f (base + i) h s)) [0..<m] s
    = Inr (advanced (v1_pieces H (offsets ! f + base) (take m ds)) [] 0 0 s)"
  using assms(4)
proof (induction m)
  case 0
  then show ?case using advanced_none [OF assms(1)] by simp
next
  case (Suc m)
  then have "take (Suc m) ds = take m ds @ [ds ! m]" by (simp add: take_Suc_conv_app_nth)
  with Suc assms show ?case
    by (simp add: rfold_append mb_finalize_complete push_compat_advanced advanced_advanced v1_pieces_snoc
        add.assoc)
qed

text \<open>The zero bytes hashed after a last, partial piece.\<close>

definition compat_padding :: "nat \<Rightarrow> bool \<Rightarrow> byte list \<Rightarrow> byte list" where
  "compat_padding ps padded data =
     (if length data mod ps \<noteq> 0 \<and> padded then replicate (ps - length data mod ps) 0 else [])"

lemma compat_blocks_exact:
  assumes "0 < ps" "length data mod ps = 0"
  shows "compat_blocks ps p data = map (block_of ps data) [0..<ceil_div (length data) ps]"
    and "ceil_div (length data) ps * ps = length data" and "compat_padding ps p data = []"
proof -
  obtain k where k: "length data = k * ps" using assms(2) by (auto simp: mod_eq_0_iff_dvd dvd_def mult.commute)
  then show "ceil_div (length data) ps * ps = length data" using assms(1) by simp
  show "compat_padding ps p data = []" using assms(2) by (simp add: compat_padding_def)
  show "compat_blocks ps p data = map (block_of ps data) [0..<ceil_div (length data) ps]"
    using assms(2) by (simp add: compat_blocks_def blocks_def)
qed

lemma compat_blocks_partial:
  assumes "0 < ps" "length data mod ps \<noteq> 0"
  obtains k where "ceil_div (length data) ps = Suc k" "k = length data div ps"
    "compat_blocks ps p data
      = map (block_of ps data) [0..<k] @ [drop (k * ps) data @ compat_padding ps p data]"
    "length data - k * ps = length data mod ps"
proof
  have ne: "data \<noteq> []" using assms(2) by auto
  have eq: "length data + ps - 1 = (length data mod ps + ps - 1) + length data div ps * ps"
    using assms(1) div_mult_mod_eq [of "length data" ps] by linarith
  have "(r + ps - 1) div ps = 1" if "0 < r" "r < ps" for r
    using that by (intro div_nat_eqI) auto
  then have "(length data mod ps + ps - 1) div ps = 1"
    using assms by simp
  moreover have "(length data + ps - 1) div ps = length data div ps + (length data mod ps + ps - 1) div ps"
    unfolding arg_cong [OF eq, of "\<lambda>x. x div ps"] by (rule div_mult_self1) (use assms(1) in simp)
  ultimately show k: "ceil_div (length data) ps = Suc (length data div ps)"
    by (simp only: ceil_div_def)
  show l: "length data - length data div ps * ps = length data mod ps"
    by (metis minus_div_mult_eq_mod)
  have "blocks ps data = map (block_of ps data) [0..<length data div ps] @ [drop (length data div ps * ps) data]"
    using blocks_unsnoc(1) [OF assms(1) ne] by (simp add: k)
  then show "compat_blocks ps p data = map (block_of ps data) [0..<length data div ps]
      @ [drop (length data div ps * ps) data @ compat_padding ps p data]"
    using assms(2) l by (simp add: compat_blocks_def compat_padding_def)
qed simp

lemma compat_chunk_sb_run:
  assumes "0 < st_piece_size st" "ch_ok s" "ch_v1_queue s \<noteq> None" "dc_file_index c < length offsets"
    "compat_padded st (dc_file_index c) = Inr p"
  shows "compat_chunk_sb H st offsets c data (hasher_new, s)
    = Inr (hasher_new, advanced (v1_pieces H (offsets ! dc_file_index c + dc_piece_index c)
                          (compat_blocks (st_piece_size st) p data)) [] 0
                        (length data + length (compat_padding (st_piece_size st) p data)) s)"
proof (cases "length data mod st_piece_size st = 0")
  case True
  note loop = compat_piece_loop [OF assms(2-4), of H "block_of (st_piece_size st) data" "dc_piece_index c"
      "st_piece_size st"]
  show ?thesis
    unfolding compat_chunk_sb_def Let_def loop [unfolded Let_def] compat_blocks_exact(1) [OF assms(1) True]
    using True compat_blocks_exact(2,3) [OF assms(1) True] loop [unfolded Let_def] by simp
next
  case False
  obtain k where k: "ceil_div (length data) (st_piece_size st) = Suc k" "k = length data div st_piece_size st"
    "compat_blocks (st_piece_size st) p data = map (block_of (st_piece_size st) data) [0..<k]
       @ [drop (k * st_piece_size st) data @ compat_padding (st_piece_size st) p data]"
    "length data - k * st_piece_size st = length data mod st_piece_size st"
    using compat_blocks_partial [OF assms(1) False] by metis
  note loop = compat_piece_loop [OF assms(2-4), of H "block_of (st_piece_size st) data" "dc_piece_index c"
      "st_piece_size st" k]
  have len: "k * st_piece_size st + (length data mod st_piece_size st + n) = length data + n" for n
    using div_mult_mod_eq [of "length data" "st_piece_size st"] by (simp only: k(2) add.assoc [symmetric])
  have pad: "(if p then replicate (st_piece_size st - length (drop (k * st_piece_size st) data)) 0 else [])
      = compat_padding (st_piece_size st) p data"
    using False by (simp add: compat_padding_def k(4))
  have fin: "hasher_finalize H (hasher_update y (hasher_update x hasher_new)) = (H (x @ y), hasher_new)" for x y
    by (simp add: hasher_defs)
  have ne: "(length data mod st_piece_size st \<noteq> 0) = True" using False by simp
  show ?thesis
    unfolding compat_chunk_sb_def Let_def k(1) diff_Suc_1 ne if_True rbind.simps(2) prod.case not_True_eq_False
      if_False loop [unfolded Let_def] assms(5) pad fin k(3) v1_pieces_snoc
    using assms(2-4)
    by (simp del: not_None_eq add: len k(4) push_compat_advanced add_counters advanced_advanced ac_simps)
qed

lemma mb_submit_prefix:
  assumes "m \<le> length js"
  shows "rfold (\<lambda>i js. mb_submit i (b i) js) [0..<m] js = Inr (map Complete (map b [0..<m]) @ drop m js)"
  using assms
proof (induction m)
  case (Suc m)
  then obtain j where "drop m js = j # drop (Suc m) js" by (metis Cons_nth_drop_Suc Suc_le_lessD)
  with Suc show ?case by (simp add: rfold_append mb_submit_def expects_def list_update_append)
qed simp

lemma mb_resize_last:
  obtains j where "drop k (mb_resize (Suc k) js) = [j]"
proof (cases "drop k (mb_resize (Suc k) js)")
  case Nil
  then show thesis using length_mb_resize [of "Suc k" js] by (simp only: drop_eq_Nil)
next
  case (Cons j l)
  then have "length (j # l) = 1" using length_mb_resize [of "Suc k" js] by (metis Suc_eq_plus1 diff_add_inverse length_drop add.commute)
  with Cons that show thesis by simp
qed

lemma compat_chunk_mb_submits:
  assumes "0 < st_piece_size st" "compat_padded st (dc_file_index c) = Inr p"
  shows "length (compat_blocks (st_piece_size st) p data) = ceil_div (length data) (st_piece_size st)"
    "compat_chunk_mb H st offsets c data (js, s) =
      rbind (rfold (\<lambda>i s. rbind (mb_finalize H i (map Complete (compat_blocks (st_piece_size st) p data)))
          (\<lambda>piece_hash. push_compat_piece offsets (dc_file_index c) (dc_piece_index c + i) piece_hash s))
        [0..<ceil_div (length data) (st_piece_size st)] s) (\<lambda>s.
      Inr (map Complete (compat_blocks (st_piece_size st) p data), add_hashed (length data) s))"
proof -
  let ?ps = "st_piece_size st" and ?bs = "compat_blocks (st_piece_size st) p data"
  show "length ?bs = ceil_div (length data) ?ps"
  proof (cases "length data mod ?ps = 0")
    case True
    then show ?thesis by (simp add: compat_blocks_exact(1) [OF assms(1)])
  next
    case False
    then show ?thesis by (rule compat_blocks_partial [OF assms(1), where p = p]) simp
  qed
  show "compat_chunk_mb H st offsets c data (js, s) =
      rbind (rfold (\<lambda>i s. rbind (mb_finalize H i (map Complete ?bs))
          (\<lambda>piece_hash. push_compat_piece offsets (dc_file_index c) (dc_piece_index c + i) piece_hash s))
        [0..<ceil_div (length data) ?ps] s) (\<lambda>s. Inr (map Complete ?bs, add_hashed (length data) s))"
  proof (cases "length data mod ?ps = 0")
    case True
    have sub: "rfold (\<lambda>i js. mb_submit i (block_of ?ps data i) js) [0..<ceil_div (length data) ?ps]
        (mb_resize (ceil_div (length data) ?ps) js) = Inr (map Complete ?bs)"
      using compat_blocks_exact(1) [OF assms(1) True] by (simp add: mb_submit_prefix)
    have ne: "(length data mod ?ps \<noteq> 0) = False" using True by simp
    show ?thesis
      unfolding compat_chunk_mb_def Let_def prod.case ne if_False sub rbind.simps(2) ..
  next
    case False
    obtain k where k: "ceil_div (length data) ?ps = Suc k" "k = length data div ?ps"
      "?bs = map (block_of ?ps data) [0..<k] @ [drop (k * ?ps) data @ compat_padding ?ps p data]"
      "length data - k * ?ps = length data mod ?ps"
      using compat_blocks_partial [OF assms(1) False] by metis
    obtain j where j: "drop k (mb_resize (Suc k) js) = [j]" by (rule mb_resize_last)
    have sub: "rfold (\<lambda>i js. mb_submit i (block_of ?ps data i) js) [0..<k] (mb_resize (Suc k) js)
        = Inr (map Complete (map (block_of ?ps data) [0..<k]) @ [j])"
      using mb_submit_prefix [of k "mb_resize (Suc k) js" "block_of ?ps data"] by (simp add: j)
    have tail: "(if p then rbind (mb_submit_first k (drop (k * ?ps) data) (map Complete (map (block_of ?ps data) [0..<k]) @ [j]))
            (\<lambda>js. mb_submit_last k (replicate (?ps - length (drop (k * ?ps) data)) 0) js)
          else mb_submit k (drop (k * ?ps) data) (map Complete (map (block_of ?ps data) [0..<k]) @ [j]))
        = Inr (map Complete ?bs)"
      using False by (simp add: k(3,4) mb_defs expects_def list_update_append nth_append compat_padding_def)
    have ne: "(length data mod ?ps \<noteq> 0) = True" using False by simp
    show ?thesis
      unfolding compat_chunk_mb_def Let_def prod.case ne if_True k(1) diff_Suc_1 sub rbind.simps(2) assms(2) tail ..
  qed
qed

lemma compat_chunk_mb_run:
  assumes "0 < st_piece_size st" "ch_ok s" "ch_v1_queue s \<noteq> None" "dc_file_index c < length offsets"
    "compat_padded st (dc_file_index c) = Inr p"
  shows "compat_chunk_mb H st offsets c data (js, s)
    = Inr (map Complete (compat_blocks (st_piece_size st) p data),
           advanced (v1_pieces H (offsets ! dc_file_index c + dc_piece_index c)
              (compat_blocks (st_piece_size st) p data)) [] 0 (length data) s)"
  using compat_chunk_mb_submits [OF assms(1,5), where data = data] assms(2)
    compat_finalize_loop [OF assms(2-4), of "ceil_div (length data) (st_piece_size st)"
      "compat_blocks (st_piece_size st) p data" H "dc_piece_index c"]
  by (simp add: add_counters advanced_advanced)

text \<open>Without a queue for v1 pieces the first piece violates the contract.\<close>

lemma compat_chunk_mb_no_queue:
  assumes "0 < st_piece_size st" "ch_v1_queue s = None" "compat_padded st (dc_file_index c) = Inr p" "data \<noteq> []"
  shows "compat_chunk_mb H st offsets c data (js, s) = Inl Contract"
proof -
  have pos: "0 < ceil_div (length data) (st_piece_size st)" using assms(1,4) by (simp add: ceil_div_pos_iff)
  let ?bs = "compat_blocks (st_piece_size st) p data"
  have "mb_finalize H 0 (map Complete ?bs) = Inr (H (?bs ! 0))"
    using compat_chunk_mb_submits(1) [OF assms(1,3), where data = data] pos by (simp add: mb_finalize_complete)
  then show ?thesis
    using compat_chunk_mb_submits(2) [OF assms(1,3), where data = data] assms(2) pos
    by (simp add: upt_conv_Cons push_compat_piece_def)
qed

lemma v2_leaf_loop:
  assumes "ch_ok s" "ch_v2_queue s \<noteq> None"
  shows "rfold (\<lambda>i (h2, s).
           let (leaf, h2') = digest_of H (b i) h2
           in rbind (push_v2_leaf (base + i) f leaf s) (\<lambda>s'. Inr (h2', add_hashed n s')))
         [0..<m] (hasher_new, s)
    = Inr (hasher_new, advanced [] (v2_leaves H f base (map b [0..<m])) 0 (m * n) s)"
proof (induction m)
  case 0
  then show ?case using advanced_none [OF assms(1)] by simp
next
  case (Suc m)
  then show ?case
    using assms
    by (simp add: rfold_append push_v2_advanced add_counters advanced_advanced v2_leaves_snoc add.commute)
qed

lemma v2_finalize_loop:
  assumes "ch_ok s" "ch_v2_queue s \<noteq> None" "m \<le> length ds"
  shows "rfold (\<lambda>i s. rbind (mb_finalize H i (map Complete ds))
           (\<lambda>leaf. rbind (push_v2_leaf (base + i) f leaf s) (\<lambda>s. Inr (add_hashed n s)))) [0..<m] s
    = Inr (advanced [] (v2_leaves H f base (take m ds)) 0 (m * n) s)"
  using assms(3)
proof (induction m)
  case 0
  then show ?case using advanced_none [OF assms(1)] by simp
next
  case (Suc m)
  then have "take (Suc m) ds = take m ds @ [ds ! m]" by (simp add: take_Suc_conv_app_nth)
  with Suc assms show ?case
    by (simp add: rfold_append mb_finalize_complete push_v2_advanced add_counters advanced_advanced
        v2_leaves_snoc add.commute)
qed

text \<open>What a chunk of file data adds to the queues, with and without v1 compatibility.\<close>

definition chunk_pieces :: "digest_function \<Rightarrow> file_storage \<Rightarrow> bool \<Rightarrow> nat list \<Rightarrow> bool \<Rightarrow> data_chunk \<Rightarrow> byte list \<Rightarrow>
    v1_hashed_piece list" where
  "chunk_pieces H1 st hyb offsets p c data =
     (if hyb then v1_pieces H1 (offsets ! dc_file_index c + dc_piece_index c)
                       (compat_blocks (st_piece_size st) p data) else [])"

definition chunk_leaves :: "digest_function \<Rightarrow> file_storage \<Rightarrow> data_chunk \<Rightarrow> byte list \<Rightarrow> v2_hashed_piece list" where
  "chunk_leaves H2 st c data =
     v2_leaves H2 (dc_file_index c) (dc_piece_index c * st_piece_size st div v2_block_size)
       (blocks v2_block_size data)"

lemma hash_chunk_v2_sb_run:
  assumes "dc_file_index c < st_file_count st" "dc_data c = Some data" "data \<noteq> []" "ch_ok s"
    "ch_v2_queue s \<noteq> None"
    "hyb \<Longrightarrow> 0 < st_piece_size st \<and> ch_v1_queue s \<noteq> None \<and> dc_file_index c < length offsets \<and>
       compat_padded st (dc_file_index c) = Inr p"
  shows "hash_chunk_v2_sb H2 H1 st hyb offsets c ((hasher_new, hasher_new), s)
    = Inr ((hasher_new, hasher_new),
           advanced (chunk_pieces H1 st hyb offsets p c data) (chunk_leaves H2 st c data) (length data)
             (length data + (if hyb then length data + length (compat_padding (st_piece_size st) p data) else 0)) s)"
proof -
  have bs: "0 < v2_block_size" by (simp add: v2_block_size_def)
  obtain k where k: "ceil_div (length data) v2_block_size = Suc k"
    using blocks_unsnoc(2) [OF bs assms(3)] by (cases "ceil_div (length data) v2_block_size") auto
  have bl: "blocks v2_block_size data = map (block_of v2_block_size data) [0..<k] @ [drop (k * v2_block_size) data]"
    using blocks_unsnoc(1) [OF bs assms(3)] unfolding k by simp
  have len: "k * v2_block_size + (length data - k * v2_block_size) = length data"
    using length_drop_last [OF bs assms(3)] unfolding k by simp
  let ?base = "dc_piece_index c * st_piece_size st div v2_block_size"
  define s1 where "s1 = advanced [] (chunk_leaves H2 st c data) 0 (length data) s"
  have s1: "ch_ok s1" "ch_v1_queue s1 = None \<longleftrightarrow> ch_v1_queue s = None" by (simp_all add: s1_def)
  note loop = v2_leaf_loop [OF assms(4,5), of H2 "block_of v2_block_size data" ?base "dc_file_index c"
      v2_block_size k]
  have final: "push_v2_leaf (?base + k) (dc_file_index c) (H2 (drop (k * v2_block_size) data))
      (add_hashed (length (drop (k * v2_block_size) data))
        (advanced [] (v2_leaves H2 (dc_file_index c) ?base (map (block_of v2_block_size data) [0..<k])) 0
           (k * v2_block_size) s)) = Inr s1"
    using assms(4,5) len unfolding s1_def chunk_leaves_def bl v2_leaves_snoc
    by (simp del: not_None_eq v2_block_size_eq add: push_v2_advanced add_counters advanced_advanced)
  have hyb: "(if hyb then compat_chunk_sb H1 st offsets c data (hasher_new, s1) else Inr (hasher_new, s1))
      = Inr (hasher_new, advanced (chunk_pieces H1 st hyb offsets p c data) [] 0
          (if hyb then length data + length (compat_padding (st_piece_size st) p data) else 0) s1)"
    using assms(6) s1 compat_chunk_sb_run [of st s1 c offsets p H1 data] advanced_none [OF s1(1)]
    by (simp add: chunk_pieces_def)
  show ?thesis
    unfolding hash_chunk_v2_sb_def Let_def prod.case assms(2) option.case div_ceil_exact [OF bs] rbind.simps(2) k
      diff_Suc_1 loop [unfolded Let_def] digest_of_new final hyb
    using assms(1) s1(1) by (simp add: expects_def add_counters advanced_advanced) (simp add: s1_def advanced_advanced)
qed

lemma hash_chunk_v2_mb_leaves:
  assumes "dc_file_index c < st_file_count st" "dc_data c = Some data" "data \<noteq> []" "ch_ok s"
    "ch_v2_queue s \<noteq> None"
  shows "\<exists>js2'. hash_chunk_v2_mb H2 H1 st hyb offsets c ((js2, js1), s) =
    rbind (if hyb then compat_chunk_mb H1 st offsets c data (js1,
        advanced [] (chunk_leaves H2 st c data) 0 (ceil_div (length data) v2_block_size * v2_block_size) s)
      else Inr (js1, advanced [] (chunk_leaves H2 st c data) 0 (ceil_div (length data) v2_block_size * v2_block_size) s))
      (\<lambda>(js1, s). Inr ((js2', js1), add_done (length data) s))"
proof -
  have bs: "0 < v2_block_size" by (simp add: v2_block_size_def)
  obtain k where k: "ceil_div (length data) v2_block_size = Suc k"
    using blocks_unsnoc(2) [OF bs assms(3)] by (cases "ceil_div (length data) v2_block_size") auto
  let ?bl = "blocks v2_block_size data"
  have bl: "map (block_of v2_block_size data) [0..<k] @ [drop (k * v2_block_size) data] = ?bl"
    using blocks_unsnoc(1) [OF bs assms(3)] unfolding k by simp
  let ?base = "dc_piece_index c * st_piece_size st div v2_block_size"
  have sub: "rbind (rfold (\<lambda>i js. mb_submit i (block_of v2_block_size data i) js) [0..<k] (mb_resize (Suc k) js2))
      (\<lambda>js. mb_submit k (drop (k * v2_block_size) data) js) = Inr (map Complete ?bl)"
    using mb_submit_messages [of "Suc k" "mb_resize (Suc k) js2" "block_of v2_block_size data"
        "drop (k * v2_block_size) data"] by (simp only: bl length_mb_resize simp_thms diff_Suc_1 nat.distinct)
  have fin: "rfold (\<lambda>i s. rbind (mb_finalize H2 i (map Complete ?bl))
      (\<lambda>leaf. rbind (push_v2_leaf (?base + i) (dc_file_index c) leaf s) (\<lambda>s. Inr (add_hashed v2_block_size s))))
      [0..<Suc k] s = Inr (advanced [] (chunk_leaves H2 st c data) 0 (Suc k * v2_block_size) s)"
    using v2_finalize_loop [OF assms(4,5), of "Suc k" ?bl H2 ?base "dc_file_index c" v2_block_size]
    by (simp only: length_blocks k order.refl chunk_leaves_def take_all)
  have pos: "(0 < Suc k) = True" by simp
  show ?thesis
    unfolding hash_chunk_v2_mb_def Let_def prod.case assms(2) option.case k diff_Suc_1 pos if_True sub rbind.simps(2) fin
    using assms(1) by (intro exI [of _ "map Complete ?bl"]) (simp only: expects_simps rbind.simps)
qed

lemma hash_chunk_v2_mb_run:
  assumes "dc_file_index c < st_file_count st" "dc_data c = Some data" "data \<noteq> []" "ch_ok s"
    "ch_v2_queue s \<noteq> None"
    "hyb \<Longrightarrow> 0 < st_piece_size st \<and> ch_v1_queue s \<noteq> None \<and> dc_file_index c < length offsets \<and>
       compat_padded st (dc_file_index c) = Inr p"
  shows "\<exists>js2' js1'. hash_chunk_v2_mb H2 H1 st hyb offsets c ((js2, js1), s)
    = Inr ((js2', js1'),
           advanced (chunk_pieces H1 st hyb offsets p c data) (chunk_leaves H2 st c data) (length data)
             (ceil_div (length data) v2_block_size * v2_block_size + (if hyb then length data else 0)) s)"
proof -
  define s1 where
    "s1 = advanced [] (chunk_leaves H2 st c data) 0 (ceil_div (length data) v2_block_size * v2_block_size) s"
  have s1: "ch_ok s1" "ch_v1_queue s1 = None \<longleftrightarrow> ch_v1_queue s = None" by (simp_all add: s1_def)
  obtain js1' where compat: "(if hyb then compat_chunk_mb H1 st offsets c data (js1, s1) else Inr (js1, s1))
      = Inr (js1', advanced (chunk_pieces H1 st hyb offsets p c data) [] 0 (if hyb then length data else 0) s1)"
  proof (cases hyb)
    case True
    then show thesis
      using that assms(6) s1 compat_chunk_mb_run [of st s1 c offsets p H1 data js1]
      by (simp add: chunk_pieces_def)
  next
    case False
    then show thesis using that advanced_none [OF s1(1)] by (simp add: chunk_pieces_def)
  qed
  obtain js2' where "hash_chunk_v2_mb H2 H1 st hyb offsets c ((js2, js1), s) =
      rbind (if hyb then compat_chunk_mb H1 st offsets c data (js1, s1) else Inr (js1, s1))
        (\<lambda>(js1, s). Inr ((js2', js1), add_done (length data) s))"
    using hash_chunk_v2_mb_leaves [OF assms(1-5), of H2 H1 hyb offsets js2 js1] unfolding s1_def by blast
  then have "hash_chunk_v2_mb H2 H1 st hyb offsets c ((js2, js1), s) = Inr ((js2', js1'), add_done (length data)
      (advanced (chunk_pieces H1 st hyb offsets p c data) [] 0 (if hyb then length data else 0) s1))"
    unfolding compat by simp
  then show ?thesis
    using s1(1) by (simp add: add_counters advanced_advanced) (simp add: s1_def advanced_advanced)
qed

text \<open>A hybrid hasher without a queue for v1 pieces violates the contract on the first chunk.\<close>

lemma hash_chunk_v2_mb_no_queue:
  assumes "dc_file_index c < st_file_count st" "dc_data c = Some data" "data \<noteq> []" "ch_ok s"
    "ch_v2_queue s \<noteq> None" "ch_v1_queue s = None" "0 < st_piece_size st"
    "compat_padded st (dc_file_index c) = Inr p"
  shows "hash_chunk_v2_mb H2 H1 st True offsets c ((js2, js1), s) = Inl Contract"
  using hash_chunk_v2_mb_leaves [OF assms(1-5), of H2 H1 True offsets js2 js1]
    compat_chunk_mb_no_queue [OF assms(7) _ assms(8,3)] assms(6) by auto

text \<open>
  C14: For a non-empty chunk of a file, with or without v1 compatibility, the single-buffer and the
  multi-buffer v2 hasher queue the same results: the SHA-256 digest of every 16 KiB block under its
  leaf index in the file, and for hybrid metafiles the SHA-1 digest of every piece, the last one of
  a file that another file follows completed with zero bytes, under the piece index counted from
  the first piece of the file. Both count every byte of the chunk as done once.
\<close>

theorem v2_chunk_hashers_agree:
  assumes "dc_file_index c < st_file_count st" "dc_data c = Some data" "data \<noteq> []" "ch_ok s"
    "ch_v2_queue s = Some q2" "ch_v1_queue s = Some q1" "0 < st_piece_size st"
    "dc_file_index c < length offsets" "compat_padded st (dc_file_index c) = Inr p"
  shows "\<exists>hs s' js s''.
    hash_chunk_v2_sb H2 H1 st hyb offsets c ((hasher_new, hasher_new), s) = Inr (hs, s') \<and>
    hash_chunk_v2_mb H2 H1 st hyb offsets c ((js2, js1), s) = Inr (js, s'') \<and>
    ch_v2_queue s' = Some (q2 @ v2_leaves H2 (dc_file_index c)
       (dc_piece_index c * st_piece_size st div v2_block_size) (blocks v2_block_size data)) \<and>
    ch_v1_queue s' = Some (q1 @ (if hyb then v1_pieces H1 (offsets ! dc_file_index c + dc_piece_index c)
       (compat_blocks (st_piece_size st) p data) else [])) \<and>
    ch_bytes_done s' = size_add (ch_bytes_done s) (length data) \<and>
    ch_v1_queue s'' = ch_v1_queue s' \<and> ch_v2_queue s'' = ch_v2_queue s' \<and> ch_bytes_done s'' = ch_bytes_done s'"
proof -
  have q: "ch_v2_queue s \<noteq> None" "ch_v1_queue s \<noteq> None" using assms(5,6) by simp_all
  note sb = hash_chunk_v2_sb_run [OF assms(1-4) q(1), of hyb offsets p H2 H1]
  note mb = hash_chunk_v2_mb_run [OF assms(1-4) q(1), of hyb offsets p H2 H1 js2 js1]
  show ?thesis
    using sb mb q(2) assms(5-9) by (auto simp add: advanced_def chunk_pieces_def chunk_leaves_def simp del: v2_block_size_eq)
qed

definition sample_hybrid :: file_storage where
  "sample_hybrid = (sample_storage 2 [3])\<lparr>st_files :=
     [sample_entry_of ''a'' 3, (sample_entry_of ''p'' 1)\<lparr>fe_attributes := Some attribute_padding_file\<rparr>,
      sample_entry_of ''b'' 5]\<rparr>"

lemma sample_hybrid_simps [simp]:
  "st_file_count sample_hybrid = 3" "st_piece_size sample_hybrid = 2"
  "initialize_v1_offsets sample_hybrid = [0, 2, 2, 5]"
  "compat_padded sample_hybrid 0 = Inr True"
  by (simp_all add: sample_hybrid_def st_file_count_def initialize_v1_offsets_def ceil_div_def compat_padded_def
      st_at_def size_sub_def size_bound_def fe_is_padding_file_def fe_has_attribute_def has_flag_def
      attribute_padding_file_def sample_entry_of_def enum_and_def)

theorem v2_chunk_hashers_agree_witness:
  "\<exists>js s'. hash_chunk_v2_mb (take 1) (\<lambda>m. m) sample_hybrid True (initialize_v1_offsets sample_hybrid)
     \<lparr>dc_piece_index = 0, dc_file_index = 0, dc_data = Some [7, 8, 9]\<rparr> (([], []), sample_hasher) = Inr (js, s') \<and>
   ch_v2_queue s' = Some [\<lparr>hp2_hash = [7], hp2_file_index = 0, hp2_leaf_index = 0\<rparr>] \<and>
   ch_v1_queue s' = Some [\<lparr>hp1_hash = [7, 8], hp1_index = 0\<rparr>, \<lparr>hp1_hash = [9, 0], hp1_index = 1\<rparr>]"
proof -
  have "v2_leaves (take 1) 0 0 (blocks 16384 [7, 8, 9 :: byte])
      = [\<lparr>hp2_hash = [7], hp2_file_index = 0, hp2_leaf_index = 0\<rparr>]"
    by (simp add: v2_leaves_def blocks_def ceil_div_def block_of_def)
  moreover have "v1_pieces (\<lambda>m. m) 0 (compat_blocks 2 True [7, 8, 9 :: byte])
      = [\<lparr>hp1_hash = [7, 8], hp1_index = 0\<rparr>, \<lparr>hp1_hash = [9, 0], hp1_index = 1\<rparr>]"
    by (simp add: v1_pieces_def compat_blocks_def blocks_def ceil_div_def block_of_def upt_rec)
  ultimately show ?thesis
    using v2_chunk_hashers_agree [of "\<lparr>dc_piece_index = 0, dc_file_index = 0, dc_data = Some [7, 8, 9]\<rparr>"
        sample_hybrid "[7, 8, 9]" sample_hasher "[]" "[]" "[0, 2, 2, 5]" True "take 1" "\<lambda>m. m" True "[]" "[]"]
    by auto
qed

text \<open>
  The two hashers differ on an empty chunk: the single-buffer hasher queues the digest of an empty
  block, the multi-buffer hasher queues nothing.
\<close>

lemma empty_chunk_hashed:
  "map_option length (ch_v2_queue (snd (projr (hash_chunk_v2_sb H2 H1
     (st\<lparr>st_files := [e], st_piece_size := 16384\<rparr>) False []
     \<lparr>dc_piece_index = 0, dc_file_index = 0, dc_data = Some []\<rparr> ((h2, h1), sample_hasher))))) = Some 1"
  "map_option length (ch_v2_queue (snd (projr (hash_chunk_v2_mb H2 H1
     (st\<lparr>st_files := [e], st_piece_size := 16384\<rparr>) False []
     \<lparr>dc_piece_index = 0, dc_file_index = 0, dc_data = Some []\<rparr> ((js2, js1), sample_hasher))))) = Some 0"
  by (simp_all add: hash_chunk_v2_sb_def hash_chunk_v2_mb_def expects_def st_file_count_def div_ceil_def
      digest_of_def hasher_defs push_v2_leaf_def add_done_def add_hashed_def sample_hasher_def)

end
