(* ===== verification/Piece_Sink.thy ===== *)
theory Piece_Sink
  imports File_Storage Merkle_Tree Chunk_Hashers "HOL-Library.Multiset"
begin

text \<open>
  The interface between the hashing threads and the objects that take their results
  (\<^verbatim>\<open>hashed_piece_processor\<close>): results arrive one at a time, in an order that depends on the
  scheduling of the threads. A sink is told apart from its storage: \<open>put\<close> takes one result,
  \<open>slot\<close> is the place it is for, \<open>look\<close> reads a place and \<open>outcome\<close> is what a result leaves there.
\<close>

locale piece_sink =
  fixes put :: "'p \<Rightarrow> 's \<Rightarrow> 's result"
    and slot :: "'p \<Rightarrow> nat"
    and look :: "'s \<Rightarrow> nat \<Rightarrow> 'v"
    and valid :: "'s \<Rightarrow> nat \<Rightarrow> bool"
    and outcome :: "'s \<Rightarrow> 'p \<Rightarrow> 'v"
    and rest :: "'s \<Rightarrow> 'r"
  assumes put_ok: "valid s (slot p) \<Longrightarrow> \<exists>s'. put p s = Inr s'"
    and put_valid: "put p s = Inr s' \<Longrightarrow> valid s' i \<longleftrightarrow> valid s i"
    and put_outcome: "put p s = Inr s' \<Longrightarrow> outcome s' q = outcome s q"
    and put_rest: "put p s = Inr s' \<Longrightarrow> rest s' = rest s"
    and put_look: "put p s = Inr s' \<Longrightarrow> valid s i \<Longrightarrow>
      look s' i = (if i = slot p then outcome s p else look s i)"
begin

lemma put_all:
  assumes "list_all (\<lambda>p. valid s (slot p)) ps" "distinct (map slot ps)"
  shows "\<exists>s'. rfold put ps s = Inr s' \<and> rest s' = rest s \<and>
    (\<forall>p \<in> set ps. look s' (slot p) = outcome s p) \<and>
    (\<forall>i. valid s i \<longrightarrow> i \<notin> slot ` set ps \<longrightarrow> look s' i = look s i)"
  using assms
proof (induction ps arbitrary: s)
  case Nil
  then show ?case by simp
next
  case (Cons p ps)
  obtain t where t: "put p s = Inr t" using put_ok [of s p] Cons.prems by auto
  have "list_all (\<lambda>p. valid t (slot p)) ps"
    using Cons.prems(1) put_valid [OF t] by simp
  from Cons.IH [OF this] Cons.prems(2) obtain s' where s': "rfold put ps t = Inr s'" "rest s' = rest t"
      "\<forall>p \<in> set ps. look s' (slot p) = outcome t p"
      "\<forall>i. valid t i \<longrightarrow> i \<notin> slot ` set ps \<longrightarrow> look s' i = look t i"
    by (auto simp del: set_map)
  have p: "slot p \<notin> slot ` set ps" "valid s (slot p)" using Cons.prems by auto
  then have "look s' (slot p) = outcome s p"
    using s'(4) put_valid [OF t] put_look [OF t] by simp
  then show ?case
    using t s' put_outcome [OF t] put_rest [OF t] put_valid [OF t] put_look [OF t] by auto
qed

text \<open>Whatever the order of arrival, the same places hold the same values.\<close>

lemma put_permuted:
  assumes "mset ps = mset qs" "list_all (\<lambda>p. valid s (slot p)) qs" "distinct (map slot qs)"
  shows "\<exists>s'. rfold put ps s = Inr s' \<and> rest s' = rest s \<and>
    (\<forall>p \<in> set qs. look s' (slot p) = outcome s p) \<and>
    (\<forall>i. valid s i \<longrightarrow> i \<notin> slot ` set qs \<longrightarrow> look s' i = look s i)"
proof -
  have "set ps = set qs" using assms(1) by (rule mset_eq_setD)
  moreover have "distinct (map slot ps)"
    using assms(1,3) by (metis mset_map mset_eq_imp_distinct_iff)
  moreover have "list_all (\<lambda>p. valid s (slot p)) ps"
    using assms(2) \<open>set ps = set qs\<close> by (simp add: list_all_iff)
  ultimately show ?thesis using put_all [of s ps] by simp
qed

end

text \<open>The slots of the pieces of consecutive blocks.\<close>

lemma v1_pieces_slots [simp]: "map hp1_index (v1_pieces H base bs) = [base..<base + length bs]"
  by (rule nth_equalityI) (simp_all add: v1_pieces_def)

lemma length_v1_pieces [simp]: "length (v1_pieces H base bs) = length bs"
  by (simp add: v1_pieces_def)

lemma v1_pieces_mem: "i < length bs \<Longrightarrow> \<lparr>hp1_hash = H (bs ! i), hp1_index = base + i\<rparr> \<in> set (v1_pieces H base bs)"
  by (auto simp: v1_pieces_def)

lemma distinct_v1_pieces [simp]: "distinct (map hp1_index (v1_pieces H base bs))"
  by simp

lemma v1_pieces_bounded: "list_all (\<lambda>p. hp1_index p < base + length bs) (v1_pieces H base bs)"
  by (simp add: v1_pieces_def list_all_iff)

end
