(* ===== verification/Leaf_Collector.thy ===== *)
theory Leaf_Collector
  imports Piece_Sink
begin

text \<open>
  What \<^verbatim>\<open>v2_piece_writer\<close> and \<^verbatim>\<open>v2_piece_verifier\<close> have in common: a Merkle tree and a count of
  blocks per file, which the digests of 16 KiB blocks fill in any order, and an action on a file
  when its last block has arrived. The interface states what one result does; the lemma of the
  locale is that after all results every file has seen the action exactly once, on a full tree.
\<close>

section \<open>The Merkle data of a file\<close>

definition block_count_of :: "file_entry \<Rightarrow> nat" where
  "block_count_of e = ceil_div (fe_file_size e) v2_block_size"

text \<open>The leaves: the digests of the blocks, then zeros; the root and the piece layer over them.\<close>

definition leaf_of :: "digest_function \<Rightarrow> byte list \<Rightarrow> nat \<Rightarrow> hash" where
  "leaf_of H data j =
     (if j < ceil_div (length data) v2_block_size then H (block_of v2_block_size data j) else hash_zero 32)"

definition tree_height_of :: "byte list \<Rightarrow> nat" where
  "tree_height_of data = log2_ceil (ceil_div (length data) v2_block_size)"
definition v2_root :: "digest_function \<Rightarrow> byte list \<Rightarrow> hash" where
  "v2_root H data = merkle_hash H (leaf_of H data) (tree_height_of data) 0"

definition v2_layer :: "digest_function \<Rightarrow> nat \<Rightarrow> byte list \<Rightarrow> hash list" where
  "v2_layer H k data =
     (if tree_height_of data \<le> k then []
      else map (merkle_hash H (leaf_of H data) k) [0..<ceil_div (length data) (2 ^ k * v2_block_size)])"

lemma log2_block_size [simp]: "log2_floor 16384 = 14"
  using log2_floor_power [of 14] by simp

lemma log2_piece_size: "log2_floor (2 ^ k * 16384) = k + 14"
proof -
  have "(2::nat) ^ k * 16384 = 2 ^ (k + 14)" by (simp add: power_add)
  then show ?thesis by (simp only: log2_floor_power)
qed

lemma merkle_hash_cong:
  "(\<And>j. j < 2 ^ d * Suc i \<Longrightarrow> leaf j = leaf' j) \<Longrightarrow> merkle_hash H leaf d i = merkle_hash H leaf' d i"
proof (induction d arbitrary: i)
  case (Suc d)
  have "merkle_hash H leaf d (2 * i) = merkle_hash H leaf' d (2 * i)"
    by (rule Suc.IH, rule Suc.prems) (simp add: algebra_simps)
  moreover have "merkle_hash H leaf d (2 * i + 1) = merkle_hash H leaf' d (2 * i + 1)"
    by (rule Suc.IH, rule Suc.prems) (simp add: algebra_simps)
  ultimately show ?case by simp
qed simp

lemma get_layer_nodes:
  assumes "mt_ok h t" "d \<le> h"
  shows "get_layer t d = Inr (map (\<lambda>i. t ! flat d i) [0..<2 ^ d])"
proof -
  have d: "d \<le> 30" using assms by (simp add: mt_ok_def)
  have "(2::nat) ^ d \<le> 2 ^ h" using assms(2) by (intro power_increasing) auto
  then have "flat d 0 + 2 ^ d \<le> 2 * 2 ^ h - 1"
    unfolding flat_def by linarith
  then have len: "flat d 0 + 2 ^ d \<le> length t"
    using assms(1) by (simp add: mt_ok_def)
  have "subrange t (flat d 0) (2 ^ d) = map (\<lambda>i. t ! flat d i) [0..<2 ^ d]"
    using len by (intro nth_equalityI) (simp_all add: subrange_def flat_def)
  then show ?thesis
    using len assms layer_arith [OF d] tree_height_ok [OF assms(1)]
    by (simp add: get_layer_def expects_def)
qed

lemma take_upt_map: "n \<le> m \<Longrightarrow> take n (map f [0..<m]) = map f [0..<n]"
  by (simp add: take_map)


section \<open>Results in any order\<close>

definition file_blocks :: "byte list \<Rightarrow> nat" where
  "file_blocks data = ceil_div (length data) v2_block_size"

definition of_file :: "nat \<Rightarrow> v2_hashed_piece list \<Rightarrow> v2_hashed_piece list" where
  "of_file f ps = filter (\<lambda>p. hp2_file_index p = f) ps"

definition all_leaves :: "digest_function \<Rightarrow> file_storage \<Rightarrow> (nat \<Rightarrow> byte list) \<Rightarrow> v2_hashed_piece list" where
  "all_leaves H st contents =
     concat (map (\<lambda>f. if fe_is_padding_file (st_files st ! f) then []
                     else v2_leaves H f 0 (blocks v2_block_size (contents f))) [0..<st_file_count st])"

definition contents_ok :: "file_storage \<Rightarrow> (nat \<Rightarrow> byte list) \<Rightarrow> bool" where
  "contents_ok st contents \<longleftrightarrow>
     (\<forall>f < st_file_count st. \<not> fe_is_padding_file (st_files st ! f) \<longrightarrow>
        length (contents f) = fe_file_size (st_files st ! f) \<and> file_blocks (contents f) \<le> 2 ^ 30)"

definition good_pieces :: "digest_function \<Rightarrow> file_storage \<Rightarrow> (nat \<Rightarrow> byte list) \<Rightarrow> v2_hashed_piece list \<Rightarrow> bool" where
  "good_pieces H st contents ps \<longleftrightarrow>
     distinct (map (\<lambda>p. (hp2_file_index p, hp2_leaf_index p)) ps) \<and>
     (\<forall>p \<in> set ps. hp2_file_index p < st_file_count st \<and> \<not> fe_is_padding_file (st_files st ! hp2_file_index p) \<and>
        hp2_leaf_index p < file_blocks (contents (hp2_file_index p)) \<and>
        hp2_hash p = leaf_of H (contents (hp2_file_index p)) (hp2_leaf_index p))"

lemma file_blocks_0 [simp]: "file_blocks data = 0 \<longleftrightarrow> data = []"
  using ceil_div_pos_iff [of v2_block_size "length data"] by (auto simp: file_blocks_def)

lemma file_blocks_Nil [simp]: "file_blocks [] = 0"
  by (simp add: file_blocks_def)

lemma tree_of_file:
  assumes "data \<noteq> []" "file_blocks data \<le> 2 ^ 30"
  obtains t where "set_leaf_nodes (file_blocks data) v = Inr t" "mt_ok (tree_height_of data) t"
    "\<forall>j < 2 ^ tree_height_of data. t ! flat (tree_height_of data) j = v"
    "file_blocks data \<le> 2 ^ tree_height_of data"
proof -
  have pos: "0 < file_blocks data" using assms(1) file_blocks_0 [of data] by (simp only: neq0_conv [symmetric] simp_thms)
  have h: "tree_height_of data = log2_ceil (file_blocks data)" by (simp add: tree_height_of_def file_blocks_def)
  note ok = set_leaf_nodes_ok [OF pos assms(2)]
  show thesis
  proof (rule that [of "replicate (2 ^ Suc (tree_height_of data) - 1) v"])
    show "\<forall>j < 2 ^ tree_height_of data.
        replicate (2 ^ Suc (tree_height_of data) - 1) v ! flat (tree_height_of data) j = v"
      using flat_bound [OF ok(2) order.refl, of _ v] by (auto simp add: h)
  qed (use ok in \<open>simp_all only: h\<close>)
qed

lemma flat_inj: "flat l i = flat l j \<longleftrightarrow> i = j"
  using one_le_power [of "2::nat" l] unfolding flat_def by linarith

lemma of_file_snoc: "of_file f (ps @ [p]) = of_file f ps @ (if hp2_file_index p = f then [p] else [])"
  by (simp add: of_file_def)

lemma good_prefix: "good_pieces H st contents (ps @ [p]) \<Longrightarrow> good_pieces H st contents ps"
  by (auto simp: good_pieces_def)

text \<open>A file has at most as many pieces as blocks, and a piece that is missing leaves a gap.\<close>

lemma good_leaves:
  assumes "good_pieces H st contents ps"
  shows "distinct (map hp2_leaf_index (of_file f ps))"
    and "hp2_leaf_index ` set (of_file f ps) \<subseteq> {..<file_blocks (contents f)}"
    and "length (of_file f ps) = card (hp2_leaf_index ` set (of_file f ps))"
    and "length (of_file f ps) \<le> file_blocks (contents f)"
proof -
  have "distinct ps" "\<And>p q. p \<in> set ps \<Longrightarrow> q \<in> set ps \<Longrightarrow> hp2_file_index p = hp2_file_index q \<Longrightarrow>
      hp2_leaf_index p = hp2_leaf_index q \<Longrightarrow> p = q"
    using assms by (auto simp: good_pieces_def distinct_map inj_on_def)
  then show d: "distinct (map hp2_leaf_index (of_file f ps))"
    by (auto simp: of_file_def distinct_map inj_on_def)
  show sub: "hp2_leaf_index ` set (of_file f ps) \<subseteq> {..<file_blocks (contents f)}"
    using assms by (auto simp: good_pieces_def of_file_def)
  show len: "length (of_file f ps) = card (hp2_leaf_index ` set (of_file f ps))"
    using distinct_card [OF d] by simp
  show "length (of_file f ps) \<le> file_blocks (contents f)"
    unfolding len using card_mono [OF _ sub] by simp
qed

text \<open>The trees a new writer holds.\<close>

definition new_tree :: "file_entry \<Rightarrow> merkle_tree" where
  "new_tree e =
     (if fe_is_padding_file e then [] else projr (set_leaf_nodes (block_count_of e) (hash_zero 32)))"

lemma set_leaf_nodes_total:
  assumes "n \<le> 2 ^ 30"
  shows "set_leaf_nodes n v = Inr (projr (set_leaf_nodes n v))"
proof (cases "n = 0")
  case True
  then show ?thesis
    by (simp add: set_leaf_nodes_def expects_def Let_def total_node_count_for_height_def shl_u32_def
        pred_u32_def u32_def)
next
  case False
  then show ?thesis using set_leaf_nodes_ok(1) [of n v] assms by simp
qed

text \<open>All the leaves of all the files.\<close>

lemma of_file_leaves:
  "of_file f (v2_leaves H g 0 bs) = (if f = g then v2_leaves H g 0 bs else [])"
  by (auto simp: of_file_def v2_leaves_def filter_empty_conv filter_map comp_def)

lemma mem_all_leaves:
  "p \<in> set (all_leaves H st contents) \<longleftrightarrow>
     hp2_file_index p < st_file_count st \<and> \<not> fe_is_padding_file (st_files st ! hp2_file_index p) \<and>
     p \<in> set (v2_leaves H (hp2_file_index p) 0 (blocks v2_block_size (contents (hp2_file_index p))))"
  by (force simp: all_leaves_def v2_leaves_def split: if_splits)

lemma mem_v2_leaves:
  "p \<in> set (v2_leaves H f base bs) \<longleftrightarrow> hp2_file_index p = f \<and>
     (\<exists>i < length bs. hp2_leaf_index p = base + i \<and> hp2_hash p = H (bs ! i))"
  by (cases p) (auto simp: v2_leaves_def)

lemma distinct_all_leaves:
  "distinct (map (\<lambda>p. (hp2_file_index p, hp2_leaf_index p)) (all_leaves H st contents))"
proof -
  have "distinct (map (\<lambda>p. (hp2_file_index p, hp2_leaf_index p))
      (concat (map (\<lambda>f. if P f then [] else v2_leaves H f 0 (g f)) [0..<n])))" for P g n
  proof (induction n)
    case (Suc n)
    have "distinct (map (\<lambda>p. (hp2_file_index p, hp2_leaf_index p)) (v2_leaves H n 0 (g n)))"
      by (simp add: v2_leaves_def distinct_map inj_on_def comp_def)
    with Suc show ?case by (auto simp: mem_v2_leaves split: if_splits)
  qed simp
  then show ?thesis by (simp add: all_leaves_def)
qed

lemma good_all_leaves: "good_pieces H st contents (all_leaves H st contents)"
  unfolding good_pieces_def
proof (intro conjI ballI)
  fix p
  assume "p \<in> set (all_leaves H st contents)"
  then have p: "hp2_file_index p < st_file_count st" "\<not> fe_is_padding_file (st_files st ! hp2_file_index p)"
    "p \<in> set (v2_leaves H (hp2_file_index p) 0 (blocks v2_block_size (contents (hp2_file_index p))))"
    by (simp_all add: mem_all_leaves)
  then show "hp2_file_index p < st_file_count st" "\<not> fe_is_padding_file (st_files st ! hp2_file_index p)"
    "hp2_leaf_index p < file_blocks (contents (hp2_file_index p))"
    "hp2_hash p = leaf_of H (contents (hp2_file_index p)) (hp2_leaf_index p)"
    by (auto simp: mem_v2_leaves file_blocks_def leaf_of_def nth_blocks)
qed (rule distinct_all_leaves)

lemma good_permuted: "mset ps = mset qs \<Longrightarrow> good_pieces H st contents qs \<Longrightarrow> good_pieces H st contents ps"
  unfolding good_pieces_def
  by (metis (no_types, lifting) mset_map mset_eq_imp_distinct_iff mset_eq_setD)

lemma count_of_file:
  assumes "mset ps = mset (all_leaves H st contents)" "f < st_file_count st" "\<not> fe_is_padding_file (st_files st ! f)"
  shows "length (of_file f ps) = file_blocks (contents f)"
proof -
  have "mset (of_file f ps) = mset (of_file f (all_leaves H st contents))"
    using assms(1) by (simp add: of_file_def)
  then have len: "length (of_file f ps) = length (of_file f (all_leaves H st contents))"
    by (rule mset_eq_length)
  have "of_file f (concat (map (\<lambda>g. if P g then [] else v2_leaves H g 0 (bs g)) [0..<n]))
      = (if f < n \<and> \<not> P f then v2_leaves H f 0 (bs f) else [])" for P bs n
  proof (induction n)
    case (Suc n)
    have "of_file f (xs @ ys) = of_file f xs @ of_file f ys" for xs ys by (simp add: of_file_def)
    with Suc show ?case by (auto simp: of_file_leaves less_Suc_eq of_file_def [of f "[]"])
  qed (simp add: of_file_def)
  then show ?thesis using assms(2,3) len by (simp add: all_leaves_def v2_leaves_def file_blocks_def)
qed

lemma padding_tree: "fe_is_padding_file e \<Longrightarrow> new_tree e = []"
  by (simp add: new_tree_def)

text \<open>The tree of every entry can be built.\<close>

lemma new_tree_entry:
  assumes "contents_ok st contents" "e \<in> set (st_files st)" "\<not> fe_is_padding_file e"
  shows "set_leaf_nodes (block_count_of e) (hash_zero 32) = Inr (new_tree e)"
proof -
  obtain f where "f < st_file_count st" "e = st_files st ! f"
    using assms(2) by (auto simp: in_set_conv_nth st_file_count_def)
  then have "block_count_of e \<le> 2 ^ 30"
    using assms(1,3) by (auto simp: contents_ok_def block_count_of_def file_blocks_def)
  from set_leaf_nodes_total [OF this, of "hash_zero 32"] show ?thesis
    using assms(3) by (metis (mono_tags, lifting) new_tree_def)
qed

text \<open>Updating a tree that holds all leaves of a file.\<close>

lemma update_full_tree:
  assumes "mt_ok (tree_height_of data) t"
    "\<And>j. j < 2 ^ tree_height_of data \<Longrightarrow> t ! flat (tree_height_of data) j = leaf_of H data j"
    "ceil_div (length data) v2_block_size \<le> 2 ^ tree_height_of data"
  obtains t' where "mt_update H hasher_new t = Inr (hasher_new, t')" "mt_root t' = Inr (v2_root H data)"
    "tree_height t' = tree_height_of data"
    "\<And>k. k < tree_height_of data \<Longrightarrow> get_layer t' (tree_height_of data - k)
       = Inr (map (merkle_hash H (leaf_of H data) k) [0..<2 ^ (tree_height_of data - k)])"
    "\<And>k. k < tree_height_of data \<Longrightarrow>
       ceil_div (length data) (2 ^ k * v2_block_size) \<le> 2 ^ (tree_height_of data - k)"
proof -
  let ?h = "tree_height_of data"
  obtain t' where t': "mt_update H hasher_new t = Inr (hasher_new, t')" "hashed_down_to H ?h t 0 t'"
    using mt_update_hashes [OF assms(1), of H] by blast
  have ok: "mt_ok ?h t'" using t'(2) by (simp add: hashed_down_to_def)
  have node: "t' ! flat d i = merkle_hash H (leaf_of H data) (?h - d) i" if "d \<le> ?h" "i < 2 ^ d" for d i
  proof -
    have "2 ^ (?h - d) * Suc i \<le> 2 ^ (?h - d) * 2 ^ d" using that by (intro mult_le_mono) auto
    also have "\<dots> = 2 ^ ?h" using that by (simp flip: power_add)
    finally have "merkle_hash H (\<lambda>j. t ! flat ?h j) (?h - d) i = merkle_hash H (leaf_of H data) (?h - d) i"
      by (intro merkle_hash_cong assms(2)) simp
    then show ?thesis using t'(2) that by (simp add: hashed_down_to_def)
  qed
  have root: "mt_root t' = Inr (v2_root H data)"
    using node [of 0 0] flat_bound [OF ok, of 0 0] by (cases t') (simp_all add: mt_root_def flat_def v2_root_def)
  have layer: "get_layer t' (?h - k) = Inr (map (merkle_hash H (leaf_of H data) k) [0..<2 ^ (?h - k)])"
    if k: "k < ?h" for k
  proof -
    have "map (\<lambda>i. t' ! flat (?h - k) i) [0..<2 ^ (?h - k)]
        = map (merkle_hash H (leaf_of H data) k) [0..<2 ^ (?h - k)]"
      using node [of "?h - k"] k by (intro map_cong) auto
    then show ?thesis using get_layer_nodes [OF ok, of "?h - k"] by simp
  qed
  have count: "ceil_div (length data) (2 ^ k * v2_block_size) \<le> 2 ^ (?h - k)" if k: "k < ?h" for k
  proof -
    have "length data \<le> 2 ^ ?h * 16384" using assms(3) by (simp add: ceil_div_le_iff)
    also have "(2::nat) ^ ?h = 2 ^ (?h - k) * 2 ^ k" using k by (simp flip: power_add)
    finally show ?thesis by (simp add: ceil_div_le_iff ac_simps)
  qed
  show thesis by (rule that [OF t'(1) root tree_height_ok [OF ok] layer count])
qed

section \<open>The interface\<close>

text \<open>The hash, the exponent of the piece size, the storage and the data of its files.\<close>

record leaf_context =
  lc_hash :: digest_function
  lc_exponent :: nat
  lc_storage :: file_storage
  lc_contents :: "nat \<Rightarrow> byte list"

definition lc_ok :: "leaf_context \<Rightarrow> bool" where
  "lc_ok c \<longleftrightarrow> st_piece_size (lc_storage c) = 2 ^ lc_exponent c * v2_block_size \<and>
     contents_ok (lc_storage c) (lc_contents c)"

definition regular :: "leaf_context \<Rightarrow> nat \<Rightarrow> bool" where
  "regular c f \<longleftrightarrow> f < st_file_count (lc_storage c) \<and> \<not> fe_is_padding_file (st_files (lc_storage c) ! f)"

abbreviation "height_in c f \<equiv> tree_height_of (lc_contents c f)"
abbreviation "blocks_in c f \<equiv> file_blocks (lc_contents c f)"

definition full_tree :: "leaf_context \<Rightarrow> nat \<Rightarrow> merkle_tree \<Rightarrow> bool" where
  "full_tree c f t \<longleftrightarrow> mt_ok (height_in c f) t \<and>
     (\<forall>i < 2 ^ height_in c f. t ! flat (height_in c f) i = leaf_of (lc_hash c) (lc_contents c f) i)"

locale leaf_collector =
  fixes put :: "v2_hashed_piece \<Rightarrow> 's \<Rightarrow> 's result"
    and inv :: "leaf_context \<Rightarrow> 's \<Rightarrow> bool"
    and tree :: "'s \<Rightarrow> nat \<Rightarrow> merkle_tree"
    and arrived :: "'s \<Rightarrow> nat \<Rightarrow> nat"
    and view :: "'s \<Rightarrow> nat \<Rightarrow> 'v"
    and before :: "leaf_context \<Rightarrow> nat \<Rightarrow> 'v"
    and after :: "leaf_context \<Rightarrow> nat \<Rightarrow> 'v"
  assumes inv_ok: "inv c s \<Longrightarrow> lc_ok c"
    and put_leaf: "inv c s \<Longrightarrow> regular c f \<Longrightarrow> view s f = before c f \<Longrightarrow> mt_ok (height_in c f) (tree s f) \<Longrightarrow>
      j < 2 ^ height_in c f \<Longrightarrow> t = (tree s f)[flat (height_in c f) j := x] \<Longrightarrow>
      Suc (arrived s f) < blocks_in c f \<or> Suc (arrived s f) = blocks_in c f \<and> full_tree c f t \<Longrightarrow>
      \<exists>s'. put \<lparr>hp2_hash = x, hp2_file_index = f, hp2_leaf_index = j\<rparr> s = Inr s' \<and> inv c s' \<and>
        arrived s' f = Suc (arrived s f) \<and>
        (if Suc (arrived s f) < blocks_in c f then tree s' f = t \<and> view s' f = before c f
         else view s' f = after c f) \<and>
        (\<forall>g. regular c g \<longrightarrow> g \<noteq> f \<longrightarrow>
           tree s' g = tree s g \<and> arrived s' g = arrived s g \<and> view s' g = view s g)"
begin

text \<open>What has happened to a file when the results \<open>ps\<close> have arrived.\<close>

definition file_inv :: "leaf_context \<Rightarrow> v2_hashed_piece list \<Rightarrow> 's \<Rightarrow> nat \<Rightarrow> bool" where
  "file_inv c ps s f \<longleftrightarrow> arrived s f = length (of_file f ps) \<and>
     (if length (of_file f ps) < blocks_in c f
      then view s f = before c f \<and> mt_ok (height_in c f) (tree s f) \<and>
        (\<forall>i < 2 ^ height_in c f. tree s f ! flat (height_in c f) i =
           (if i \<in> hp2_leaf_index ` set (of_file f ps) then leaf_of (lc_hash c) (lc_contents c f) i
            else hash_zero 32))
      else view s f = (if lc_contents c f = [] then before c f else after c f))"

lemma file_inv_cong:
  "of_file f ps = of_file f qs \<Longrightarrow> tree s f = tree s' f \<Longrightarrow> arrived s f = arrived s' f \<Longrightarrow>
     view s f = view s' f \<Longrightarrow> file_inv c ps s f \<longleftrightarrow> file_inv c qs s' f"
  by (simp add: file_inv_def)

lemma put_step:
  assumes "inv c s" "\<forall>f. regular c f \<longrightarrow> file_inv c ps s f"
    "good_pieces (lc_hash c) (lc_storage c) (lc_contents c) (ps @ [p])"
  shows "\<exists>s'. put p s = Inr s' \<and> inv c s' \<and> (\<forall>f. regular c f \<longrightarrow> file_inv c (ps @ [p]) s' f)"
proof -
  define f where "f = hp2_file_index p"
  define j where "j = hp2_leaf_index p"
  let ?h = "height_in c f" and ?n = "blocks_in c f" and ?fps = "of_file f ps"
  have p: "regular c f" "j < ?n" "hp2_hash p = leaf_of (lc_hash c) (lc_contents c f) j"
    using assms(3) by (auto simp: good_pieces_def regular_def f_def j_def)
  have p_eq: "p = \<lparr>hp2_hash = leaf_of (lc_hash c) (lc_contents c f) j, hp2_file_index = f, hp2_leaf_index = j\<rparr>"
    using p(3) by (cases p) (simp add: f_def j_def)
  have size: "?n \<le> 2 ^ 30"
    using inv_ok [OF assms(1)] p(1) by (auto simp: lc_ok_def contents_ok_def regular_def)
  have ne: "lc_contents c f \<noteq> []" using p(2) by auto
  obtain t0 where nh: "?n \<le> 2 ^ ?h" by (rule tree_of_file [OF ne size])
  have snoc: "of_file f (ps @ [p]) = ?fps @ [p]" by (simp add: of_file_snoc f_def)
  have few: "length ?fps < ?n" using good_leaves(4) [OF assms(3), of f] by (simp add: snoc)
  have new: "j \<notin> hp2_leaf_index ` set ?fps"
    using good_leaves(1) [OF assms(3), of f] by (simp add: snoc j_def)
  have fi: "arrived s f = length ?fps" "view s f = before c f" "mt_ok ?h (tree s f)"
    "\<And>i. i < 2 ^ ?h \<Longrightarrow> tree s f ! flat ?h i =
       (if i \<in> hp2_leaf_index ` set ?fps then leaf_of (lc_hash c) (lc_contents c f) i else hash_zero 32)"
    using assms(2) p(1) few by (auto simp: file_inv_def)
  define t where "t = (tree s f)[flat ?h j := leaf_of (lc_hash c) (lc_contents c f) j]"
  have jh: "j < 2 ^ ?h" using p(2) nh by simp
  have tok: "mt_ok ?h t" using fi(3) by (simp add: t_def)
  have tl: "t ! flat ?h i = (if i \<in> hp2_leaf_index ` set (of_file f (ps @ [p]))
      then leaf_of (lc_hash c) (lc_contents c f) i else hash_zero 32)" if "i < 2 ^ ?h" for i
    using that fi(4) [OF that] flat_bound [OF fi(3) order.refl] jh
    by (auto simp: t_def snoc nth_list_update flat_inj j_def)
  have full: "full_tree c f t" if "Suc (arrived s f) = ?n"
  proof -
    have "card (hp2_leaf_index ` set (of_file f (ps @ [p]))) = ?n"
      using good_leaves(3) [OF assms(3), of f] that fi(1) by (simp add: snoc)
    then have "hp2_leaf_index ` set (of_file f (ps @ [p])) = {..<?n}"
      using good_leaves(2) [OF assms(3), of f] card_subset_eq [of "{..<?n}"] by simp
    then show ?thesis using tl tok by (simp add: full_tree_def leaf_of_def file_blocks_def)
  qed
  have "Suc (arrived s f) < ?n \<or> Suc (arrived s f) = ?n \<and> full_tree c f t"
    using few fi(1) full by (auto simp: less_Suc_eq Suc_le_eq)
  from put_leaf [OF assms(1) p(1) fi(2,3) jh t_def this] obtain s' where s': "put p s = Inr s'" "inv c s'"
      "arrived s' f = Suc (arrived s f)"
      "if Suc (arrived s f) < ?n then tree s' f = t \<and> view s' f = before c f else view s' f = after c f"
      "\<And>g. regular c g \<Longrightarrow> g \<noteq> f \<Longrightarrow> tree s' g = tree s g \<and> arrived s' g = arrived s g \<and> view s' g = view s g"
    unfolding p_eq [symmetric] by blast
  have "file_inv c (ps @ [p]) s' g" if g: "regular c g" for g
  proof (cases "g = f")
    case True
    then show ?thesis using s'(3,4) fi(1) tok tl ne by (simp add: file_inv_def snoc)
  next
    case False
    then have "of_file g (ps @ [p]) = of_file g ps" by (simp add: of_file_snoc f_def)
    then show ?thesis using s'(5) [OF g False] assms(2) g by (simp add: file_inv_def)
  qed
  with s'(1,2) show ?thesis by blast
qed

lemma put_all:
  assumes "inv c s" "\<forall>f. regular c f \<longrightarrow> file_inv c [] s f"
    "good_pieces (lc_hash c) (lc_storage c) (lc_contents c) ps"
  shows "\<exists>s'. rfold put ps s = Inr s' \<and> inv c s' \<and> (\<forall>f. regular c f \<longrightarrow> file_inv c ps s' f)"
  using assms(3)
proof (induction ps rule: rev_induct)
  case Nil
  then show ?case using assms(1,2) by simp
next
  case (snoc p ps)
  then obtain s' where s': "rfold put ps s = Inr s'" "inv c s'" "\<forall>f. regular c f \<longrightarrow> file_inv c ps s' f"
    using good_prefix by blast
  obtain s'' where "put p s' = Inr s''" "inv c s''" "\<forall>f. regular c f \<longrightarrow> file_inv c (ps @ [p]) s'' f"
    using put_step [OF s'(2,3) snoc.prems] by blast
  with s'(1) show ?case by (simp add: rfold_append)
qed

lemma put_leaves_permuted:
  assumes "inv c s" "\<And>f. regular c f \<Longrightarrow> arrived s f = 0" "\<And>f. regular c f \<Longrightarrow> view s f = before c f"
    "\<And>f. regular c f \<Longrightarrow> tree s f = new_tree (st_files (lc_storage c) ! f)"
    "mset ps = mset (all_leaves (lc_hash c) (lc_storage c) (lc_contents c))"
  shows "\<exists>s'. rfold put ps s = Inr s' \<and> inv c s' \<and>
    (\<forall>f. regular c f \<longrightarrow> view s' f = (if lc_contents c f = [] then before c f else after c f))"
proof -
  have "file_inv c [] s f" if f: "regular c f" for f
  proof (cases "lc_contents c f = []")
    case True
    then show ?thesis using assms(2,3) f by (simp add: file_inv_def of_file_def)
  next
    case False
    have fe: "f < st_file_count (lc_storage c)" "\<not> fe_is_padding_file (st_files (lc_storage c) ! f)"
      "block_count_of (st_files (lc_storage c) ! f) = blocks_in c f" "blocks_in c f \<le> 2 ^ 30"
      using inv_ok [OF assms(1)] f
      by (auto simp: regular_def lc_ok_def contents_ok_def block_count_of_def file_blocks_def)
    obtain t where t: "set_leaf_nodes (blocks_in c f) (hash_zero 32) = Inr t" "mt_ok (height_in c f) t"
        "\<forall>i < 2 ^ height_in c f. t ! flat (height_in c f) i = hash_zero 32"
      using tree_of_file [OF False fe(4), of "hash_zero 32"] by metis
    then have "tree s f = t" using assms(4) [OF f] fe(2,3) by (simp add: new_tree_def)
    with t show ?thesis using assms(2,3) f False by (simp add: file_inv_def of_file_def)
  qed
  then obtain s' where s': "rfold put ps s = Inr s'" "inv c s'" "\<And>f. regular c f \<Longrightarrow> file_inv c ps s' f"
    using put_all [OF assms(1) _ good_permuted [OF assms(5) good_all_leaves]] by blast
  have "view s' f = (if lc_contents c f = [] then before c f else after c f)" if "regular c f" for f
    using s'(3) [OF that] count_of_file [OF assms(5)] that by (simp add: file_inv_def regular_def)
  with s'(1,2) show ?thesis by blast
qed

end

end
