(* ===== verification/Piece_Writers.thy ===== *)
theory Piece_Writers
  imports Leaf_Collector
begin

text \<open>
  The objects that store hashed pieces: \<^verbatim>\<open>v1_piece_writer.cpp\<close> and \<^verbatim>\<open>v2_piece_writer.cpp\<close>. The
  worker threads call \<open>set_finished_piece\<close> for one result after another; the members that only
  forward to the queue processors are in the theory of those.
\<close>

section \<open>v1 pieces\<close>

definition v1_set_finished_piece :: "v1_hashed_piece \<Rightarrow> file_storage \<Rightarrow> file_storage result" where
  "v1_set_finished_piece p st = st_set_piece_hash (hp1_index p) (hp1_hash p) st"

definition piece_slots_ok :: "file_storage \<Rightarrow> bool" where
  "piece_slots_ok st \<longleftrightarrow> length (st_pieces st) = st_piece_count st"

lemma st_piece_count_pieces [simp]: "st_piece_count (st\<lparr>st_pieces := ps\<rparr>) = st_piece_count st"
  by (simp add: st_piece_count_def)

lemma v1_set_finished_piece_eq:
  "v1_set_finished_piece p st =
     (if hp1_index p < length (st_pieces st) \<and> piece_slots_ok st
      then Inr (st\<lparr>st_pieces := (st_pieces st)[hp1_index p := hp1_hash p]\<rparr>) else Inl Contract)"
  by (simp add: v1_set_finished_piece_def st_set_piece_hash_def piece_slots_ok_def rbind_expects)

interpretation v1w: piece_sink v1_set_finished_piece hp1_index "\<lambda>st i. st_pieces st ! i"
  "\<lambda>st i. i < length (st_pieces st) \<and> piece_slots_ok st" "\<lambda>st. hp1_hash" "\<lambda>st. st\<lparr>st_pieces := []\<rparr>"
  by unfold_locales
    (auto simp: v1_set_finished_piece_eq piece_slots_ok_def nth_list_update split: if_splits)

lemma v1_write_pieces:
  assumes "length (st_pieces st) = st_piece_count st" "length bs = st_piece_count st"
    "mset ps = mset (v1_pieces H 0 bs)"
  shows "rfold v1_set_finished_piece ps st = Inr (st\<lparr>st_pieces := map H bs\<rparr>)"
proof -
  let ?qs = "v1_pieces H 0 bs"
  have "list_all (\<lambda>p. hp1_index p < length (st_pieces st) \<and> piece_slots_ok st) ?qs"
    using v1_pieces_bounded [of 0 bs H] assms(1,2) by (simp add: list_all_iff piece_slots_ok_def)
  then obtain st' where st': "rfold v1_set_finished_piece ps st = Inr st'"
      "st'\<lparr>st_pieces := []\<rparr> = st\<lparr>st_pieces := []\<rparr>" "\<forall>p \<in> set ?qs. st_pieces st' ! hp1_index p = hp1_hash p"
    using v1w.put_permuted [OF assms(3), of st] by auto
  have len: "length (st_pieces st') = length (st_pieces st)"
    using st'(1) by (rule rfold_invariant [where P = "\<lambda>s. length (st_pieces s) = length (st_pieces st)"])
      (auto simp: v1_set_finished_piece_eq split: if_splits)
  have "st_pieces st' = map H bs"
  proof (rule nth_equalityI)
    show "length (st_pieces st') = length (map H bs)" using len assms(1,2) by simp
  next
    fix i
    assume "i < length (st_pieces st')"
    then have i: "i < length bs" using len assms(1,2) by simp
    from st'(3) v1_pieces_mem [OF i, of H 0] show "st_pieces st' ! i = map H bs ! i" using i by force
  qed
  then have "st' = st'\<lparr>st_pieces := []\<rparr>\<lparr>st_pieces := map H bs\<rparr>" by simp
  then show ?thesis using st'(1,2) by simp
qed

text \<open>
  The v1 writer stores exactly the SHA-1 digests of the pieces, in the order of the pieces,
  whatever order the hashing threads deliver them in, and changes nothing else.
\<close>

theorem v1_writer_any_order:
  assumes "length (st_pieces st) = st_piece_count st" "length bs = st_piece_count st"
    "mset ps = mset (v1_pieces H 0 bs)"
  shows "rfold v1_set_finished_piece ps st = Inr (st\<lparr>st_pieces := map H bs\<rparr>)"
  by (rule v1_write_pieces [OF assms])

theorem v1_writer_any_order_witness:
  "rfold v1_set_finished_piece [\<lparr>hp1_hash = [9], hp1_index = 1\<rparr>, \<lparr>hp1_hash = [7], hp1_index = 0\<rparr>]
     (st_allocate_pieces (sample_storage 2 [3]))
   = Inr ((sample_storage 2 [3])\<lparr>st_pieces := [[7], [9]]\<rparr>)"
proof -
  let ?st = "st_allocate_pieces (sample_storage 2 [3])"
  have count: "length (st_pieces ?st) = st_piece_count ?st" "length [[7, 8], [9 :: byte]] = st_piece_count ?st"
    by (simp_all add: st_allocate_pieces_def st_piece_count_def size_add_def size_sub_def size_bound_def)
  have "mset [\<lparr>hp1_hash = [9], hp1_index = 1\<rparr>, \<lparr>hp1_hash = [7], hp1_index = 0\<rparr>]
      = mset (v1_pieces (take 1) 0 [[7, 8], [9]])"
    by (simp add: v1_pieces_def upt_rec)
  from v1_writer_any_order [OF count this] show ?thesis
    by (simp add: st_allocate_pieces_def del: rfold.simps)
qed

section \<open>v2 pieces\<close>

text \<open>
  The Merkle tree of every file and the number of its blocks hashed so far. The update of a tree,
  which differs with the kind of hasher, is the template parameter \<open>upd\<close>.
\<close>

record v2_writer =
  vw_storage :: file_storage
  vw_trees :: "merkle_tree list"
  vw_blocks_hashed :: "nat list"

type_synonym 'h tree_update = "'h \<Rightarrow> merkle_tree \<Rightarrow> ('h \<times> merkle_tree) result"

definition vw_initialize_trees :: "file_storage \<Rightarrow> merkle_tree list result" where
  "vw_initialize_trees st =
     rfold (\<lambda>entry trees.
        if fe_is_padding_file entry then Inr (trees @ [[]])
        else rbind (set_leaf_nodes (block_count_of entry) (hash_zero 32)) (\<lambda>t. Inr (trees @ [t])))
       (st_files st) []"

definition vw_new :: "file_storage \<Rightarrow> v2_writer result" where
  "vw_new st = rbind (vw_initialize_trees st) (\<lambda>trees.
     Inr \<lparr>vw_storage = st, vw_trees = trees, vw_blocks_hashed = replicate (st_file_count st) 0\<rparr>)"

definition set_file :: "nat \<Rightarrow> file_entry \<Rightarrow> file_storage \<Rightarrow> file_storage" where
  "set_file i e st = st\<lparr>st_files := (st_files st)[i := e]\<rparr>"

text \<open>The hashes a piece layer keeps: the nodes that only balance the tree are cut off.\<close>

definition data_layer :: "merkle_tree \<Rightarrow> nat \<Rightarrow> nat \<Rightarrow> file_entry \<Rightarrow> hash list result" where
  "data_layer tree layer_depth piece_size entry =
     rbind (get_layer tree layer_depth) (\<lambda>layer_view.
       let n = ceil_div (fe_file_size entry) piece_size in
       if length layer_view \<noteq> n
       then (if n \<le> length layer_view then Inr (take n layer_view) else Inl Undefined)
       else Inr layer_view)"

definition set_piece_layers_and_root ::
    "'h tree_update \<Rightarrow> nat \<Rightarrow> 'h \<times> v2_writer \<Rightarrow> ('h \<times> v2_writer) result" where
  "set_piece_layers_and_root upd file_index hw =
     (let (h, w) = hw; st = vw_storage w; piece_size = st_piece_size st in
      rbind (expects (v2_block_size \<le> piece_size)) (\<lambda>_.
      rbind (expects (piece_size mod v2_block_size = 0)) (\<lambda>_.
      if \<not> file_index < length (vw_trees w) then Inl Undefined
      else
        rbind (upd h (vw_trees w ! file_index)) (\<lambda>(h, tree).
        let layer_offset = log2_floor piece_size - log2_floor v2_block_size;
            w = w\<lparr>vw_trees := (vw_trees w)[file_index := tree]\<rparr> in
        rbind (st_at st file_index) (\<lambda>entry.
        rbind (mt_root tree) (\<lambda>r.
        let entry = fe_set_pieces_root r entry in
        if tree_height tree \<le> layer_offset
        then Inr (h, w\<lparr>vw_storage := set_file file_index (fe_set_piece_layer [] entry) st\<rparr>)
        else
          rbind (data_layer tree (tree_height tree - layer_offset) piece_size entry) (\<lambda>layer.
            Inr (h, w\<lparr>vw_storage := set_file file_index (fe_set_piece_layer layer entry) st\<rparr>))))))))"

definition v2_set_finished_piece ::
    "'h tree_update \<Rightarrow> v2_hashed_piece \<Rightarrow> 'h \<times> v2_writer \<Rightarrow> ('h \<times> v2_writer) result" where
  "v2_set_finished_piece upd p hw =
     (let (h, w) = hw; f = hp2_file_index p in
      rbind (st_get (vw_storage w) f) (\<lambda>entry.
      if \<not> (f < length (vw_trees w) \<and> f < length (vw_blocks_hashed w)) then Inl Undefined
      else
        rbind (set_leaf (hp2_leaf_index p) (hp2_hash p) (vw_trees w ! f)) (\<lambda>tree.
        let w = w\<lparr>vw_trees := (vw_trees w)[f := tree]\<rparr> in
        rbind (div_ceil (fe_file_size entry) (KiB 16)) (\<lambda>num_blocks_in_file.
        let tmp = vw_blocks_hashed w ! f;
            w = w\<lparr>vw_blocks_hashed := (vw_blocks_hashed w)[f := size_add tmp 1]\<rparr> in
        if num_blocks_in_file \<le> size_add tmp 1 then set_piece_layers_and_root upd f (h, w)
        else Inr (h, w)))))"

definition v2_set_finished_v1_piece :: "v1_hashed_piece \<Rightarrow> v2_writer \<Rightarrow> v2_writer result" where
  "v2_set_finished_v1_piece p w =
     rbind (st_set_piece_hash (hp1_index p) (hp1_hash p) (vw_storage w)) (\<lambda>st. Inr (w\<lparr>vw_storage := st\<rparr>))"

subsection \<open>Completing a file\<close>

lemma complete_file:
  assumes "st_piece_size (vw_storage w) = 2 ^ k * v2_block_size" "f < length (vw_trees w)"
    "f < length (st_files (vw_storage w))" "mt_ok (tree_height_of data) (vw_trees w ! f)"
    "\<And>j. j < 2 ^ tree_height_of data \<Longrightarrow> vw_trees w ! f ! flat (tree_height_of data) j = leaf_of H data j"
    "length data = fe_file_size (st_files (vw_storage w) ! f)"
    "ceil_div (length data) v2_block_size \<le> 2 ^ tree_height_of data"
  shows "\<exists>tree. set_piece_layers_and_root (mt_update H) f (hasher_new, w)
    = Inr (hasher_new, w\<lparr>vw_trees := (vw_trees w)[f := tree],
         vw_storage := set_file f (fe_set_piece_layer (v2_layer H k data)
           (fe_set_pieces_root (v2_root H data) (st_files (vw_storage w) ! f))) (vw_storage w)\<rparr>)"
proof -
  let ?h = "tree_height_of data" and ?ps = "st_piece_size (vw_storage w)"
  obtain t where t: "mt_update H hasher_new (vw_trees w ! f) = Inr (hasher_new, t)"
      "mt_root t = Inr (v2_root H data)" "tree_height t = ?h"
      "\<And>k. k < ?h \<Longrightarrow> get_layer t (?h - k) = Inr (map (merkle_hash H (leaf_of H data) k) [0..<2 ^ (?h - k)])"
      "\<And>k. k < ?h \<Longrightarrow> ceil_div (length data) (2 ^ k * v2_block_size) \<le> 2 ^ (?h - k)"
    using update_full_tree [OF assms(4,5,7)] by metis
  have off: "log2_floor ?ps - log2_floor v2_block_size = k" using assms(1) by (simp add: log2_piece_size)
  have size: "v2_block_size \<le> ?ps" "?ps mod v2_block_size = 0" using assms(1) by simp_all
  show ?thesis
  proof (cases "?h \<le> k")
    case True
    then show ?thesis
      using assms(2,3) t(1-3) off size
      by (intro exI [of _ t]) (simp add: set_piece_layers_and_root_def Let_def expects_def st_at_def v2_layer_def)
  next
    case False
    have "data_layer t (?h - k) ?ps e = Inr (v2_layer H k data)" if "fe_file_size e = length data" for e
      using False that t(4,5) [of k] assms(1)
      by (auto simp: data_layer_def Let_def take_upt_map v2_layer_def)
    moreover have "fe_file_size (fe_set_pieces_root r e) = fe_file_size e" for r e
      by (simp add: fe_set_pieces_root_def)
    ultimately show ?thesis
      using False assms(2,3,6) t(1-3) off size
      by (intro exI [of _ t]) (simp add: set_piece_layers_and_root_def Let_def expects_def st_at_def)
  qed
qed

subsection \<open>The writer collects leaves\<close>

definition completed :: "digest_function \<Rightarrow> nat \<Rightarrow> byte list \<Rightarrow> file_entry \<Rightarrow> file_entry" where
  "completed H k data e =
     (if data = [] then e else fe_set_piece_layer (v2_layer H k data) (fe_set_pieces_root (v2_root H data) e))"

definition writer_inv :: "digest_function \<Rightarrow> leaf_context \<Rightarrow> hasher \<times> v2_writer \<Rightarrow> bool" where
  "writer_inv H c hw \<longleftrightarrow> lc_ok c \<and> lc_hash c = H \<and> fst hw = hasher_new \<and>
     vw_storage (snd hw) = (lc_storage c)\<lparr>st_files := st_files (vw_storage (snd hw))\<rparr> \<and>
     length (st_files (vw_storage (snd hw))) = st_file_count (lc_storage c) \<and>
     length (vw_trees (snd hw)) = st_file_count (lc_storage c) \<and>
     length (vw_blocks_hashed (snd hw)) = st_file_count (lc_storage c) \<and>
     (\<forall>f < st_file_count (lc_storage c). fe_is_padding_file (st_files (lc_storage c) ! f) \<longrightarrow>
        st_files (vw_storage (snd hw)) ! f = st_files (lc_storage c) ! f)"

lemma writer_put_leaf:
  assumes "writer_inv H c (h, w)" "regular c f" "st_files (vw_storage w) ! f = st_files (lc_storage c) ! f"
    "mt_ok (height_in c f) (vw_trees w ! f)" "j < 2 ^ height_in c f"
    "t = (vw_trees w ! f)[flat (height_in c f) j := x]"
    "Suc (vw_blocks_hashed w ! f) < blocks_in c f \<or>
     Suc (vw_blocks_hashed w ! f) = blocks_in c f \<and> full_tree c f t"
  shows "\<exists>w'. v2_set_finished_piece (mt_update H) \<lparr>hp2_hash = x, hp2_file_index = f, hp2_leaf_index = j\<rparr> (h, w)
      = Inr (hasher_new, w') \<and> writer_inv H c (hasher_new, w') \<and>
    vw_blocks_hashed w' ! f = Suc (vw_blocks_hashed w ! f) \<and>
    (if Suc (vw_blocks_hashed w ! f) < blocks_in c f
     then vw_trees w' ! f = t \<and> st_files (vw_storage w') ! f = st_files (lc_storage c) ! f
     else st_files (vw_storage w') ! f
       = completed H (lc_exponent c) (lc_contents c f) (st_files (lc_storage c) ! f)) \<and>
    (\<forall>g. regular c g \<longrightarrow> g \<noteq> f \<longrightarrow> vw_trees w' ! g = vw_trees w ! g \<and>
       vw_blocks_hashed w' ! g = vw_blocks_hashed w ! g \<and>
       st_files (vw_storage w') ! g = st_files (vw_storage w) ! g)"
proof -
  let ?e = "st_files (lc_storage c) ! f" and ?n = "blocks_in c f" and ?c = "vw_blocks_hashed w ! f"
    and ?data = "lc_contents c f"
  have f: "f < st_file_count (lc_storage c)" "\<not> fe_is_padding_file ?e" using assms(2) by (simp_all add: regular_def)
  have h: "h = hasher_new" using assms(1) by (simp add: writer_inv_def)
  have shape: "vw_storage w = (lc_storage c)\<lparr>st_files := st_files (vw_storage w)\<rparr>"
    using assms(1) by (simp add: writer_inv_def)
  have lens: "length (st_files (vw_storage w)) = st_file_count (lc_storage c)"
    "length (vw_trees w) = st_file_count (lc_storage c)" "length (vw_blocks_hashed w) = st_file_count (lc_storage c)"
    using assms(1) by (simp_all add: writer_inv_def)
  have lc: "st_piece_size (lc_storage c) = 2 ^ lc_exponent c * v2_block_size" "length ?data = fe_file_size ?e" "?n \<le> 2 ^ 30"
    using assms(1) f by (auto simp: writer_inv_def lc_ok_def contents_ok_def)
  have leaf: "set_leaf j x (vw_trees w ! f) = Inr t"
    using node_access(2) [OF assms(4) order.refl assms(5)] tree_height_ok [OF assms(4)]
    by (simp add: set_leaf_def assms(6))
  have c: "size_add ?c 1 = Suc ?c" using assms(7) lc(3) by (auto simp: size_add_exact size_bound_def)
  have blocks: "div_ceil (fe_file_size ?e) (KiB 16) = Inr ?n"
    using div_ceil_exact [of 16384 "fe_file_size ?e"] lc(2)
    by (simp add: KiB_def size_mul_def size_bound_def file_blocks_def)
  define w1 where "w1 = w\<lparr>vw_trees := (vw_trees w)[f := t], vw_blocks_hashed := (vw_blocks_hashed w)[f := Suc ?c]\<rparr>"
  have run: "v2_set_finished_piece (mt_update H) \<lparr>hp2_hash = x, hp2_file_index = f, hp2_leaf_index = j\<rparr> (h, w)
      = (if ?n \<le> Suc ?c then set_piece_layers_and_root (mt_update H) f (hasher_new, w1) else Inr (hasher_new, w1))"
    using f(1) lens assms(3) leaf blocks c
    by (simp add: v2_set_finished_piece_def st_get_def expects_def Let_def w1_def h)
  show ?thesis
  proof (cases "Suc ?c < ?n")
    case True
    have "writer_inv H c (hasher_new, w1)" using assms(1) by (simp add: writer_inv_def w1_def)
    with True run show ?thesis
      using f lens assms(3) by (intro exI [of _ w1]) (simp add: w1_def)
  next
    case False
    then have full: "Suc ?c = ?n" "full_tree c f t" using assms(7) by auto
    have ne: "?data \<noteq> []" using full(1) by auto
    obtain t0 where nh: "?n \<le> 2 ^ height_in c f" by (rule tree_of_file [OF ne lc(3)])
    have w1: "st_piece_size (vw_storage w1) = 2 ^ lc_exponent c * v2_block_size" "f < length (vw_trees w1)"
      "f < length (st_files (vw_storage w1))" "vw_trees w1 ! f = t" "st_files (vw_storage w1) ! f = ?e"
      using arg_cong [OF shape, of st_piece_size] lc(1) f(1) lens assms(3) by (simp_all add: w1_def)
    have lh: "lc_hash c = H" using assms(1) by (simp add: writer_inv_def)
    obtain tree where tree: "set_piece_layers_and_root (mt_update H) f (hasher_new, w1)
        = Inr (hasher_new, w1\<lparr>vw_trees := (vw_trees w1)[f := tree],
            vw_storage := set_file f (completed H (lc_exponent c) ?data ?e) (vw_storage w1)\<rparr>)"
      using complete_file [of w1 "lc_exponent c" f ?data H] w1 full(2) lc(2) nh ne lh
      by (auto simp: completed_def full_tree_def file_blocks_def)
    let ?w' = "w1\<lparr>vw_trees := (vw_trees w1)[f := tree],
            vw_storage := set_file f (completed H (lc_exponent c) ?data ?e) (vw_storage w1)\<rparr>"
    have "vw_storage ?w' = (lc_storage c)\<lparr>st_files := st_files (vw_storage ?w')\<rparr>"
      by (simp add: w1_def set_file_def) (subst shape, simp)
    moreover have "(st_files (vw_storage w))[f := x] ! g = st_files (lc_storage c) ! g"
      if "g < st_file_count (lc_storage c)" "fe_is_padding_file (st_files (lc_storage c) ! g)" for g x
      using assms(1) f(2) that by (cases "g = f") (auto simp: writer_inv_def)
    ultimately have "writer_inv H c (hasher_new, ?w')"
      using assms(1) by (simp add: writer_inv_def w1_def set_file_def)
    with False full(1) run tree show ?thesis
      using f lens by (intro exI [of _ ?w']) (simp add: w1_def set_file_def)
  qed
qed

interpretation vw: leaf_collector "v2_set_finished_piece (mt_update H)" "writer_inv H"
  "\<lambda>hw f. vw_trees (snd hw) ! f" "\<lambda>hw f. vw_blocks_hashed (snd hw) ! f"
  "\<lambda>hw f. st_files (vw_storage (snd hw)) ! f" "\<lambda>c f. st_files (lc_storage c) ! f"
  "\<lambda>c f. completed H (lc_exponent c) (lc_contents c f) (st_files (lc_storage c) ! f)" for H
proof unfold_locales
  show "lc_ok c" if "writer_inv H c s" for c s using that by (simp add: writer_inv_def)
next
  fix c :: leaf_context and s :: "hasher \<times> v2_writer" and f j :: nat and t x
  assume a: "writer_inv H c s" "regular c f" "st_files (vw_storage (snd s)) ! f = st_files (lc_storage c) ! f"
    "mt_ok (height_in c f) (vw_trees (snd s) ! f)" "j < 2 ^ height_in c f"
    "t = (vw_trees (snd s) ! f)[flat (height_in c f) j := x]"
    "Suc (vw_blocks_hashed (snd s) ! f) < blocks_in c f \<or>
     Suc (vw_blocks_hashed (snd s) ! f) = blocks_in c f \<and> full_tree c f t"
  obtain h w where s: "s = (h, w)" by (cases s)
  from writer_put_leaf [of H c h w f j t x] a
  show "\<exists>s'. v2_set_finished_piece (mt_update H) \<lparr>hp2_hash = x, hp2_file_index = f, hp2_leaf_index = j\<rparr> s = Inr s' \<and>
      writer_inv H c s' \<and> vw_blocks_hashed (snd s') ! f = Suc (vw_blocks_hashed (snd s) ! f) \<and>
      (if Suc (vw_blocks_hashed (snd s) ! f) < blocks_in c f
       then vw_trees (snd s') ! f = t \<and> st_files (vw_storage (snd s')) ! f = st_files (lc_storage c) ! f
       else st_files (vw_storage (snd s')) ! f
         = completed H (lc_exponent c) (lc_contents c f) (st_files (lc_storage c) ! f)) \<and>
      (\<forall>g. regular c g \<longrightarrow> g \<noteq> f \<longrightarrow> vw_trees (snd s') ! g = vw_trees (snd s) ! g \<and>
        vw_blocks_hashed (snd s') ! g = vw_blocks_hashed (snd s) ! g \<and>
        st_files (vw_storage (snd s')) ! g = st_files (vw_storage (snd s)) ! g)"
    unfolding s by fastforce
qed

lemma vw_new_trees:
  assumes "contents_ok st contents"
  shows "vw_new st = Inr \<lparr>vw_storage = st, vw_trees = map new_tree (st_files st),
      vw_blocks_hashed = replicate (st_file_count st) 0\<rparr>"
proof -
  have "(if fe_is_padding_file e then Inr (ts @ [[]])
         else rbind (set_leaf_nodes (block_count_of e) (hash_zero 32)) (\<lambda>t. Inr (ts @ [t])))
      = Inr (ts @ [new_tree e])" if e: "e \<in> set (st_files st)" for e ts
    using new_tree_entry [OF assms e] by (cases "fe_is_padding_file e") (simp_all add: padding_tree)
  then have "vw_initialize_trees st = Inr ([] @ map new_tree (st_files st))"
    unfolding vw_initialize_trees_def by (rule rfold_snoc_map)
  then show ?thesis by (simp add: vw_new_def)
qed

lemma v2_write_leaves:
  assumes "st_piece_size st = 2 ^ k * v2_block_size" "contents_ok st contents"
    "mset ps = mset (all_leaves H st contents)"
  shows "\<exists>w w'. vw_new st = Inr w \<and>
    rfold (v2_set_finished_piece (mt_update H)) ps (hasher_new, w) = Inr (hasher_new, w') \<and>
    vw_storage w' = st\<lparr>st_files := map (\<lambda>f. if fe_is_padding_file (st_files st ! f) then st_files st ! f
        else completed H k (contents f) (st_files st ! f)) [0..<st_file_count st]\<rparr>"
proof -
  define c where "c = \<lparr>lc_hash = H, lc_exponent = k, lc_storage = st, lc_contents = contents\<rparr>"
  define w where "w = \<lparr>vw_storage = st, vw_trees = map new_tree (st_files st),
      vw_blocks_hashed = replicate (st_file_count st) 0\<rparr>"
  have w: "vw_new st = Inr w" "vw_storage w = st" "vw_trees w = map new_tree (st_files st)"
      "vw_blocks_hashed w = replicate (st_file_count st) 0"
    using vw_new_trees [OF assms(2)] by (simp_all add: w_def)
  have inv: "writer_inv H c (hasher_new, w)"
    using assms(1,2) w by (simp add: writer_inv_def c_def lc_ok_def st_file_count_def)
  obtain h w' where w': "rfold (v2_set_finished_piece (mt_update H)) ps (hasher_new, w) = Inr (h, w')"
      "writer_inv H c (h, w')" "\<And>f. regular c f \<Longrightarrow> st_files (vw_storage w') ! f
        = (if contents f = [] then st_files st ! f else completed H k (contents f) (st_files st ! f))"
    using vw.put_leaves_permuted [OF inv, of ps] w assms(3)
    by (auto simp: c_def regular_def st_file_count_def)
  have "st_files (vw_storage w') ! f = (if fe_is_padding_file (st_files st ! f) then st_files st ! f
        else completed H k (contents f) (st_files st ! f))" if "f < st_file_count st" for f
    using w'(2) w'(3) [of f] that by (auto simp: writer_inv_def c_def regular_def completed_def)
  moreover have "length (st_files (vw_storage w')) = st_file_count st"
    using w'(2) by (simp add: writer_inv_def c_def)
  ultimately have "st_files (vw_storage w') = map (\<lambda>f. if fe_is_padding_file (st_files st ! f) then st_files st ! f
        else completed H k (contents f) (st_files st ! f)) [0..<st_file_count st]"
    by (intro nth_equalityI) simp_all
  moreover have "h = hasher_new" "vw_storage w' = st\<lparr>st_files := st_files (vw_storage w')\<rparr>"
    using w'(2) by (simp_all add: writer_inv_def c_def)
  ultimately show ?thesis using w(1) w'(1) by metis
qed

text \<open>
  C11: Whatever the order in which the digests of the 16 KiB blocks of all files arrive, the v2 writer
  gives every non-empty regular file the root of its Merkle tree, whose missing leaves are zero, as
  its pieces root, and as its piece layer the hashes that cover one piece each, or no layer if the
  file fits in one piece; padding and empty files and everything else in the storage stay as they are.
\<close>

theorem v2_writer_any_order:
  assumes "st_piece_size st = 2 ^ k * v2_block_size" "contents_ok st contents"
    "mset ps = mset (all_leaves H st contents)"
  shows "\<exists>w w'. vw_new st = Inr w \<and>
    rfold (v2_set_finished_piece (mt_update H)) ps (hasher_new, w) = Inr (hasher_new, w') \<and>
    vw_storage w' = st\<lparr>st_files := map (\<lambda>f. if fe_is_padding_file (st_files st ! f) then st_files st ! f
        else completed H k (contents f) (st_files st ! f)) [0..<st_file_count st]\<rparr>"
  by (rule v2_write_leaves [OF assms])

text \<open>Two blocks of a file delivered in the wrong order.\<close>

definition two_blocks :: "byte list" where
  "two_blocks = replicate 16384 1 @ [2]"

lemma two_blocks_facts:
  "length two_blocks = 16385" "two_blocks \<noteq> []" "ceil_div 16385 16384 = 2"
  "blocks 16384 two_blocks = [replicate 16384 1, [2]]" "tree_height_of two_blocks = 1"
  "leaf_of (take 1) two_blocks 0 = [1]" "leaf_of (take 1) two_blocks 1 = [2]"
proof -
  show len: "length two_blocks = 16385" and "two_blocks \<noteq> []" by (simp_all add: two_blocks_def)
  show n: "ceil_div 16385 16384 = 2" by (simp add: ceil_div_def)
  show bl: "blocks 16384 two_blocks = [replicate 16384 1, [2]]"
    using blocks_append [of "replicate 16384 (1 :: byte)" 1 16384 "[2]"]
    by (simp add: two_blocks_def blocks_def ceil_div_def block_of_def)
  show "tree_height_of two_blocks = 1" using log2_ceil_power [of 1] by (simp add: tree_height_of_def len n)
  show "leaf_of (take 1) two_blocks 0 = [1]" "leaf_of (take 1) two_blocks 1 = [2]"
    using nth_blocks [of 0 two_blocks 16384, symmetric] nth_blocks [of 1 two_blocks 16384, symmetric]
    unfolding bl len n by (simp_all add: leaf_of_def len n)
qed

theorem v2_writer_any_order_witness:
  "\<exists>w w'. vw_new (sample_storage 16384 [16385]) = Inr w \<and>
    rfold (v2_set_finished_piece (mt_update (take 1)))
      [\<lparr>hp2_hash = [2], hp2_file_index = 0, hp2_leaf_index = 1\<rparr>,
       \<lparr>hp2_hash = [1], hp2_file_index = 0, hp2_leaf_index = 0\<rparr>] (hasher_new, w) = Inr (hasher_new, w') \<and>
    map fe_pieces_root (st_files (vw_storage w')) = [[1]] \<and>
    map fe_piece_layer (st_files (vw_storage w')) = [[[1], [2]]]"
proof -
  let ?st = "sample_storage 16384 [16385]"
  have st: "st_file_count ?st = 1" by (simp add: st_file_count_def)
  have ok: "contents_ok ?st (\<lambda>_. two_blocks)"
    using two_blocks_facts by (simp add: contents_ok_def st file_blocks_def)
  have ps: "st_piece_size ?st = 2 ^ 0 * v2_block_size" by simp
  have perm: "mset [\<lparr>hp2_hash = [2], hp2_file_index = 0, hp2_leaf_index = 1\<rparr>,
       \<lparr>hp2_hash = [1], hp2_file_index = 0, hp2_leaf_index = 0\<rparr>] = mset (all_leaves (take 1) ?st (\<lambda>_. two_blocks))"
    using two_blocks_facts by (simp add: all_leaves_def st v2_leaves_def upt_rec)
  have "completed (take 1) 0 two_blocks e = fe_set_piece_layer [[1], [2]] (fe_set_pieces_root [1] e)" for e
    using two_blocks_facts by (simp add: completed_def v2_layer_def v2_root_def upt_rec)
  with v2_writer_any_order [OF ps ok perm] show ?thesis
    by (auto simp: st fe_set_piece_layer_def fe_set_pieces_root_def simp del: rfold.simps)
qed

end
