(* ===== verification/Piece_Verifiers.thy ===== *)
theory Piece_Verifiers
  imports Piece_Writers Complex_Main
begin

text \<open>
  The objects that compare hashed pieces with the hashes of the metafile: \<^verbatim>\<open>v1_piece_verifier.cpp\<close>
  and \<^verbatim>\<open>v2_piece_verifier.cpp\<close>. A percentage is the exact rational that the code rounds to a
  \<^verbatim>\<open>double\<close>.
\<close>

section \<open>v1 pieces\<close>

record v1_verifier =
  vv_storage :: file_storage
  vv_piece_map :: "nat list"

definition v1_verifier_new :: "file_storage \<Rightarrow> v1_verifier" where
  "v1_verifier_new st = \<lparr>vv_storage = st, vv_piece_map = replicate (st_piece_count st) 0\<rparr>"

definition v1_verify_finished_piece :: "v1_hashed_piece \<Rightarrow> v1_verifier \<Rightarrow> v1_verifier result" where
  "v1_verify_finished_piece p v =
     (let st = vv_storage v; i = hp1_index p in
      rbind (expects (i < st_piece_count st)) (\<lambda>_.
      rbind (st_get_piece_hash st i) (\<lambda>real_hash.
        if i < length (vv_piece_map v)
        then Inr (v\<lparr>vv_piece_map := (vv_piece_map v)[i := (if real_hash = hp1_hash p then 1 else 0)]\<rparr>)
        else Inl Undefined)))"

definition percentage_of :: "nat list \<Rightarrow> nat \<Rightarrow> rat" where
  "percentage_of bits n = of_nat (count_list bits 1) / of_nat n * 100"

definition v1_percentage :: "nat \<Rightarrow> v1_verifier \<Rightarrow> rat result" where
  "v1_percentage file_index v =
     rbind (st_get_pieces_offsets (vv_storage v) file_index) (\<lambda>(first_piece, last_piece).
       let number_of_pieces = size_sub last_piece first_piece in
       if number_of_pieces = 0 then Inr 100
       else if first_piece \<le> last_piece \<and> last_piece \<le> length (vv_piece_map v)
       then Inr (percentage_of (subrange (vv_piece_map v) first_piece number_of_pieces) number_of_pieces)
       else Inl Undefined)"

definition verifier_slots_ok :: "v1_verifier \<Rightarrow> bool" where
  "verifier_slots_ok v \<longleftrightarrow> length (st_pieces (vv_storage v)) = st_piece_count (vv_storage v) \<and>
     length (vv_piece_map v) = st_piece_count (vv_storage v)"

lemma v1_verify_finished_piece_eq:
  assumes "verifier_slots_ok v"
  shows "v1_verify_finished_piece p v =
     (if hp1_index p < length (vv_piece_map v)
      then Inr (v\<lparr>vv_piece_map := (vv_piece_map v)[hp1_index p :=
             (if st_pieces (vv_storage v) ! hp1_index p = hp1_hash p then 1 else 0)]\<rparr>) else Inl Contract)"
  using assms
  by (simp add: v1_verify_finished_piece_def st_get_piece_hash_def verifier_slots_ok_def rbind_expects Let_def)

lemma v1_verify_finished_piece_Inr:
  "v1_verify_finished_piece p v = Inr v' \<Longrightarrow> \<exists>b. hp1_index p < length (vv_piece_map v) \<and>
     v' = v\<lparr>vv_piece_map := (vv_piece_map v)[hp1_index p := b]\<rparr> \<and>
     b = (if st_pieces (vv_storage v) ! hp1_index p = hp1_hash p then 1 else 0)"
  by (auto simp: v1_verify_finished_piece_def st_get_piece_hash_def rbind_expects Let_def split: if_splits)

interpretation v1v: piece_sink v1_verify_finished_piece hp1_index "\<lambda>v i. vv_piece_map v ! i"
  "\<lambda>v i. i < length (vv_piece_map v) \<and> verifier_slots_ok v"
  "\<lambda>v p. if st_pieces (vv_storage v) ! hp1_index p = hp1_hash p then 1 else 0" "\<lambda>v. v\<lparr>vv_piece_map := []\<rparr>"
  by unfold_locales
    (auto simp: v1_verify_finished_piece_eq verifier_slots_ok_def nth_list_update
       split: if_splits dest!: v1_verify_finished_piece_Inr)

definition same_hashes :: "hash list \<Rightarrow> hash list \<Rightarrow> nat list" where
  "same_hashes xs ys = map2 (\<lambda>x y. if x = y then 1 else 0) xs ys"

lemma v1_verifier_run:
  assumes "length (st_pieces st) = st_piece_count st" "length bs = st_piece_count st"
    "mset ps = mset (v1_pieces H 0 bs)"
  shows "rfold v1_verify_finished_piece ps (v1_verifier_new st)
    = Inr \<lparr>vv_storage = st, vv_piece_map = same_hashes (st_pieces st) (map H bs)\<rparr>"
proof -
  let ?qs = "v1_pieces H 0 bs" and ?v = "v1_verifier_new st"
  have ok: "verifier_slots_ok ?v" using assms(1) by (simp add: verifier_slots_ok_def v1_verifier_new_def)
  have "list_all (\<lambda>p. hp1_index p < length (vv_piece_map ?v) \<and> verifier_slots_ok ?v) ?qs"
    using v1_pieces_bounded [of 0 bs H] assms(2) ok by (simp add: list_all_iff v1_verifier_new_def)
  then obtain v where v: "rfold v1_verify_finished_piece ps ?v = Inr v"
      "v\<lparr>vv_piece_map := []\<rparr> = ?v\<lparr>vv_piece_map := []\<rparr>"
      "\<forall>p \<in> set ?qs. vv_piece_map v ! hp1_index p
         = (if st_pieces (vv_storage ?v) ! hp1_index p = hp1_hash p then 1 else 0)"
    using v1v.put_permuted [OF assms(3), of ?v] by auto
  have len: "length (vv_piece_map v) = st_piece_count st"
    using v(1) by (rule rfold_invariant [where P = "\<lambda>s. length (vv_piece_map s) = st_piece_count st"])
      (auto simp: v1_verifier_new_def dest!: v1_verify_finished_piece_Inr)
  have "vv_piece_map v = same_hashes (st_pieces st) (map H bs)"
  proof (rule nth_equalityI)
    show "length (vv_piece_map v) = length (same_hashes (st_pieces st) (map H bs))"
      using len assms(1,2) by (simp add: same_hashes_def)
  next
    fix i
    assume "i < length (vv_piece_map v)"
    then have i: "i < length bs" using len assms(2) by simp
    from v(3) v1_pieces_mem [OF i, of H 0]
    show "vv_piece_map v ! i = same_hashes (st_pieces st) (map H bs) ! i"
      using i assms(1,2) by (force simp: same_hashes_def v1_verifier_new_def)
  qed
  moreover have "vv_storage v = st"
    using arg_cong [OF v(2), of vv_storage] by (simp add: v1_verifier_new_def)
  ultimately show ?thesis using v(1) by (cases v) simp
qed

text \<open>
  When the digests of all pieces of the data on disk have arrived, in whatever order, the v1
  verifier marks exactly the pieces whose digest is the one the storage holds.
\<close>

theorem v1_verifier_any_order:
  assumes "length (st_pieces st) = st_piece_count st" "length bs = st_piece_count st"
    "mset ps = mset (v1_pieces H 0 bs)"
  shows "\<exists>v. rfold v1_verify_finished_piece ps (v1_verifier_new st) = Inr v \<and>
    vv_storage v = st \<and> length (vv_piece_map v) = st_piece_count st \<and>
    list_all (\<lambda>i. vv_piece_map v ! i = (if st_pieces st ! i = H (bs ! i) then 1 else 0)) [0..<st_piece_count st]"
  using v1_verifier_run [OF assms] assms(1,2) by (auto simp: same_hashes_def list_all_iff)

theorem v1_verifier_any_order_witness:
  "\<exists>v. rfold v1_verify_finished_piece [\<lparr>hp1_hash = [9], hp1_index = 1\<rparr>, \<lparr>hp1_hash = [7], hp1_index = 0\<rparr>]
     (v1_verifier_new ((sample_storage 2 [3])\<lparr>st_pieces := [[7], [8]]\<rparr>)) = Inr v \<and> vv_piece_map v ! 0 = 1 \<and>
     vv_piece_map v ! 1 = 0"
proof -
  let ?st = "(sample_storage 2 [3])\<lparr>st_pieces := [[7], [8]]\<rparr>"
  have n: "st_piece_count ?st = 2"
    by (simp add: st_piece_count_def size_add_def size_sub_def size_bound_def)
  have count: "length (st_pieces ?st) = st_piece_count ?st" "length [[7, 8], [9 :: byte]] = st_piece_count ?st"
    unfolding n by simp_all
  have "mset [\<lparr>hp1_hash = [9], hp1_index = 1\<rparr>, \<lparr>hp1_hash = [7], hp1_index = 0\<rparr>]
      = mset (v1_pieces (take 1) 0 [[7, 8], [9]])"
    by (simp add: v1_pieces_def upt_rec)
  from v1_verifier_any_order [OF count this] show ?thesis
    unfolding n by (auto simp add: upt_rec simp del: rfold.simps)
qed

section \<open>v2 pieces\<close>

definition size_max :: nat where
  "size_max = size_bound - 1"

record v2_verifier =
  v2v_storage :: file_storage
  v2v_trees :: "merkle_tree list"
  v2v_blocks_hashed :: "nat list"
  v2v_piece_map :: "nat list"
  v2v_file_offsets :: "nat list"

text \<open>One round of the first loop, over the trees and the offsets built so far.\<close>

definition v2v_add_entry ::
    "file_entry \<Rightarrow> merkle_tree list \<times> nat list \<Rightarrow> (merkle_tree list \<times> nat list) result" where
  "v2v_add_entry entry to =
     (let (trees, offsets) = to; offset = last offsets in
      if fe_is_padding_file entry then Inr (trees @ [[]], butlast offsets @ [size_max, offset])
      else
        rbind (set_leaf_nodes (block_count_of entry) (hash_zero 32)) (\<lambda>m.
        rbind (fe_get_piece_layer entry) (\<lambda>layer.
        rbind (if offset = size_max
               then (if 2 \<le> length offsets then Inr (offsets ! (length offsets - 2)) else Inl Undefined)
               else Inr offset) (\<lambda>previous_offset.
          Inr (trees @ [m], offsets @ [size_add previous_offset (max 1 (length layer))])))))"

text \<open>The size of the piece map is counted in a signed 32-bit integer.\<close>

definition v2v_piece_map_size :: "file_entry list \<Rightarrow> nat result" where
  "v2v_piece_map_size es =
     rbind (rfold (\<lambda>entry n.
        if fe_is_padding_file entry then Inr n
        else rbind (fe_get_piece_layer entry) (\<lambda>layer.
          Inr (u32 (n + (if layer \<noteq> [] then length layer else 1))))) es 0) (\<lambda>n.
     if n < 2 ^ 31 then Inr n else Inl Logic_Error)"

definition v2_verifier_new :: "file_storage \<Rightarrow> v2_verifier result" where
  "v2_verifier_new st =
     (let piece_size = st_piece_size st in
      rbind (expects (v2_block_size \<le> piece_size)) (\<lambda>_.
      rbind (expects (piece_size mod v2_block_size = 0)) (\<lambda>_.
      rbind (rfold v2v_add_entry (st_files st) ([], [0])) (\<lambda>(trees, offsets).
      rbind (v2v_piece_map_size (st_files st)) (\<lambda>n.
        Inr \<lparr>v2v_storage = st, v2v_trees = trees, v2v_blocks_hashed = replicate (st_file_count st) 0,
              v2v_piece_map = replicate n 0, v2v_file_offsets = offsets\<rparr>)))))"

definition fill_n :: "nat \<Rightarrow> nat \<Rightarrow> nat \<Rightarrow> nat list \<Rightarrow> nat list result" where
  "fill_n i n b bits =
     (if i + n \<le> length bits then Inr (take i bits @ replicate n b @ drop (i + n) bits) else Inl Undefined)"

definition write_n :: "nat \<Rightarrow> nat list \<Rightarrow> nat list \<Rightarrow> nat list result" where
  "write_n i new bits =
     (if new = [] then Inr bits
      else if i + length new \<le> length bits then Inr (take i bits @ new @ drop (i + length new) bits)
      else Inl Undefined)"

text \<open>
  The marks of one file, from its complete tree: \<open>entry_index\<close> is where they start in the piece map.
\<close>

definition mark_file ::
    "nat \<Rightarrow> merkle_tree \<Rightarrow> file_entry \<Rightarrow> bool \<Rightarrow> hash list \<Rightarrow> nat \<Rightarrow> nat list \<Rightarrow> nat list result" where
  "mark_file piece_size tree entry whole_file_complete reference_layer entry_index bits =
     (if whole_file_complete then
        if reference_layer = [] then
          rbind (expects (entry_index < length bits)) (\<lambda>_. Inr (bits[entry_index := 1]))
        else fill_n entry_index (length reference_layer) 1 bits
      else
        if reference_layer = [] then
          rbind (expects (entry_index < length bits)) (\<lambda>_. Inr (bits[entry_index := 0]))
        else
          let layer_offset = size_sub (log2_floor piece_size) (log2_floor v2_block_size);
              layer_depth = size_sub (tree_height tree) layer_offset in
          rbind (get_layer tree layer_depth) (\<lambda>layer_view.
          let n = ceil_div (fe_file_size entry) piece_size in
          if n \<le> length layer_view
          then write_n entry_index (same_hashes (take n layer_view) reference_layer) bits
          else Inl Undefined))"

definition verify_piece_layers_and_root ::
    "'h tree_update \<Rightarrow> nat \<Rightarrow> 'h \<times> v2_verifier \<Rightarrow> ('h \<times> v2_verifier) result" where
  "verify_piece_layers_and_root upd file_index hv =
     (let (h, v) = hv; st = v2v_storage v; piece_size = st_piece_size st in
      if \<not> file_index < length (v2v_trees v) then Inl Undefined
      else
        rbind (upd h (v2v_trees v ! file_index)) (\<lambda>(h, tree).
        let v = v\<lparr>v2v_trees := (v2v_trees v)[file_index := tree]\<rparr> in
        rbind (st_at st file_index) (\<lambda>entry.
        rbind (vec_at (v2v_file_offsets v) file_index) (\<lambda>entry_index.
        rbind (fe_get_pieces_root entry) (\<lambda>pieces_root.
        rbind (mt_root tree) (\<lambda>r.
        rbind (fe_get_piece_layer entry) (\<lambda>reference_layer.
        rbind (mark_file piece_size tree entry (pieces_root = r) reference_layer entry_index (v2v_piece_map v))
          (\<lambda>bits. Inr (h, v\<lparr>v2v_piece_map := bits\<rparr>)))))))))"

definition v2_verify_finished_piece ::
    "'h tree_update \<Rightarrow> v2_hashed_piece \<Rightarrow> 'h \<times> v2_verifier \<Rightarrow> ('h \<times> v2_verifier) result" where
  "v2_verify_finished_piece upd p hv =
     (let (h, v) = hv; f = hp2_file_index p in
      rbind (st_get (v2v_storage v) f) (\<lambda>entry.
      if \<not> (f < length (v2v_trees v) \<and> f < length (v2v_blocks_hashed v)) then Inl Undefined
      else
        rbind (set_leaf (hp2_leaf_index p) (hp2_hash p) (v2v_trees v ! f)) (\<lambda>tree.
        let v = v\<lparr>v2v_trees := (v2v_trees v)[f := tree]\<rparr> in
        rbind (div_ceil (fe_file_size entry) (KiB 16)) (\<lambda>num_blocks_in_file.
        let tmp = v2v_blocks_hashed v ! f;
            v = v\<lparr>v2v_blocks_hashed := (v2v_blocks_hashed v)[f := size_add tmp 1]\<rparr> in
        if num_blocks_in_file \<le> size_add tmp 1 then verify_piece_layers_and_root upd f (h, v)
        else Inr (h, v)))))"

text \<open>The entries of the piece map a file occupies.\<close>

definition slots_of :: "file_entry \<Rightarrow> nat" where
  "slots_of e = (if fe_is_padding_file e then 0 else max 1 (length (fe_piece_layer e)))"

definition v2_percentage :: "nat \<Rightarrow> v2_verifier \<Rightarrow> rat result" where
  "v2_percentage file_index v =
     rbind (expects (file_index < length (v2v_file_offsets v))) (\<lambda>_.
     rbind (st_get (v2v_storage v) file_index) (\<lambda>entry.
       if fe_is_padding_file entry \<or> fe_file_size entry = 0 then Inr 100
       else
         rbind (fe_get_piece_layer entry) (\<lambda>layer.
         let number_of_pieces = (if layer \<noteq> [] then length layer else 1) in
         rbind (rfold (\<lambda>e n. if fe_is_padding_file e then Inr n
                       else rbind (fe_get_piece_layer e) (\<lambda>l. Inr (size_add n (max 1 (length l)))))
                  (take file_index (st_files (v2v_storage v))) 0) (\<lambda>first_index.
           if first_index + number_of_pieces \<le> length (v2v_piece_map v)
           then Inr (percentage_of (subrange (v2v_piece_map v) first_index number_of_pieces) number_of_pieces)
           else Inl Undefined))))"

subsection \<open>Where a file's pieces are in the piece map\<close>

definition slot_start :: "file_entry list \<Rightarrow> nat \<Rightarrow> nat" where
  "slot_start es i = sum_list (map slots_of (take i es))"

definition overwrite :: "nat \<Rightarrow> 'a list \<Rightarrow> 'a list \<Rightarrow> 'a list" where
  "overwrite i new xs = take i xs @ new @ drop (i + length new) xs"

lemma slot_start_Suc: "i < length es \<Longrightarrow> slot_start es (Suc i) = slot_start es i + slots_of (es ! i)"
  by (simp add: slot_start_def take_Suc_conv_app_nth)

lemma slot_start_mono: "i \<le> j \<Longrightarrow> slot_start es i \<le> slot_start es j"
proof -
  assume "i \<le> j"
  then have "take j es = take i es @ take (j - i) (drop i es)" by (metis le_add_diff_inverse take_add)
  then show ?thesis by (simp add: slot_start_def)
qed

lemma slot_end: "f < g \<Longrightarrow> f < length es \<Longrightarrow> slot_start es f + slots_of (es ! f) \<le> slot_start es g"
  using slot_start_mono [of "Suc f" g es] slot_start_Suc [of f es] by simp

lemma length_overwrite [simp]: "i + length new \<le> length xs \<Longrightarrow> length (overwrite i new xs) = length xs"
  by (simp add: overwrite_def)

lemma subrange_overwrite_same: "i + length new \<le> length xs \<Longrightarrow> subrange (overwrite i new xs) i (length new) = new"
  by (simp add: overwrite_def subrange_def)

lemma subrange_overwrite_other:
  assumes "i + length new \<le> length xs" "j + n \<le> i \<or> i + length new \<le> j" "j + n \<le> length xs"
  shows "subrange (overwrite i new xs) j n = subrange xs j n"
proof (rule nth_equalityI)
  show "length (subrange (overwrite i new xs) j n) = length (subrange xs j n)"
    using assms by simp
  fix m
  assume "m < length (subrange (overwrite i new xs) j n)"
  then have m: "m < n" using assms by simp
  have "overwrite i new xs ! (j + m) = xs ! (j + m)"
    using assms m by (auto simp: overwrite_def nth_append)
  then show "subrange (overwrite i new xs) j n ! m = subrange xs j n ! m"
    using m assms by (simp add: subrange_def)
qed

lemma fill_n_overwrite: "i + n \<le> length xs \<Longrightarrow> fill_n i n b xs = Inr (overwrite i (replicate n b) xs)"
  by (simp add: fill_n_def overwrite_def)

lemma write_n_overwrite: "i + length new \<le> length xs \<Longrightarrow> write_n i new xs = Inr (overwrite i new xs)"
  by (simp add: write_n_def overwrite_def)

lemma list_update_overwrite: "i < length xs \<Longrightarrow> xs[i := b] = overwrite i [b] xs"
  by (simp add: overwrite_def upd_conv_take_nth_drop)

subsection \<open>A new verifier\<close>

text \<open>The number of hashes in the piece layer of a file.\<close>

definition layer_length :: "nat \<Rightarrow> byte list \<Rightarrow> nat" where
  "layer_length k data =
     (if tree_height_of data \<le> k then 0 else ceil_div (length data) (2 ^ k * v2_block_size))"

lemma length_v2_layer [simp]: "length (v2_layer H k data) = layer_length k data"
  by (simp add: v2_layer_def layer_length_def)

text \<open>Every regular file of the storage carries the v2 data of a metafile.\<close>

definition v2_data_ok :: "file_storage \<Rightarrow> (nat \<Rightarrow> byte list) \<Rightarrow> nat \<Rightarrow> bool" where
  "v2_data_ok st contents k \<longleftrightarrow> sum_list (map slots_of (st_files st)) < 2 ^ 31 \<and>
     (\<forall>f < st_file_count st. \<not> fe_is_padding_file (st_files st ! f) \<longrightarrow>
        fe_has_v2_data (st_files st ! f) \<and>
        length (fe_piece_layer (st_files st ! f)) = layer_length k (contents f))"

lemma v2v_offsets:
  assumes "contents_ok st contents" "\<And>e. e \<in> set (st_files st) \<Longrightarrow> \<not> fe_is_padding_file e \<Longrightarrow> fe_has_v2_data e"
    "sum_list (map slots_of (st_files st)) < 2 ^ 31" "n \<le> st_file_count st"
  shows "\<exists>offsets. rfold v2v_add_entry (take n (st_files st)) ([], [0])
      = Inr (map new_tree (take n (st_files st)), offsets) \<and> length offsets = Suc n \<and>
      last offsets = slot_start (st_files st) n \<and>
      (\<forall>f < n. \<not> fe_is_padding_file (st_files st ! f) \<longrightarrow> offsets ! f = slot_start (st_files st) f)"
  using assms(4)
proof (induction n)
  case 0
  then show ?case by (simp add: slot_start_def)
next
  case (Suc n)
  let ?es = "st_files st"
  from Suc obtain offsets where IH: "rfold v2v_add_entry (take n ?es) ([], [0]) = Inr (map new_tree (take n ?es), offsets)"
      "length offsets = Suc n" "last offsets = slot_start ?es n"
      "\<And>f. f < n \<Longrightarrow> \<not> fe_is_padding_file (?es ! f) \<Longrightarrow> offsets ! f = slot_start ?es f" by auto
  have n: "n < length ?es" using Suc.prems by (simp add: st_file_count_def)
  have tk: "take (Suc n) ?es = take n ?es @ [?es ! n]" using n by (rule take_Suc_conv_app_nth)
  have small: "slot_start ?es (Suc n) < 2 ^ 31"
  proof -
    have "slot_start ?es (Suc n) \<le> slot_start ?es (length ?es)" using n by (intro slot_start_mono) simp
    then show ?thesis using assms(3) by (simp add: slot_start_def)
  qed
  have "offsets \<noteq> []" using IH(2) by auto
  then have last_nth: "offsets ! n = last offsets" using IH(2) by (simp add: last_conv_nth)
  show ?case
  proof (cases "fe_is_padding_file (?es ! n)")
    case True
    then have "v2v_add_entry (?es ! n) (map new_tree (take n ?es), offsets)
        = Inr (map new_tree (take (Suc n) ?es), butlast offsets @ [size_max, slot_start ?es n])"
      by (simp add: v2v_add_entry_def IH(3) tk padding_tree)
    moreover have "slot_start ?es (Suc n) = slot_start ?es n" using n True by (simp add: slot_start_Suc slots_of_def)
    ultimately show ?thesis
      using IH True n
      by (auto simp: tk rfold_append nth_append nth_butlast less_Suc_eq)
  next
    case False
    have tree: "set_leaf_nodes (block_count_of (?es ! n)) (hash_zero 32) = Inr (new_tree (?es ! n))"
      using new_tree_entry [OF assms(1) _ False] n by simp
    have layer: "fe_get_piece_layer (?es ! n) = Inr (fe_piece_layer (?es ! n))"
      using assms(2) [of "?es ! n"] False n by (simp add: fe_get_piece_layer_def)
    have start: "slot_start ?es (Suc n) = slot_start ?es n + max 1 (length (fe_piece_layer (?es ! n)))"
      using n False by (simp add: slot_start_Suc slots_of_def)
    have "slot_start ?es n \<noteq> size_max" using small start by (simp add: size_max_def size_bound_def)
    moreover have "size_add (slot_start ?es n) (max 1 (length (fe_piece_layer (?es ! n)))) = slot_start ?es (Suc n)"
      using small start by (simp add: size_add_exact size_bound_def)
    ultimately have "v2v_add_entry (?es ! n) (map new_tree (take n ?es), offsets)
        = Inr (map new_tree (take (Suc n) ?es), offsets @ [slot_start ?es (Suc n)])"
      using False tree layer by (simp add: v2v_add_entry_def IH(3) tk Let_def)
    with IH last_nth show ?thesis
      by (auto simp: tk rfold_append nth_append less_Suc_eq)
  qed
qed

lemma v2v_piece_map_size_eq:
  assumes "\<And>e. e \<in> set es \<Longrightarrow> \<not> fe_is_padding_file e \<Longrightarrow> fe_has_v2_data e" "sum_list (map slots_of es) < 2 ^ 31"
  shows "v2v_piece_map_size es = Inr (sum_list (map slots_of es))"
proof -
  have "rfold (\<lambda>entry n. if fe_is_padding_file entry then Inr n
        else rbind (fe_get_piece_layer entry) (\<lambda>layer.
          Inr (u32 (n + (if layer \<noteq> [] then length layer else 1))))) es m = Inr (m + sum_list (map slots_of es))"
    if "m + sum_list (map slots_of es) < 2 ^ 31" for m
    using assms(1) that
  proof (induction es arbitrary: m)
    case (Cons e es)
    have sl: "slots_of e = (if fe_is_padding_file e then 0 else if fe_piece_layer e = [] then 1 else length (fe_piece_layer e))"
      by (cases "fe_piece_layer e") (simp_all add: slots_of_def)
    then have "(if fe_is_padding_file e then Inr m
        else rbind (fe_get_piece_layer e) (\<lambda>layer. Inr (u32 (m + (if layer \<noteq> [] then length layer else 1)))))
        = Inr (m + slots_of e)"
      using Cons.prems by (auto simp: fe_get_piece_layer_def u32_exact split: if_splits)
    with Cons.IH [of "m + slots_of e"] Cons.prems show ?case by (simp add: add.assoc)
  qed simp
  from this [of 0] assms(2) show ?thesis by (simp add: v2v_piece_map_size_def)
qed

lemma v2_verifier_new_eq:
  assumes "contents_ok st contents" "v2_data_ok st contents k" "st_piece_size st = 2 ^ k * v2_block_size"
  obtains offsets where "v2_verifier_new st = Inr \<lparr>v2v_storage = st, v2v_trees = map new_tree (st_files st),
      v2v_blocks_hashed = replicate (st_file_count st) 0,
      v2v_piece_map = replicate (sum_list (map slots_of (st_files st))) 0, v2v_file_offsets = offsets\<rparr>"
    "length offsets = Suc (st_file_count st)"
    "\<And>f. f < st_file_count st \<Longrightarrow> \<not> fe_is_padding_file (st_files st ! f) \<Longrightarrow>
       offsets ! f = slot_start (st_files st) f"
proof -
  have v2: "\<And>e. e \<in> set (st_files st) \<Longrightarrow> \<not> fe_is_padding_file e \<Longrightarrow> fe_has_v2_data e"
    "sum_list (map slots_of (st_files st)) < 2 ^ 31"
    using assms(2) by (auto simp: v2_data_ok_def in_set_conv_nth st_file_count_def)
  obtain offsets where "rfold v2v_add_entry (st_files st) ([], [0]) = Inr (map new_tree (st_files st), offsets)"
      "length offsets = Suc (st_file_count st)"
      "\<forall>f < st_file_count st. \<not> fe_is_padding_file (st_files st ! f) \<longrightarrow> offsets ! f = slot_start (st_files st) f"
    using v2v_offsets [OF assms(1) v2 order.refl] by (auto simp: st_file_count_def)
  moreover from this assms(3) v2v_piece_map_size_eq [OF v2]
  have "v2_verifier_new st = Inr \<lparr>v2v_storage = st, v2v_trees = map new_tree (st_files st),
      v2v_blocks_hashed = replicate (st_file_count st) 0,
      v2v_piece_map = replicate (sum_list (map slots_of (st_files st))) 0, v2v_file_offsets = offsets\<rparr>"
    by (simp add: v2_verifier_new_def expects_def Let_def)
  ultimately show thesis using that by blast
qed

subsection \<open>The verifier collects leaves\<close>

text \<open>The verdict on a file, one number per piece, or one for a file without a piece layer.\<close>

definition verdict :: "digest_function \<Rightarrow> nat \<Rightarrow> byte list \<Rightarrow> file_entry \<Rightarrow> nat list" where
  "verdict H k data e =
     (if fe_pieces_root e = v2_root H data then replicate (slots_of e) 1
      else if fe_piece_layer e = [] then [0]
      else same_hashes (v2_layer H k data) (fe_piece_layer e))"

definition bits_of :: "v2_verifier \<Rightarrow> nat \<Rightarrow> nat list" where
  "bits_of v f = subrange (v2v_piece_map v) (slot_start (st_files (v2v_storage v)) f) (slots_of (st_files (v2v_storage v) ! f))"

definition verifier_inv :: "digest_function \<Rightarrow> leaf_context \<Rightarrow> hasher \<times> v2_verifier \<Rightarrow> bool" where
  "verifier_inv H c hv \<longleftrightarrow> lc_ok c \<and> lc_hash c = H \<and> fst hv = hasher_new \<and>
     v2_data_ok (lc_storage c) (lc_contents c) (lc_exponent c) \<and> v2v_storage (snd hv) = lc_storage c \<and>
     length (v2v_trees (snd hv)) = st_file_count (lc_storage c) \<and>
     length (v2v_blocks_hashed (snd hv)) = st_file_count (lc_storage c) \<and>
     length (v2v_piece_map (snd hv)) = sum_list (map slots_of (st_files (lc_storage c))) \<and>
     length (v2v_file_offsets (snd hv)) = Suc (st_file_count (lc_storage c)) \<and>
     (\<forall>f. regular c f \<longrightarrow> v2v_file_offsets (snd hv) ! f = slot_start (st_files (lc_storage c)) f)"

lemma slots_in_map:
  "f < length es \<Longrightarrow> slot_start es f + slots_of (es ! f) \<le> sum_list (map slots_of es)"
  using slot_start_mono [of "Suc f" "length es" es] slot_start_Suc [of f es] by (simp add: slot_start_def)

lemma length_verdict:
  assumes "\<not> fe_is_padding_file e" "length (fe_piece_layer e) = layer_length k data"
  shows "length (verdict H k data e) = slots_of e"
proof (cases "fe_piece_layer e = []")
  case True
  then show ?thesis using assms(1) by (simp add: verdict_def slots_of_def)
next
  case False
  then have "max 1 (length (fe_piece_layer e)) = length (fe_piece_layer e)" by (cases "fe_piece_layer e") auto
  then show ?thesis using assms False by (simp add: verdict_def slots_of_def same_hashes_def)
qed

lemma verify_complete_file:
  assumes "st_piece_size (v2v_storage v) = 2 ^ k * v2_block_size" "f < length (v2v_trees v)"
    "f < length (st_files (v2v_storage v))" "mt_ok (tree_height_of data) (v2v_trees v ! f)"
    "\<And>j. j < 2 ^ tree_height_of data \<Longrightarrow> v2v_trees v ! f ! flat (tree_height_of data) j = leaf_of H data j"
    "length data = fe_file_size e" "ceil_div (length data) v2_block_size \<le> 2 ^ tree_height_of data"
    "st_files (v2v_storage v) ! f = e" "\<not> fe_is_padding_file e" "fe_has_v2_data e"
    "length (fe_piece_layer e) = layer_length k data"
    "f < length (v2v_file_offsets v)" "v2v_file_offsets v ! f + slots_of e \<le> length (v2v_piece_map v)"
  shows "\<exists>tree. verify_piece_layers_and_root (mt_update H) f (hasher_new, v)
    = Inr (hasher_new, v\<lparr>v2v_trees := (v2v_trees v)[f := tree],
        v2v_piece_map := overwrite (v2v_file_offsets v ! f) (verdict H k data e) (v2v_piece_map v)\<rparr>)"
proof -
  let ?h = "tree_height_of data" and ?ps = "st_piece_size (v2v_storage v)" and ?i = "v2v_file_offsets v ! f"
    and ?bits = "v2v_piece_map v"
  obtain t where t: "mt_update H hasher_new (v2v_trees v ! f) = Inr (hasher_new, t)"
      "mt_root t = Inr (v2_root H data)" "tree_height t = ?h"
      "\<And>k. k < ?h \<Longrightarrow> get_layer t (?h - k) = Inr (map (merkle_hash H (leaf_of H data) k) [0..<2 ^ (?h - k)])"
      "\<And>k. k < ?h \<Longrightarrow> ceil_div (length data) (2 ^ k * v2_block_size) \<le> 2 ^ (?h - k)"
    using update_full_tree [OF assms(4,5,7)] by metis
  have len: "length (verdict H k data e) = slots_of e" by (rule length_verdict [OF assms(9,11)])
  have h30: "?h \<le> 30" using assms(4) by (simp add: mt_ok_def)
  have k: "?h - k = size_sub ?h k" if "k < ?h" using that h30 by (simp add: size_sub_exact size_bound_def)
  have off: "size_sub (log2_floor ?ps) (log2_floor v2_block_size) = k" if "k < ?h"
    using that h30 assms(1) by (simp add: log2_piece_size size_sub_exact size_bound_def)
  have roots: "fe_get_pieces_root e = Inr (fe_pieces_root e)" "fe_get_piece_layer e = Inr (fe_piece_layer e)"
    using assms(10) by (simp_all add: fe_get_pieces_root_def fe_get_piece_layer_def)
  have one: "\<not> fe_piece_layer e = [] \<Longrightarrow> slots_of e = length (fe_piece_layer e)"
    using assms(9) by (cases "fe_piece_layer e") (simp_all add: slots_of_def)
  have bits: "mark_file ?ps t e (fe_pieces_root e = v2_root H data) (fe_piece_layer e) ?i ?bits
      = Inr (overwrite ?i (verdict H k data e) ?bits)"
  proof (cases "fe_piece_layer e = []")
    case True
    then have "slots_of e = 1" using assms(9) by (simp add: slots_of_def)
    with True show ?thesis
      using assms(13) by (simp add: mark_file_def expects_def verdict_def list_update_overwrite)
  next
    case False
    then have kh: "k < ?h" using assms(11) by (auto simp: layer_length_def split: if_splits)
    have take: "take (ceil_div (fe_file_size e) ?ps) (map (merkle_hash H (leaf_of H data) k) [0..<2 ^ (?h - k)])
        = v2_layer H k data"
      using t(5) [OF kh] kh assms(1,6) by (simp add: v2_layer_def take_upt_map)
    have fits: "?i + length (same_hashes (v2_layer H k data) (fe_piece_layer e)) \<le> length ?bits"
      using assms(11,13) one [OF False] by (simp add: same_hashes_def)
    show ?thesis
    proof (cases "fe_pieces_root e = v2_root H data")
      case True
      then show ?thesis
        using False assms(13) one [OF False] by (simp add: mark_file_def fill_n_overwrite verdict_def)
    next
      case ne: False
      have n: "ceil_div (fe_file_size e) ?ps \<le> 2 ^ (?h - k)" using t(5) [OF kh] assms(1,6) by simp
      show ?thesis
        using False ne n fits
        by (simp add: mark_file_def Let_def t(3) off [OF kh] k [OF kh, symmetric] t(4) [OF kh] take write_n_overwrite verdict_def
            del: v2_block_size_eq)
    qed
  qed
  show ?thesis
    using assms(2,3,8,12) t(1-3) roots bits
    by (intro exI [of _ t]) (simp add: verify_piece_layers_and_root_def Let_def st_at_def)
qed

lemma verifier_put_leaf:
  assumes "verifier_inv H c (h, v)" "regular c f" "mt_ok (height_in c f) (v2v_trees v ! f)"
    "j < 2 ^ height_in c f" "t = (v2v_trees v ! f)[flat (height_in c f) j := x]"
    "Suc (v2v_blocks_hashed v ! f) < blocks_in c f \<or>
     Suc (v2v_blocks_hashed v ! f) = blocks_in c f \<and> full_tree c f t"
  shows "\<exists>v'. v2_verify_finished_piece (mt_update H) \<lparr>hp2_hash = x, hp2_file_index = f, hp2_leaf_index = j\<rparr> (h, v)
      = Inr (hasher_new, v') \<and> verifier_inv H c (hasher_new, v') \<and>
    v2v_blocks_hashed v' ! f = Suc (v2v_blocks_hashed v ! f) \<and>
    (if Suc (v2v_blocks_hashed v ! f) < blocks_in c f then v2v_trees v' ! f = t \<and> bits_of v' f = bits_of v f
     else bits_of v' f = verdict H (lc_exponent c) (lc_contents c f) (st_files (lc_storage c) ! f)) \<and>
    (\<forall>g. regular c g \<longrightarrow> g \<noteq> f \<longrightarrow> v2v_trees v' ! g = v2v_trees v ! g \<and>
       v2v_blocks_hashed v' ! g = v2v_blocks_hashed v ! g \<and> bits_of v' g = bits_of v g)"
proof -
  let ?es = "st_files (lc_storage c)" and ?n = "blocks_in c f" and ?c = "v2v_blocks_hashed v ! f"
    and ?data = "lc_contents c f" and ?k = "lc_exponent c"
  let ?e = "?es ! f"
  have f: "f < length ?es" "\<not> fe_is_padding_file ?e" using assms(2) by (simp_all add: regular_def st_file_count_def)
  have h: "h = hasher_new" and store: "v2v_storage v = lc_storage c" and lh: "lc_hash c = H"
    using assms(1) by (simp_all add: verifier_inv_def)
  have lens: "length (v2v_trees v) = length ?es" "length (v2v_blocks_hashed v) = length ?es"
    "length (v2v_piece_map v) = sum_list (map slots_of ?es)" "length (v2v_file_offsets v) = Suc (length ?es)"
    using assms(1) by (simp_all add: verifier_inv_def st_file_count_def)
  have start: "v2v_file_offsets v ! f = slot_start ?es f" using assms(1,2) by (simp add: verifier_inv_def)
  have lc: "st_piece_size (lc_storage c) = 2 ^ ?k * v2_block_size" "length ?data = fe_file_size ?e" "?n \<le> 2 ^ 30"
    using assms(1) f by (auto simp: verifier_inv_def lc_ok_def contents_ok_def st_file_count_def)
  have v2: "fe_has_v2_data ?e" "length (fe_piece_layer ?e) = layer_length ?k ?data"
    using assms(1) f by (auto simp: verifier_inv_def v2_data_ok_def st_file_count_def)
  have leaf: "set_leaf j x (v2v_trees v ! f) = Inr t"
    using node_access(2) [OF assms(3) order.refl assms(4)] tree_height_ok [OF assms(3)]
    by (simp add: set_leaf_def assms(5))
  have c: "size_add ?c 1 = Suc ?c" using assms(6) lc(3) by (auto simp: size_add_exact size_bound_def)
  have blocks: "div_ceil (fe_file_size ?e) (KiB 16) = Inr ?n"
    using div_ceil_exact [of 16384 "fe_file_size ?e"] lc(2)
    by (simp add: KiB_def size_mul_def size_bound_def file_blocks_def)
  define v1 where "v1 = v\<lparr>v2v_trees := (v2v_trees v)[f := t], v2v_blocks_hashed := (v2v_blocks_hashed v)[f := Suc ?c]\<rparr>"
  have run: "v2_verify_finished_piece (mt_update H) \<lparr>hp2_hash = x, hp2_file_index = f, hp2_leaf_index = j\<rparr> (h, v)
      = (if ?n \<le> Suc ?c then verify_piece_layers_and_root (mt_update H) f (hasher_new, v1) else Inr (hasher_new, v1))"
    using f(1) lens store leaf blocks c
    by (simp add: v2_verify_finished_piece_def st_get_def expects_def Let_def v1_def h)
  have inv1: "verifier_inv H c (hasher_new, v1)" using assms(1) by (simp add: verifier_inv_def v1_def)
  have same: "bits_of v1 g = bits_of v g" for g by (simp add: bits_of_def v1_def)
  show ?thesis
  proof (cases "Suc ?c < ?n")
    case True
    with run inv1 same show ?thesis using f lens by (intro exI [of _ v1]) (simp add: v1_def)
  next
    case False
    then have full: "Suc ?c = ?n" "full_tree c f t" using assms(6) by auto
    have ne: "?data \<noteq> []" using full(1) by auto
    obtain t0 where nh: "?n \<le> 2 ^ height_in c f" by (rule tree_of_file [OF ne lc(3)])
    have fits: "slot_start ?es f + slots_of ?e \<le> length (v2v_piece_map v)"
      using slots_in_map [OF f(1)] lens(3) by simp
    let ?verdict = "verdict H ?k ?data ?e"
    have vl: "length ?verdict = slots_of ?e" by (rule length_verdict [OF f(2) v2(2)])
    obtain tree where tree: "verify_piece_layers_and_root (mt_update H) f (hasher_new, v1)
        = Inr (hasher_new, v1\<lparr>v2v_trees := (v2v_trees v1)[f := tree],
            v2v_piece_map := overwrite (slot_start ?es f) ?verdict (v2v_piece_map v)\<rparr>)"
      using verify_complete_file [of v1 ?k f ?data H ?e] f lens store full(2) lc nh lh v2 fits start
      by (auto simp: v1_def full_tree_def file_blocks_def)
    let ?v' = "v1\<lparr>v2v_trees := (v2v_trees v1)[f := tree],
            v2v_piece_map := overwrite (slot_start ?es f) ?verdict (v2v_piece_map v)\<rparr>"
    have inv': "verifier_inv H c (hasher_new, ?v')"
      using inv1 fits vl by (simp add: verifier_inv_def v1_def)
    have own: "bits_of ?v' f = ?verdict"
      using subrange_overwrite_same [of "slot_start ?es f" ?verdict "v2v_piece_map v"] fits vl
      by (simp add: bits_of_def v1_def store)
    have other: "bits_of ?v' g = bits_of v g" if g: "regular c g" "g \<noteq> f" for g
    proof -
      have gl: "g < length ?es" using g by (simp add: regular_def st_file_count_def)
      have "slot_start ?es g + slots_of (?es ! g) \<le> slot_start ?es f \<or>
          slot_start ?es f + length ?verdict \<le> slot_start ?es g"
        using slot_end [of f g ?es] slot_end [of g f ?es] f(1) gl g(2) vl by (cases "f < g") auto
      then show ?thesis
        using subrange_overwrite_other [of "slot_start ?es f" ?verdict "v2v_piece_map v" "slot_start ?es g"
            "slots_of (?es ! g)"] slots_in_map [OF gl] lens(3) fits vl
        by (simp add: bits_of_def v1_def store)
    qed
    from False full(1) run tree inv' own other show ?thesis
      using f lens by (intro exI [of _ ?v']) (simp add: v1_def)
  qed
qed

interpretation v2v: leaf_collector "v2_verify_finished_piece (mt_update H)" "verifier_inv H"
  "\<lambda>hv f. v2v_trees (snd hv) ! f" "\<lambda>hv f. v2v_blocks_hashed (snd hv) ! f" "\<lambda>hv f. bits_of (snd hv) f"
  "\<lambda>c f. replicate (slots_of (st_files (lc_storage c) ! f)) 0"
  "\<lambda>c f. verdict H (lc_exponent c) (lc_contents c f) (st_files (lc_storage c) ! f)" for H
proof unfold_locales
  show "lc_ok c" if "verifier_inv H c s" for c s using that by (simp add: verifier_inv_def)
next
  fix c :: leaf_context and s :: "hasher \<times> v2_verifier" and f j :: nat and t x
  assume a: "verifier_inv H c s" "regular c f" "bits_of (snd s) f = replicate (slots_of (st_files (lc_storage c) ! f)) 0"
    "mt_ok (height_in c f) (v2v_trees (snd s) ! f)" "j < 2 ^ height_in c f"
    "t = (v2v_trees (snd s) ! f)[flat (height_in c f) j := x]"
    "Suc (v2v_blocks_hashed (snd s) ! f) < blocks_in c f \<or>
     Suc (v2v_blocks_hashed (snd s) ! f) = blocks_in c f \<and> full_tree c f t"
  obtain h v where s: "s = (h, v)" by (cases s)
  from verifier_put_leaf [of H c h v f j t x] a
  show "\<exists>s'. v2_verify_finished_piece (mt_update H) \<lparr>hp2_hash = x, hp2_file_index = f, hp2_leaf_index = j\<rparr> s = Inr s' \<and>
      verifier_inv H c s' \<and> v2v_blocks_hashed (snd s') ! f = Suc (v2v_blocks_hashed (snd s) ! f) \<and>
      (if Suc (v2v_blocks_hashed (snd s) ! f) < blocks_in c f
       then v2v_trees (snd s') ! f = t \<and> bits_of (snd s') f = replicate (slots_of (st_files (lc_storage c) ! f)) 0
       else bits_of (snd s') f = verdict H (lc_exponent c) (lc_contents c f) (st_files (lc_storage c) ! f)) \<and>
      (\<forall>g. regular c g \<longrightarrow> g \<noteq> f \<longrightarrow> v2v_trees (snd s') ! g = v2v_trees (snd s) ! g \<and>
        v2v_blocks_hashed (snd s') ! g = v2v_blocks_hashed (snd s) ! g \<and> bits_of (snd s') g = bits_of (snd s) g)"
    unfolding s by fastforce
qed

lemma v2_verify_leaves:
  assumes "st_piece_size st = 2 ^ k * v2_block_size" "contents_ok st contents" "v2_data_ok st contents k"
    "mset ps = mset (all_leaves H st contents)"
  shows "\<exists>v v'. v2_verifier_new st = Inr v \<and>
    rfold (v2_verify_finished_piece (mt_update H)) ps (hasher_new, v) = Inr (hasher_new, v') \<and>
    v2v_storage v' = st \<and>
    list_all (\<lambda>f. bits_of v' f = (if fe_is_padding_file (st_files st ! f) then []
       else if contents f = [] then replicate (slots_of (st_files st ! f)) 0
       else verdict H k (contents f) (st_files st ! f))) [0..<st_file_count st]"
proof -
  define c where "c = \<lparr>lc_hash = H, lc_exponent = k, lc_storage = st, lc_contents = contents\<rparr>"
  obtain offsets where v: "v2_verifier_new st = Inr \<lparr>v2v_storage = st, v2v_trees = map new_tree (st_files st),
      v2v_blocks_hashed = replicate (st_file_count st) 0,
      v2v_piece_map = replicate (sum_list (map slots_of (st_files st))) 0, v2v_file_offsets = offsets\<rparr>"
    "length offsets = Suc (st_file_count st)"
    "\<And>f. f < st_file_count st \<Longrightarrow> \<not> fe_is_padding_file (st_files st ! f) \<Longrightarrow>
       offsets ! f = slot_start (st_files st) f"
    using v2_verifier_new_eq [OF assms(2,3,1)] by blast
  let ?v = "\<lparr>v2v_storage = st, v2v_trees = map new_tree (st_files st),
      v2v_blocks_hashed = replicate (st_file_count st) 0,
      v2v_piece_map = replicate (sum_list (map slots_of (st_files st))) 0, v2v_file_offsets = offsets\<rparr>"
  have inv: "verifier_inv H c (hasher_new, ?v)"
    using assms(1-3) v(2,3) by (simp add: verifier_inv_def c_def lc_ok_def st_file_count_def regular_def)
  have zero: "bits_of ?v f = replicate (slots_of (st_files st ! f)) 0" if "f < st_file_count st" for f
    using slots_in_map [of f "st_files st"] that
    by (simp add: bits_of_def subrange_def st_file_count_def)
  obtain h v' where v': "rfold (v2_verify_finished_piece (mt_update H)) ps (hasher_new, ?v) = Inr (h, v')"
      "verifier_inv H c (h, v')" "\<And>f. regular c f \<Longrightarrow> bits_of v' f
        = (if contents f = [] then replicate (slots_of (st_files st ! f)) 0
           else verdict H k (contents f) (st_files st ! f))"
    using v2v.put_leaves_permuted [OF inv, of ps] zero assms(4)
    by (auto simp: c_def regular_def st_file_count_def)
  have "h = hasher_new" "v2v_storage v' = st" using v'(2) by (simp_all add: verifier_inv_def c_def)
  moreover have "bits_of v' f = []" if "fe_is_padding_file (st_files st ! f)" for f
    using that \<open>v2v_storage v' = st\<close> by (simp add: bits_of_def slots_of_def subrange_def)
  ultimately show ?thesis
    using v(1) v'(1,3) by (auto simp: list_all_iff c_def regular_def)
qed

text \<open>
  C13: Whatever the order in which the digests of the 16 KiB blocks of the data on disk arrive, the v2
  verifier ends with the right verdict on every non-empty regular file: all pieces good if the root of
  the data is the pieces root of the metafile, otherwise a file without a piece layer is bad and
  each piece of any other file is good exactly when its hash is the one in the piece layer.
\<close>

theorem v2_verifier_any_order:
  assumes "st_piece_size st = 2 ^ k * v2_block_size" "contents_ok st contents" "v2_data_ok st contents k"
    "mset ps = mset (all_leaves H st contents)"
  shows "\<exists>v v'. v2_verifier_new st = Inr v \<and>
    rfold (v2_verify_finished_piece (mt_update H)) ps (hasher_new, v) = Inr (hasher_new, v') \<and>
    v2v_storage v' = st \<and>
    list_all (\<lambda>f. bits_of v' f = (if fe_is_padding_file (st_files st ! f) then []
       else if contents f = [] then replicate (slots_of (st_files st ! f)) 0
       else verdict H k (contents f) (st_files st ! f))) [0..<st_file_count st]"
  by (rule v2_verify_leaves [OF assms])

definition sample_v2_storage :: file_storage where
  "sample_v2_storage = (sample_storage 16384 [16385])\<lparr>st_files :=
     [(sample_entry_of ''f'' 16385)\<lparr>fe_has_v2_data := True, fe_pieces_root := [9], fe_piece_layer := [[1], [3]]\<rparr>]\<rparr>"

theorem v2_verifier_any_order_witness:
  "\<exists>v v'. v2_verifier_new sample_v2_storage = Inr v \<and>
    rfold (v2_verify_finished_piece (mt_update (take 1)))
      [\<lparr>hp2_hash = [2], hp2_file_index = 0, hp2_leaf_index = 1\<rparr>,
       \<lparr>hp2_hash = [1], hp2_file_index = 0, hp2_leaf_index = 0\<rparr>] (hasher_new, v) = Inr (hasher_new, v') \<and>
    bits_of v' 0 = [1, 0]"
proof -
  let ?st = sample_v2_storage
  have st: "st_piece_size ?st = 2 ^ 0 * v2_block_size" "st_file_count ?st = 1"
    "\<not> fe_is_padding_file (st_files ?st ! 0)" "fe_file_size (st_files ?st ! 0) = 16385"
    "fe_has_v2_data (st_files ?st ! 0)" "fe_piece_layer (st_files ?st ! 0) = [[1], [3]]"
    "fe_pieces_root (st_files ?st ! 0) = [9]" "length (st_files ?st) = 1"
    "sum_list (map slots_of (st_files ?st)) = 2"
    by (simp_all add: sample_v2_storage_def st_file_count_def sample_entry_of_def fe_is_padding_file_def
        fe_has_attribute_def slots_of_def)
  have ok: "contents_ok ?st (\<lambda>_. two_blocks)"
    using st two_blocks_facts by (simp add: contents_ok_def file_blocks_def)
  have v2: "v2_data_ok ?st (\<lambda>_. two_blocks) 0"
    using st two_blocks_facts by (simp add: v2_data_ok_def layer_length_def)
  have perm: "mset [\<lparr>hp2_hash = [2], hp2_file_index = 0, hp2_leaf_index = 1\<rparr>,
       \<lparr>hp2_hash = [1], hp2_file_index = 0, hp2_leaf_index = 0\<rparr>] = mset (all_leaves (take 1) ?st (\<lambda>_. two_blocks))"
    using st two_blocks_facts by (simp add: all_leaves_def v2_leaves_def upt_rec)
  have "verdict (take 1) 0 two_blocks (st_files ?st ! 0) = [1, 0]"
    using st two_blocks_facts by (simp add: verdict_def v2_root_def v2_layer_def same_hashes_def upt_rec)
  with v2_verifier_any_order [OF st(1) ok v2 perm] show ?thesis
    using st(2,3) two_blocks_facts(2) by (auto simp add: upt_rec simp del: rfold.simps)
qed

end
