(* ===== verification/Chunk_Readers.thy ===== *)
theory Chunk_Readers
  imports Chunk_Hashers
begin

text \<open>
  Reading the files of a storage into chunks: \<^verbatim>\<open>chunk_reader.cpp\<close>, \<^verbatim>\<open>v1_chunk_reader.cpp\<close> and
  \<^verbatim>\<open>v2_chunk_reader.cpp\<close>. What is on disk is a value: which paths exist, how a path is made
  canonical, and the bytes and modification time of a file; a stream delivers exactly these bytes and
  never fails. Another thread may set the cancellation flag at any time: \<open>cancelled n\<close> is the value the
  \<open>n\<close>-th look at the flag finds. A chunk that is being filled is the list of the bytes written so far.
\<close>

section \<open>The disk\<close>

record disk =
  disk_exists :: "path \<Rightarrow> bool"
  disk_canonical :: "path \<Rightarrow> path"
  disk_file :: "path \<Rightarrow> (byte list \<times> int) option"

definition absolute_file_paths :: "disk \<Rightarrow> file_storage \<Rightarrow> path list result" where
  "absolute_file_paths d st =
     rbind (expects (st_has_root_directory st)) (\<lambda>_.
     rbind (throw_if (\<not> disk_exists d (st_root_directory st)) Invalid_Argument) (\<lambda>_.
       Inr (map (\<lambda>f. disk_canonical d (path_append (st_root_directory st) (fe_path f))) (st_files st))))"

section \<open>The common part\<close>

record reader =
  rd_storage :: file_storage
  rd_chunk_size :: nat
  rd_piece_index :: nat
  rd_file_index :: nat
  rd_chunk :: "byte list"
  rd_file_offsets :: "nat list"
  rd_bytes_read :: nat
  rd_polls :: nat
  rd_pushed :: "data_chunk list"

definition reader_new :: "file_storage \<Rightarrow> nat \<Rightarrow> nat \<Rightarrow> reader result" where
  "reader_new st chunk_size capacity =
     rbind (expects (KiB 16 \<le> st_piece_size st)) (\<lambda>_.
     rbind (expects (has_single_bit (st_piece_size st))) (\<lambda>_.
     rbind (expects (chunk_size mod st_piece_size st = 0)) (\<lambda>_.
     rbind (expects (1 < capacity)) (\<lambda>_.
       Inr \<lparr>rd_storage = st, rd_chunk_size = chunk_size, rd_piece_index = 0, rd_file_index = 0,
             rd_chunk = [], rd_file_offsets = [], rd_bytes_read = 0, rd_polls = 0, rd_pushed = []\<rparr>))))"

text \<open>Pushing a chunk puts it into every registered queue; the queues see the same sequence.\<close>

definition v1_push :: "byte list option \<Rightarrow> nat \<Rightarrow> reader \<Rightarrow> reader" where
  "v1_push data file_idx r =
     r\<lparr>rd_pushed := rd_pushed r @
        [\<lparr>dc_piece_index = u32 (rd_piece_index r), dc_file_index = u32 file_idx, dc_data = data\<rparr>]\<rparr>"

section \<open>The v1 reader\<close>

definition push_full_chunk :: "reader \<Rightarrow> reader" where
  "push_full_chunk r =
     (let r = v1_push (Some (rd_chunk r)) (size_sub (rd_file_index r) (length (rd_file_offsets r))) r
      in r\<lparr>rd_chunk := [], rd_file_offsets := [],
           rd_piece_index := rd_piece_index r + rd_chunk_size r div st_piece_size (rd_storage r)\<rparr>)"

definition push_null_chunk :: "reader \<Rightarrow> reader" where
  "push_null_chunk r = (v1_push None (rd_file_index r) r)\<lparr>rd_piece_index := rd_piece_index r + 1\<rparr>"

definition v1_handle_missing_file :: "reader \<Rightarrow> reader result" where
  "v1_handle_missing_file r =
     (let ps = st_piece_size (rd_storage r); cs = rd_chunk_size r in
      rbind (expects (cs mod ps = 0)) (\<lambda>_.
      rbind (st_at (rd_storage r) (rd_file_index r)) (\<lambda>entry.
      let size = fe_file_size entry;
          (r, missing) =
            (if rd_chunk r \<noteq> [] then
               let bytes_to_fill = min (cs - length (rd_chunk r)) size;
                   r = r\<lparr>rd_file_offsets := rd_file_offsets r @ [length (rd_chunk r)],
                         rd_chunk := rd_chunk r @ replicate bytes_to_fill 0\<rparr>
               in (if length (rd_chunk r) = cs then push_full_chunk r else r, size - bytes_to_fill)
             else (r, size));
          new_pieces = missing div ps;
          r = fold (\<lambda>_. push_null_chunk) [0..<new_pieces] r
      in Inr (r\<lparr>rd_chunk := rd_chunk r @ replicate (missing - ps * new_pieces) 0\<rparr>))))"

text \<open>
  The loop over one file, with the bytes not read yet. The stream reaches its end when it is asked
  for more bytes than are left. A chunk size of zero makes the loop push chunks for ever.
\<close>

function v1_read_file :: "(nat \<Rightarrow> bool) \<Rightarrow> byte list \<Rightarrow> reader \<Rightarrow> reader result" where
  "v1_read_file cancelled data r =
     (if cancelled (rd_polls r) then Inr (r\<lparr>rd_polls := rd_polls r + 1\<rparr>)
      else if rd_chunk_size r < length (rd_chunk r) then Inl Undefined
      else
        let n = rd_chunk_size r - length (rd_chunk r);
            got = take n data;
            r1 = r\<lparr>rd_polls := rd_polls r + 1,
                   rd_file_offsets := rd_file_offsets r @ [length (rd_chunk r)],
                   rd_chunk := rd_chunk r @ got,
                   rd_bytes_read := size_add (rd_bytes_read r) (length got)\<rparr>;
            r2 = (if length (rd_chunk r1) = rd_chunk_size r1 then push_full_chunk r1 else r1)
        in if length data < n then Inr r2
           else if rd_chunk_size r = 0 then Inl Diverges
           else v1_read_file cancelled (drop n data) r2)"
  by pat_completeness auto

lemma push_full_chunk_simps [simp]:
  "rd_chunk (push_full_chunk r) = []" "rd_chunk_size (push_full_chunk r) = rd_chunk_size r"
  "rd_storage (push_full_chunk r) = rd_storage r" "rd_file_index (push_full_chunk r) = rd_file_index r"
  "rd_file_offsets (push_full_chunk r) = []" "rd_bytes_read (push_full_chunk r) = rd_bytes_read r"
  "rd_polls (push_full_chunk r) = rd_polls r"
  "rd_piece_index (push_full_chunk r)
     = rd_piece_index r + rd_chunk_size r div st_piece_size (rd_storage r)"
  by (simp_all add: push_full_chunk_def v1_push_def Let_def)

termination v1_read_file
proof (relation "measures [\<lambda>(_, data, r). length data,
    \<lambda>(_, data, r). if length (rd_chunk r) = rd_chunk_size r then 1 else 0]", goal_cases)
  case (2 cancelled data r n got r1 r2)
  show ?case
  proof (cases "n = 0")
    case True
    then have full: "length (rd_chunk r) = rd_chunk_size r" using 2 by simp
    then have "rd_chunk r2 = []" "rd_chunk_size r2 = rd_chunk_size r" using 2 True by simp_all
    then show ?thesis using 2 True full by simp
  next
    case False
    then have "length (drop n data) < length data" using 2 by simp
    then show ?thesis by simp
  qed
qed simp

declare v1_read_file.simps [simp del]

definition v1_run_file :: "(nat \<Rightarrow> bool) \<Rightarrow> disk \<Rightarrow> path \<Rightarrow> reader \<Rightarrow> reader result" where
  "v1_run_file cancelled d file_path r =
     rbind (st_at (rd_storage r) (rd_file_index r)) (\<lambda>entry.
     case disk_file d file_path of
       Some (data, mtime) \<Rightarrow>
         if fe_is_padding_file entry
         then rbind (v1_handle_missing_file r) (\<lambda>r. Inr (r\<lparr>rd_file_index := rd_file_index r + 1\<rparr>))
         else
           rbind (st_set_last_modified_time (rd_file_index r) mtime (rd_storage r)) (\<lambda>st.
             v1_read_file cancelled data (r\<lparr>rd_storage := st, rd_file_index := rd_file_index r + 1\<rparr>))
     | None \<Rightarrow> rbind (v1_handle_missing_file r) (\<lambda>r. Inr (r\<lparr>rd_file_index := rd_file_index r + 1\<rparr>)))"

definition v1_run :: "(nat \<Rightarrow> bool) \<Rightarrow> disk \<Rightarrow> reader \<Rightarrow> reader result" where
  "v1_run cancelled d r =
     rbind (absolute_file_paths d (rd_storage r)) (\<lambda>file_paths.
     let ps = st_piece_size (rd_storage r) in
     rbind (expects (rd_chunk_size r mod ps = 0)) (\<lambda>_.
     rbind (rfold (v1_run_file cancelled d) file_paths r) (\<lambda>r.
     let r = (if rd_chunk r \<noteq> [] then
                (v1_push (Some (rd_chunk r)) (size_sub (rd_file_index r) (length (rd_file_offsets r))) r)
                  \<lparr>rd_piece_index := rd_piece_index r + ceil_div (length (rd_chunk r)) ps, rd_chunk := []\<rparr>
              else r) in
     rbind (expects (rd_piece_index r = st_piece_count (rd_storage r))) (\<lambda>_. Inr r))))"

section \<open>The v2 reader\<close>

definition v2_push :: "byte list option \<Rightarrow> nat \<Rightarrow> reader \<Rightarrow> reader result" where
  "v2_push data piece_idx r =
     rbind (expects (u32 piece_idx < st_piece_count (rd_storage r))) (\<lambda>_.
       Inr (r\<lparr>rd_pushed := rd_pushed r @
          [\<lparr>dc_piece_index = u32 piece_idx, dc_file_index = u32 (rd_file_index r), dc_data = data\<rparr>]\<rparr>))"

function v2_read_file :: "(nat \<Rightarrow> bool) \<Rightarrow> byte list \<Rightarrow> reader \<Rightarrow> reader result" where
  "v2_read_file cancelled data r =
     (if cancelled (rd_polls r) then Inr (r\<lparr>rd_polls := rd_polls r + 1\<rparr>)
      else
        let n = rd_chunk_size r; got = take n data;
            r = r\<lparr>rd_polls := rd_polls r + 1, rd_bytes_read := size_add (rd_bytes_read r) (length got)\<rparr> in
        rbind (v2_push (Some got) (rd_piece_index r) r) (\<lambda>r.
        let r = r\<lparr>rd_piece_index := rd_piece_index r + rd_chunk_size r div st_piece_size (rd_storage r)\<rparr> in
        if length data < n then Inr r
        else if n = 0 then Inl Diverges
        else v2_read_file cancelled (drop n data) r))"
  by pat_completeness auto

termination v2_read_file
proof (relation "measure (\<lambda>(_, data, _). length data)", goal_cases)
  case (2 cancelled data r n got r1 r2 r3)
  then have "length (drop n data) < length data" by simp
  then show ?case by simp
qed simp

declare v2_read_file.simps [simp del]

definition v2_run_file :: "(nat \<Rightarrow> bool) \<Rightarrow> disk \<Rightarrow> path \<Rightarrow> reader \<Rightarrow> reader result" where
  "v2_run_file cancelled d file_path r =
     rbind (st_at (rd_storage r) (rd_file_index r)) (\<lambda>entry.
       if fe_is_padding_file entry
       then Inr (r\<lparr>rd_bytes_read := size_add (rd_bytes_read r) (fe_file_size entry),
                   rd_file_index := rd_file_index r + 1\<rparr>)
       else
         case disk_file d file_path of
           None \<Rightarrow>
             rbind (v2_push None 0 r) (\<lambda>r.
               Inr (r\<lparr>rd_bytes_read := size_add (rd_bytes_read r) (fe_file_size entry),
                      rd_file_index := rd_file_index r + 1\<rparr>))
         | Some (data, mtime) \<Rightarrow>
             rbind (st_set_last_modified_time (rd_file_index r) mtime (rd_storage r)) (\<lambda>st.
             rbind (v2_read_file cancelled data (r\<lparr>rd_storage := st, rd_piece_index := 0\<rparr>)) (\<lambda>r.
               Inr (r\<lparr>rd_file_index := rd_file_index r + 1\<rparr>))))"

definition v2_run :: "(nat \<Rightarrow> bool) \<Rightarrow> disk \<Rightarrow> reader \<Rightarrow> reader result" where
  "v2_run cancelled d r =
     rbind (absolute_file_paths d (rd_storage r)) (\<lambda>file_paths.
       rfold (v2_run_file cancelled d) file_paths r)"

section \<open>What the v1 reader delivers\<close>

text \<open>
  The bytes a chunk stands for: a chunk without data is one piece of zeros. A sequence of chunks is
  in place if every chunk starts at a piece boundary and carries the index of that piece.
\<close>

definition chunk_bytes :: "nat \<Rightarrow> data_chunk \<Rightarrow> byte list" where
  "chunk_bytes ps c = (case dc_data c of None \<Rightarrow> replicate ps 0 | Some data \<Rightarrow> data)"

definition all_bytes :: "nat \<Rightarrow> data_chunk list \<Rightarrow> byte list" where
  "all_bytes ps cs = concat (map (chunk_bytes ps) cs)"

definition in_place :: "nat \<Rightarrow> data_chunk list \<Rightarrow> bool" where
  "in_place ps cs \<longleftrightarrow> (\<forall>i < length cs. ps dvd length (all_bytes ps (take i cs)) \<and>
     dc_piece_index (cs ! i) = u32 (length (all_bytes ps (take i cs)) div ps))"

definition chunk_ok :: "bool \<Rightarrow> data_chunk \<Rightarrow> bool" where
  "chunk_ok complete c = (case dc_data c of None \<Rightarrow> \<not> complete | Some data \<Rightarrow> data \<noteq> [])"

lemma all_bytes_Nil [simp]: "all_bytes ps [] = []"
  and all_bytes_snoc [simp]: "all_bytes ps (cs @ [c]) = all_bytes ps cs @ chunk_bytes ps c"
  by (simp_all add: all_bytes_def)

lemma in_place_Nil [simp]: "in_place ps []"
  by (simp add: in_place_def)

lemma in_place_snoc:
  "in_place ps (cs @ [c]) \<longleftrightarrow> in_place ps cs \<and> ps dvd length (all_bytes ps cs) \<and>
     dc_piece_index c = u32 (length (all_bytes ps cs) div ps)"
  by (auto simp: in_place_def less_Suc_eq nth_append)

text \<open>The parts of a storage that reading leaves alone.\<close>

definition same_files :: "file_storage \<Rightarrow> file_storage \<Rightarrow> bool" where
  "same_files st st' \<longleftrightarrow> st_piece_size st' = st_piece_size st \<and> st_total_file_size st' = st_total_file_size st \<and>
     st_pieces st' = st_pieces st \<and>
     map (\<lambda>e. (fe_file_size e, fe_is_padding_file e)) (st_files st')
       = map (\<lambda>e. (fe_file_size e, fe_is_padding_file e)) (st_files st)"

lemma same_files_refl [simp]: "same_files st st"
  by (simp add: same_files_def)

lemma same_files_at:
  assumes "same_files st st'"
  shows "length (st_files st') = length (st_files st)"
    and "i < length (st_files st) \<Longrightarrow> fe_file_size (st_files st' ! i) = fe_file_size (st_files st ! i)"
    and "i < length (st_files st) \<Longrightarrow> fe_is_padding_file (st_files st' ! i) = fe_is_padding_file (st_files st ! i)"
    and "st_piece_count st' = st_piece_count st"
proof -
  let ?f = "\<lambda>e. (fe_file_size e, fe_is_padding_file e)"
  have eq: "map ?f (st_files st') = map ?f (st_files st)" using assms by (simp add: same_files_def)
  then show len: "length (st_files st') = length (st_files st)" by (rule map_eq_imp_length_eq)
  have "?f (st_files st' ! i) = ?f (st_files st ! i)" if "i < length (st_files st)"
    using arg_cong [OF eq, of "\<lambda>xs. xs ! i"] that len by simp
  then show "i < length (st_files st) \<Longrightarrow> fe_file_size (st_files st' ! i) = fe_file_size (st_files st ! i)"
    "i < length (st_files st) \<Longrightarrow> fe_is_padding_file (st_files st' ! i) = fe_is_padding_file (st_files st ! i)"
    by simp_all
  show "st_piece_count st' = st_piece_count st" using assms by (simp add: st_piece_count_def same_files_def)
qed

lemma set_last_modified_same:
  assumes "same_files st st'" "i < length (st_files st)"
  obtains st'' where "st_set_last_modified_time i t st' = Inr st''" "same_files st st''"
proof -
  let ?e = "fe_set_last_modified_time t (st_files st' ! i)"
  have "fe_file_size ?e = fe_file_size (st_files st' ! i)" "fe_is_padding_file ?e = fe_is_padding_file (st_files st' ! i)"
    by (simp_all add: fe_set_last_modified_time_def fe_is_padding_file_def fe_has_attribute_def)
  then have "map (\<lambda>e. (fe_file_size e, fe_is_padding_file e)) ((st_files st')[i := ?e])
      = map (\<lambda>e. (fe_file_size e, fe_is_padding_file e)) (st_files st')"
    using list_update_id [of "map (\<lambda>e. (fe_file_size e, fe_is_padding_file e)) (st_files st')" i]
      same_files_at(1) [OF assms(1)] assms(2)
    by (simp add: map_update)
  with assms that show thesis
    using same_files_at(1) [OF assms(1)]
    by (simp add: st_set_last_modified_time_def expects_def st_file_count_def same_files_def)
qed

definition v1_inv :: "bool \<Rightarrow> file_storage \<Rightarrow> nat \<Rightarrow> byte list \<Rightarrow> reader \<Rightarrow> bool" where
  "v1_inv complete st cs bytes r \<longleftrightarrow> same_files st (rd_storage r) \<and> rd_chunk_size r = cs \<and>
     bytes = all_bytes (st_piece_size st) (rd_pushed r) @ rd_chunk r \<and> length (rd_chunk r) < cs \<and>
     in_place (st_piece_size st) (rd_pushed r) \<and> list_all (chunk_ok complete) (rd_pushed r) \<and>
     length (all_bytes (st_piece_size st) (rd_pushed r)) = rd_piece_index r * st_piece_size st"

lemma v1_inv_push_full:
  assumes "same_files st (rd_storage r)" "rd_chunk_size r = cs" "0 < cs" "st_piece_size st dvd cs"
    "in_place (st_piece_size st) (rd_pushed r)" "list_all (chunk_ok complete) (rd_pushed r)"
    "length (all_bytes (st_piece_size st) (rd_pushed r)) = rd_piece_index r * st_piece_size st"
    "length (rd_chunk r) = cs"
  shows "v1_inv complete st cs (all_bytes (st_piece_size st) (rd_pushed r) @ rd_chunk r) (push_full_chunk r)"
proof -
  have ps: "st_piece_size (rd_storage r) = st_piece_size st" using assms(1) by (simp add: same_files_def)
  have pos: "0 < st_piece_size st" using assms(3,4) by (metis dvd_0_left_iff gr0I)
  have "(rd_piece_index r + cs div st_piece_size st) * st_piece_size st = rd_piece_index r * st_piece_size st + cs"
    using assms(4) by (simp add: algebra_simps)
  moreover have "rd_chunk r \<noteq> []" using assms(3,8) by auto
  ultimately show ?thesis
    using assms ps pos
    by (simp add: v1_inv_def push_full_chunk_def v1_push_def Let_def in_place_snoc chunk_bytes_def chunk_ok_def)
qed

lemma push_null_chunk_simps [simp]:
  "rd_chunk (push_null_chunk r) = rd_chunk r" "rd_file_index (push_null_chunk r) = rd_file_index r"
  by (simp_all add: push_null_chunk_def v1_push_def)

lemma v1_inv_null_chunk:
  assumes "v1_inv complete st cs bytes r" "\<not> complete" "rd_chunk r = []" "0 < st_piece_size st"
  shows "v1_inv complete st cs (bytes @ replicate (st_piece_size st) 0) (push_null_chunk r)"
  using assms
  by (simp add: v1_inv_def push_null_chunk_def v1_push_def in_place_snoc chunk_bytes_def chunk_ok_def)

lemma v1_inv_null_chunks:
  assumes "v1_inv complete st cs bytes r" "\<not> complete" "rd_chunk r = []" "0 < st_piece_size st"
  shows "v1_inv complete st cs (bytes @ replicate (n * st_piece_size st) 0) (fold (\<lambda>_. push_null_chunk) [0..<n] r) \<and>
    rd_chunk (fold (\<lambda>_. push_null_chunk) [0..<n] r) = [] \<and>
    rd_file_index (fold (\<lambda>_. push_null_chunk) [0..<n] r) = rd_file_index r"
proof (induction n)
  case 0
  then show ?case using assms by simp
next
  case (Suc n)
  have "replicate (Suc n * st_piece_size st) (0 :: byte) = replicate (n * st_piece_size st) 0 @ replicate (st_piece_size st) 0"
    unfolding replicate_add [symmetric] by (simp add: add.commute)
  then show ?case
    using Suc v1_inv_null_chunk [of complete st cs "bytes @ replicate (n * st_piece_size st) 0"
        "fold (\<lambda>_. push_null_chunk) [0..<n] r"] assms(2,4)
    by simp
qed

lemma v1_inv_extend:
  assumes "v1_inv complete st cs bytes r" "0 < cs" "st_piece_size st dvd cs"
    "length (rd_chunk r) + length new \<le> cs" "same_files st st'"
  shows "v1_inv complete st cs (bytes @ new)
     (let r1 = r\<lparr>rd_storage := st', rd_file_index := fi, rd_polls := polls, rd_file_offsets := offs,
          rd_chunk := rd_chunk r @ new, rd_bytes_read := n\<rparr>
      in if length (rd_chunk r1) = cs then push_full_chunk r1 else r1)"
proof -
  define r1 where "r1 = r\<lparr>rd_storage := st', rd_file_index := fi, rd_polls := polls, rd_file_offsets := offs,
          rd_chunk := rd_chunk r @ new, rd_bytes_read := n\<rparr>"
  have r1: "same_files st (rd_storage r1)" "rd_chunk_size r1 = cs" "rd_pushed r1 = rd_pushed r"
    "rd_piece_index r1 = rd_piece_index r" "rd_chunk r1 = rd_chunk r @ new"
    using assms by (simp_all add: r1_def v1_inv_def)
  show ?thesis
  proof (cases "length (rd_chunk r1) = cs")
    case True
    then show ?thesis
      using v1_inv_push_full [of st r1 cs complete] r1 assms(1-3)
      by (simp add: v1_inv_def Let_def flip: r1_def)
  next
    case False
    then show ?thesis
      using r1 assms(1,4) by (simp add: v1_inv_def Let_def flip: r1_def)
  qed
qed

lemma v1_missing_inv:
  assumes "v1_inv complete st cs bytes r" "\<not> complete" "0 < cs" "st_piece_size st dvd cs"
    "rd_file_index r < length (st_files st)"
  obtains r' where "v1_handle_missing_file r = Inr r'" "rd_file_index r' = rd_file_index r"
    "v1_inv complete st cs (bytes @ replicate (fe_file_size (st_files st ! rd_file_index r)) 0) r'"
proof -
  define ps where "ps = st_piece_size st"
  define n where "n = fe_file_size (st_files st ! rd_file_index r)"
  have ps: "0 < ps" "ps dvd cs" "ps \<le> cs" using assms(3,4) by (auto simp: ps_def dvd_imp_le intro: gr0I)
  have st: "same_files st (rd_storage r)" "rd_chunk_size r = cs" "st_piece_size (rd_storage r) = ps"
    "length (rd_chunk r) < cs"
    using assms(1) by (simp_all add: v1_inv_def same_files_def ps_def)
  have entry: "st_at (rd_storage r) (rd_file_index r) = Inr (st_files (rd_storage r) ! rd_file_index r)"
    "fe_file_size (st_files (rd_storage r) ! rd_file_index r) = n"
    using same_files_at(1,2) [OF st(1)] assms(5) by (simp_all add: st_at_def n_def)
  define fill where "fill = (if rd_chunk r \<noteq> [] then min (cs - length (rd_chunk r)) n else 0)"
  define r2 where "r2 = (if rd_chunk r \<noteq> [] then
      let r1 = r\<lparr>rd_file_offsets := rd_file_offsets r @ [length (rd_chunk r)],
                 rd_chunk := rd_chunk r @ replicate fill 0\<rparr>
      in if length (rd_chunk r1) = cs then push_full_chunk r1 else r1 else r)"
  have inv2: "v1_inv complete st cs (bytes @ replicate fill 0) r2"
  proof (cases "rd_chunk r = []")
    case True
    then show ?thesis using assms(1) by (simp add: r2_def fill_def)
  next
    case False
    then have "length (rd_chunk r) + length (replicate fill (0::byte)) \<le> cs" using st(4) by (simp add: fill_def)
    from v1_inv_extend [OF assms(1,3,4) this st(1), where fi = "rd_file_index r" and polls = "rd_polls r"
        and offs = "rd_file_offsets r @ [length (rd_chunk r)]" and n = "rd_bytes_read r"] False
    show ?thesis by (simp add: r2_def)
  qed
  have empty: "rd_chunk r2 = [] \<or> n = fill"
    using st(4) by (auto simp: r2_def fill_def Let_def min_def)
  define m where "m = (n - fill) div ps"
  define r3 where "r3 = fold (\<lambda>_. push_null_chunk) [0..<m] r2"
  have inv3: "v1_inv complete st cs (bytes @ replicate fill 0 @ replicate (m * ps) 0) r3 \<and>
      (rd_chunk r3 = [] \<or> n = fill) \<and> rd_file_index r3 = rd_file_index r2"
  proof (cases "rd_chunk r2 = []")
    case True
    with v1_inv_null_chunks [OF inv2 assms(2), of m] ps(1) show ?thesis by (simp add: r3_def ps_def)
  next
    case False
    then have "m = 0" "n = fill" using empty by (simp_all add: m_def)
    with inv2 show ?thesis by (simp add: r3_def)
  qed
  have fi: "rd_file_index r2 = rd_file_index r" by (simp add: r2_def Let_def)
  define rest where "rest = n - fill - ps * m"
  have rest: "rest < ps" "n = fill \<Longrightarrow> rest = 0"
    using ps(1) minus_mult_div_eq_mod [of "n - fill" ps] by (simp_all add: rest_def m_def)
  let ?r' = "r3\<lparr>rd_chunk := rd_chunk r3 @ replicate rest 0\<rparr>"
  have run: "v1_handle_missing_file r = Inr ?r'"
    using entry st(2,3) ps(2)
    by (simp add: v1_handle_missing_file_def expects_def Let_def dvd_imp_mod_0 r3_def r2_def m_def rest_def fill_def)
  have "n = fill + m * ps + rest"
  proof -
    have "fill \<le> n" by (simp add: fill_def)
    moreover have "ps * m \<le> n - fill" by (simp add: m_def)
    ultimately show ?thesis by (simp add: rest_def mult.commute)
  qed
  then have "replicate n (0::byte) = replicate fill 0 @ replicate (m * ps) 0 @ replicate rest 0"
    by (simp only: replicate_add append.assoc)
  moreover have "length (rd_chunk r3) + rest < cs"
    using inv3 rest ps(3) by (auto simp: v1_inv_def)
  ultimately have "v1_inv complete st cs (bytes @ replicate n 0) ?r'"
    using inv3 by (simp add: v1_inv_def)
  with run inv3 fi show thesis by (intro that [of ?r']) (simp_all add: n_def)
qed

lemma v1_read_inv:
  assumes "v1_inv complete st cs bytes r" "0 < cs" "st_piece_size st dvd cs"
  shows "\<exists>r'. v1_read_file (\<lambda>_. False) data r = Inr r' \<and> v1_inv complete st cs (bytes @ data) r' \<and>
    rd_file_index r' = rd_file_index r"
  using assms(1)
proof (induction data arbitrary: r bytes rule: measure_induct_rule [of length])
  case (less data)
  define n where "n = cs - length (rd_chunk r)"
  have r: "rd_chunk_size r = cs" "length (rd_chunk r) < cs" "same_files st (rd_storage r)"
    using less.prems by (simp_all add: v1_inv_def)
  have n: "0 < n" "length (rd_chunk r) + n = cs" using r(2) by (simp_all add: n_def)
  define r2 where "r2 = (let r1 = r\<lparr>rd_polls := rd_polls r + 1,
       rd_file_offsets := rd_file_offsets r @ [length (rd_chunk r)], rd_chunk := rd_chunk r @ take n data,
       rd_bytes_read := size_add (rd_bytes_read r) (length (take n data))\<rparr>
     in if length (rd_chunk r1) = rd_chunk_size r1 then push_full_chunk r1 else r1)"
  have unfold: "v1_read_file (\<lambda>_. False) data r
      = (if length data < n then Inr r2 else v1_read_file (\<lambda>_. False) (drop n data) r2)"
    using r assms(2) by (subst v1_read_file.simps) (simp add: Let_def r2_def n_def)
  have "length (rd_chunk r) + length (take n data) \<le> cs" using n by simp
  from v1_inv_extend [OF less.prems assms(2,3) this r(3), where fi = "rd_file_index r" and polls = "rd_polls r + 1"
      and offs = "rd_file_offsets r @ [length (rd_chunk r)]"
      and n = "size_add (rd_bytes_read r) (length (take n data))"]
  have inv: "v1_inv complete st cs (bytes @ take n data) r2" using r(1) by (simp add: r2_def Let_def)
  have fi: "rd_file_index r2 = rd_file_index r" by (simp add: r2_def Let_def)
  show ?case
  proof (cases "length data < n")
    case True
    then show ?thesis using unfold inv fi by simp
  next
    case False
    then have "length (drop n data) < length data" using n(1) by simp
    from less.IH [OF this inv] False unfold fi show ?thesis by simp
  qed
qed

text \<open>The bytes the reader delivers for a file: those on disk, or zeros for a file that is not there.\<close>

definition entry_present :: "disk \<Rightarrow> path \<Rightarrow> file_entry \<Rightarrow> bool" where
  "entry_present d p e \<longleftrightarrow> disk_file d p \<noteq> None \<and> \<not> fe_is_padding_file e"

definition entry_bytes :: "disk \<Rightarrow> path \<Rightarrow> file_entry \<Rightarrow> byte list" where
  "entry_bytes d p e =
     (case disk_file d p of
        Some (data, _) \<Rightarrow> if fe_is_padding_file e then replicate (fe_file_size e) 0 else data
      | None \<Rightarrow> replicate (fe_file_size e) 0)"

definition stored_bytes :: "disk \<Rightarrow> path list \<Rightarrow> file_entry list \<Rightarrow> byte list" where
  "stored_bytes d paths es = concat (map2 (entry_bytes d) paths es)"

lemma v1_run_file_inv:
  assumes "v1_inv complete st cs bytes r" "0 < cs" "st_piece_size st dvd cs"
    "rd_file_index r < length (st_files st)" "complete \<longrightarrow> entry_present d p (st_files st ! rd_file_index r)"
  shows "\<exists>r'. v1_run_file (\<lambda>_. False) d p r = Inr r' \<and> rd_file_index r' = Suc (rd_file_index r) \<and>
    v1_inv complete st cs (bytes @ entry_bytes d p (st_files st ! rd_file_index r)) r'"
proof -
  let ?e = "st_files st ! rd_file_index r"
  have st: "same_files st (rd_storage r)" using assms(1) by (simp add: v1_inv_def)
  let ?e' = "st_files (rd_storage r) ! rd_file_index r"
  have e': "st_at (rd_storage r) (rd_file_index r) = Inr ?e'" "fe_is_padding_file ?e' = fe_is_padding_file ?e"
    using same_files_at [OF st] assms(4) by (simp_all add: st_at_def)
  show ?thesis
  proof (cases "entry_present d p ?e")
    case True
    then obtain data mtime where data: "disk_file d p = Some (data, mtime)" "\<not> fe_is_padding_file ?e"
      by (auto simp: entry_present_def)
    obtain st'' where st'': "st_set_last_modified_time (rd_file_index r) mtime (rd_storage r) = Inr st''"
        "same_files st st''"
      by (rule set_last_modified_same [OF st assms(4)])
    have "v1_inv complete st cs bytes (r\<lparr>rd_storage := st'', rd_file_index := rd_file_index r + 1\<rparr>)"
      using assms(1) st''(2) by (simp add: v1_inv_def)
    from v1_read_inv [OF this assms(2,3), of data] show ?thesis
      using data e' st''(1) by (auto simp: v1_run_file_def entry_bytes_def)
  next
    case False
    then have "\<not> complete" using assms(5) by blast
    from v1_missing_inv [OF assms(1) this assms(2-4)] obtain r' where r': "v1_handle_missing_file r = Inr r'"
        "rd_file_index r' = rd_file_index r" "v1_inv complete st cs (bytes @ replicate (fe_file_size ?e) 0) r'" .
    have "v1_inv complete st cs (bytes @ replicate (fe_file_size ?e) 0) (r'\<lparr>rd_file_index := Suc (rd_file_index r)\<rparr>)"
      using r'(3) by (simp add: v1_inv_def)
    then show ?thesis
      using False r' e'
      by (cases "disk_file d p") (auto simp: v1_run_file_def entry_present_def entry_bytes_def)
  qed
qed

lemma v1_run_files_inv:
  assumes "v1_inv complete st cs bytes r" "0 < cs" "st_piece_size st dvd cs"
    "rd_file_index r + length paths = length (st_files st)"
    "complete \<longrightarrow> list_all2 (entry_present d) paths (drop (rd_file_index r) (st_files st))"
  shows "\<exists>r'. rfold (v1_run_file (\<lambda>_. False) d) paths r = Inr r' \<and>
    v1_inv complete st cs (bytes @ stored_bytes d paths (drop (rd_file_index r) (st_files st))) r'"
  using assms(1,4,5)
proof (induction paths arbitrary: r bytes)
  case Nil
  then show ?case by (simp add: stored_bytes_def)
next
  case (Cons p paths)
  have i: "rd_file_index r < length (st_files st)" using Cons.prems(2) by simp
  have drop: "drop (rd_file_index r) (st_files st) = st_files st ! rd_file_index r # drop (Suc (rd_file_index r)) (st_files st)"
    using i by (rule Cons_nth_drop_Suc [symmetric])
  obtain r1 where r1: "v1_run_file (\<lambda>_. False) d p r = Inr r1" "rd_file_index r1 = Suc (rd_file_index r)"
      "v1_inv complete st cs (bytes @ entry_bytes d p (st_files st ! rd_file_index r)) r1"
    using v1_run_file_inv [OF Cons.prems(1) assms(2,3) i, of d p] Cons.prems(3) drop by auto
  with Cons.IH [OF r1(3)] Cons.prems(2,3) show ?case by (auto simp: drop stored_bytes_def)
qed

lemma v1_reader_run:
  assumes "reader_new st cs capacity = Inr r" "0 < cs" "absolute_file_paths d st = Inr paths"
  shows "if ceil_div (length (stored_bytes d paths (st_files st))) (st_piece_size st) = st_piece_count st
    then \<exists>r'. v1_run (\<lambda>_. False) d r = Inr r' \<and>
      all_bytes (st_piece_size st) (rd_pushed r') = stored_bytes d paths (st_files st) \<and>
      in_place (st_piece_size st) (rd_pushed r') \<and>
      (list_all2 (entry_present d) paths (st_files st) \<longrightarrow> list_all (chunk_ok True) (rd_pushed r'))
    else v1_run (\<lambda>_. False) d r = Inl Contract"
proof -
  define complete where "complete \<longleftrightarrow> list_all2 (entry_present d) paths (st_files st)"
  define ps where "ps = st_piece_size st"
  define bytes where "bytes = stored_bytes d paths (st_files st)"
  have new: "r = \<lparr>rd_storage = st, rd_chunk_size = cs, rd_piece_index = 0, rd_file_index = 0,
      rd_chunk = [], rd_file_offsets = [], rd_bytes_read = 0, rd_polls = 0, rd_pushed = []\<rparr>"
    "KiB 16 \<le> ps" "cs mod ps = 0"
    using assms(1) by (auto simp: reader_new_def result_simps ps_def)
  have ps: "0 < ps" "ps dvd cs" using new(2,3) by (auto simp: KiB_def size_mul_def size_bound_def)
  have inv: "v1_inv complete st cs [] r" using new(1) assms(2) by (simp add: v1_inv_def)
  have len: "length paths = length (st_files st)"
    using assms(3) by (auto simp: absolute_file_paths_def result_simps)
  obtain r1 where r1: "rfold (v1_run_file (\<lambda>_. False) d) paths r = Inr r1" "v1_inv complete st cs bytes r1"
    using v1_run_files_inv [OF inv assms(2), of paths d] ps(2) len new(1)
    by (auto simp: complete_def bytes_def ps_def)
  define r2 where "r2 = (if rd_chunk r1 \<noteq> [] then
       (v1_push (Some (rd_chunk r1)) (size_sub (rd_file_index r1) (length (rd_file_offsets r1))) r1)
          \<lparr>rd_piece_index := rd_piece_index r1 + ceil_div (length (rd_chunk r1)) ps, rd_chunk := []\<rparr> else r1)"
  have st1: "same_files st (rd_storage r1)" using r1(2) by (simp add: v1_inv_def)
  have split: "bytes = all_bytes ps (rd_pushed r1) @ rd_chunk r1"
    "length (all_bytes ps (rd_pushed r1)) = rd_piece_index r1 * ps"
    using r1(2) by (simp_all add: v1_inv_def ps_def)
  have r2: "rd_storage r2 = rd_storage r1" "all_bytes ps (rd_pushed r2) = bytes" "in_place ps (rd_pushed r2)"
    "list_all (chunk_ok complete) (rd_pushed r2)" "rd_piece_index r2 = ceil_div (length bytes) ps"
    using r1(2) split ps(1) ceil_div_add [OF ps(1), of "rd_piece_index r1" "length (rd_chunk r1)"]
    by (auto simp: r2_def v1_push_def v1_inv_def in_place_snoc chunk_bytes_def chunk_ok_def ps_def [symmetric])
  have run: "v1_run (\<lambda>_. False) d r
      = rbind (expects (rd_piece_index r2 = st_piece_count (rd_storage r2))) (\<lambda>_. Inr r2)"
    using assms(3) new(1,3) r1(1)
    by (simp add: v1_run_def expects_def Let_def ps_def [symmetric] r2_def)
  have count: "st_piece_count (rd_storage r2) = st_piece_count st"
    using same_files_at(4) [OF st1] r2(1) by simp
  show ?thesis
    using run r2 count by (auto simp: expects_def complete_def bytes_def ps_def)
qed

text \<open>
  C12: Reading a storage for v1 without cancellation delivers its bytes in order: the chunks put
  together are the concatenation of the files on disk, with zeros for missing and padding files, and
  every chunk starts on a piece boundary and carries the index of its first piece. The reader ends in
  a contract violation exactly when the number of pieces of these bytes is not the one of the storage,
  as when a file on disk has not the size of its entry.
\<close>

theorem v1_reader_covers:
  assumes "reader_new st cs capacity = Inr r" "0 < cs" "absolute_file_paths d st = Inr paths"
  shows "if ceil_div (length (stored_bytes d paths (st_files st))) (st_piece_size st) = st_piece_count st
    then \<exists>r'. v1_run (\<lambda>_. False) d r = Inr r' \<and>
      all_bytes (st_piece_size st) (rd_pushed r') = stored_bytes d paths (st_files st) \<and>
      in_place (st_piece_size st) (rd_pushed r') \<and>
      (list_all2 (entry_present d) paths (st_files st) \<longrightarrow> list_all (chunk_ok True) (rd_pushed r'))
    else v1_run (\<lambda>_. False) d r = Inl Contract"
  by (rule v1_reader_run [OF assms])

definition sample_disk :: "byte list \<Rightarrow> disk" where
  "sample_disk data = \<lparr>disk_exists = (\<lambda>p. p = [''/'']), disk_canonical = (\<lambda>p. p),
     disk_file = (\<lambda>p. if p = [''/'', ''f''] then Some (data, 5) else None)\<rparr>"

definition rooted_storage :: "nat \<Rightarrow> file_storage" where
  "rooted_storage n = (sample_storage 16384 [n])\<lparr>st_root_directory := [''/'']\<rparr>"

lemma rooted_storage_simps [simp]:
  "st_files (rooted_storage n) = [sample_entry_of ''f'' n]" "st_piece_size (rooted_storage n) = 16384"
  "n < size_bound \<Longrightarrow> st_total_file_size (rooted_storage n) = n"
  "absolute_file_paths (sample_disk data) (rooted_storage n) = Inr [[''/'', ''f'']]"
  by (simp_all add: rooted_storage_def absolute_file_paths_def expects_def throw_if_def st_has_root_directory_def
      sample_disk_def path_append_def is_absolute_def sample_entry_of_def)

theorem v1_reader_covers_witness:
  "\<exists>r r'. reader_new (rooted_storage 3) 16384 2 = Inr r \<and>
    v1_run (\<lambda>_. False) (sample_disk [7, 8, 9]) r = Inr r' \<and> all_bytes 16384 (rd_pushed r') = [7, 8, 9]"
proof -
  obtain r where r: "reader_new (rooted_storage 3) 16384 2 = Inr r"
    by (simp add: reader_new_def expects_def KiB_def size_mul_def size_bound_def single_bit_16K)
  have bytes: "stored_bytes (sample_disk [7, 8, 9]) [[''/'', ''f'']] (st_files (rooted_storage 3)) = [7, 8, 9]"
    by (simp add: stored_bytes_def entry_bytes_def sample_disk_def)
  have count: "st_piece_count (rooted_storage 3) = 1"
    by (simp add: st_piece_count_def size_add_def size_sub_def size_bound_def)
  have "absolute_file_paths (sample_disk [7, 8, 9]) (rooted_storage 3) = Inr [[''/'', ''f'']]" by simp
  from v1_reader_covers [OF r _ this] show ?thesis
    unfolding bytes count using r by (auto simp: ceil_div_def)
qed

section \<open>What the v2 reader delivers\<close>

text \<open>
  The chunks pushed for one file: blocks of the chunk size. When the size of the file is a multiple
  of the chunk size the end of the stream shows only after one more read, so an empty chunk follows.
\<close>

definition file_chunks :: "nat \<Rightarrow> nat \<Rightarrow> nat \<Rightarrow> nat \<Rightarrow> byte list \<Rightarrow> data_chunk list" where
  "file_chunks cs ppc f p data =
     map (\<lambda>j. \<lparr>dc_piece_index = u32 (p + j * ppc), dc_file_index = u32 f, dc_data = Some (block_of cs data j)\<rparr>)
       [0..<Suc (length data div cs)]"

lemma file_chunks_rec:
  assumes "0 < cs"
  shows "file_chunks cs ppc f p data =
     \<lparr>dc_piece_index = u32 p, dc_file_index = u32 f, dc_data = Some (take cs data)\<rparr> #
     (if length data < cs then [] else file_chunks cs ppc f (p + ppc) (drop cs data))"
proof (cases "length data < cs")
  case True
  then show ?thesis by (simp add: file_chunks_def block_of_def)
next
  case False
  then have n: "length data div cs = Suc (length (drop cs data) div cs)"
    using assms by (simp add: le_div_geq)
  have upt: "[0..<Suc (Suc m)] = 0 # map Suc [0..<Suc m]" for m
    by (metis map_Suc_upt upt_conv_Cons zero_less_Suc)
  have "block_of cs data (Suc j) = block_of cs (drop cs data) j" for j
    by (simp add: block_of_def add.commute)
  then show ?thesis
    unfolding file_chunks_def n upt using False
    by (simp add: block_of_def o_def add.assoc del: upt_Suc)
qed

lemma v2_read_file_run:
  assumes "0 < rd_chunk_size r" "ppc = rd_chunk_size r div st_piece_size (rd_storage r)"
    "rd_piece_index r + length data div rd_chunk_size r * ppc < 2 ^ 32"
  shows "if rd_piece_index r + length data div rd_chunk_size r * ppc < st_piece_count (rd_storage r)
    then \<exists>r'. v2_read_file (\<lambda>_. False) data r = Inr r' \<and> rd_storage r' = rd_storage r \<and>
      rd_chunk_size r' = rd_chunk_size r \<and> rd_file_index r' = rd_file_index r \<and>
      rd_pushed r' = rd_pushed r @ file_chunks (rd_chunk_size r) ppc (rd_file_index r) (rd_piece_index r) data
    else v2_read_file (\<lambda>_. False) data r = Inl Contract"
  using assms
proof (induction data arbitrary: r rule: measure_induct_rule [of length])
  case (less data)
  let ?cs = "rd_chunk_size r" and ?p = "rd_piece_index r" and ?n = "st_piece_count (rd_storage r)"
  have p: "?p < 2 ^ 32" using less.prems(3) by simp
  define r1 where "r1 = r\<lparr>rd_polls := rd_polls r + 1,
     rd_bytes_read := size_add (rd_bytes_read r) (length (take ?cs data)),
     rd_pushed := rd_pushed r @ [\<lparr>dc_piece_index = u32 ?p, dc_file_index = u32 (rd_file_index r),
       dc_data = Some (take ?cs data)\<rparr>], rd_piece_index := ?p + ppc\<rparr>"
  have unfold: "v2_read_file (\<lambda>_. False) data r
      = (if ?p < ?n then if length data < ?cs then Inr r1 else v2_read_file (\<lambda>_. False) (drop ?cs data) r1
         else Inl Contract)"
    using less.prems(1,2) u32_exact [OF p]
    by (subst v2_read_file.simps) (simp add: Let_def v2_push_def expects_def r1_def)
  have r1: "rd_chunk_size r1 = ?cs" "rd_storage r1 = rd_storage r" "rd_file_index r1 = rd_file_index r"
    "rd_piece_index r1 = ?p + ppc" by (simp_all add: r1_def)
  show ?case
  proof (cases "length data < ?cs")
    case True
    then show ?thesis
      using unfold r1 file_chunks_rec [OF less.prems(1), of ppc "rd_file_index r" ?p data]
      by (simp add: r1_def)
  next
    case False
    then have n: "length data div ?cs = Suc (length (drop ?cs data) div ?cs)" "length (drop ?cs data) < length data"
      using less.prems(1) by (simp_all add: le_div_geq)
    have eq: "?p + ppc + length (drop ?cs data) div ?cs * ppc = ?p + length data div ?cs * ppc"
      unfolding n(1) by simp
    show ?thesis
    proof (cases "?p + length data div ?cs * ppc < ?n")
      case True
      then have "?p < ?n" by simp
      with True less.IH [OF n(2), of r1] less.prems r1 eq unfold False
        file_chunks_rec [OF less.prems(1), of ppc "rd_file_index r" ?p data]
      show ?thesis by (auto simp: r1_def)
    next
      case ge: False
      with less.IH [OF n(2), of r1] less.prems r1 eq unfold False
      show ?thesis by auto
    qed
  qed
qed

text \<open>
  Without cancellation the v2 reader pushes a file in blocks of the chunk size, each under the
  file's index and the index of its first piece within the file, followed by an empty chunk when the
  size is a multiple of the chunk size; it ends in a contract violation when the last of these piece
  indices is not below the piece count of the storage.
\<close>

theorem v2_reader_chunks:
  assumes "0 < rd_chunk_size r" "rd_piece_index r = 0"
    "length data div rd_chunk_size r * (rd_chunk_size r div st_piece_size (rd_storage r)) < 2 ^ 32"
  shows "if length data div rd_chunk_size r * (rd_chunk_size r div st_piece_size (rd_storage r))
      < st_piece_count (rd_storage r)
    then \<exists>r'. v2_read_file (\<lambda>_. False) data r = Inr r' \<and>
      rd_pushed r' = rd_pushed r @ map (\<lambda>j.
         \<lparr>dc_piece_index = j * (rd_chunk_size r div st_piece_size (rd_storage r)),
          dc_file_index = u32 (rd_file_index r), dc_data = Some (block_of (rd_chunk_size r) data j)\<rparr>)
        [0..<Suc (length data div rd_chunk_size r)]
    else v2_read_file (\<lambda>_. False) data r = Inl Contract"
proof -
  let ?cs = "rd_chunk_size r"
  define ppc where "ppc = ?cs div st_piece_size (rd_storage r)"
  have "u32 (j * ppc) = j * ppc" if "j < Suc (length data div ?cs)" for j
  proof -
    have "j * ppc \<le> length data div ?cs * ppc" using that by (intro mult_le_mono1) simp
    then have "j * ppc < 2 ^ 32" using assms(3) unfolding ppc_def [symmetric] by linarith
    then show ?thesis by (rule u32_exact)
  qed
  then have "file_chunks ?cs ppc (rd_file_index r) 0 data = map (\<lambda>j. \<lparr>dc_piece_index = j * ppc,
      dc_file_index = u32 (rd_file_index r), dc_data = Some (block_of ?cs data j)\<rparr>)
      [0..<Suc (length data div ?cs)]"
    unfolding file_chunks_def by (intro map_cong) auto
  then show ?thesis
    using v2_read_file_run [OF assms(1) ppc_def, of data] assms(2,3)
    unfolding ppc_def [symmetric] by (auto split: if_splits)
qed


lemma sample_reader:
  obtains r where "reader_new (rooted_storage n) 16384 2 = Inr r" "rd_storage r = rooted_storage n"
    "rd_chunk_size r = 16384" "rd_piece_index r = 0" "rd_pushed r = []" "rd_file_index r = 0"
  by (simp add: reader_new_def expects_def KiB_def size_mul_def size_bound_def single_bit_16K)

theorem v2_reader_chunks_witness:
  "\<exists>r r'. reader_new (rooted_storage 3) 16384 2 = Inr r \<and> v2_read_file (\<lambda>_. False) [7, 8, 9] r = Inr r' \<and>
    rd_pushed r' = [\<lparr>dc_piece_index = 0, dc_file_index = 0, dc_data = Some [7, 8, 9]\<rparr>]"
proof -
  obtain r where r: "reader_new (rooted_storage 3) 16384 2 = Inr r" "rd_storage r = rooted_storage 3"
    "rd_chunk_size r = 16384" "rd_piece_index r = 0" "rd_pushed r = []" "rd_file_index r = 0"
    by (rule sample_reader)
  have "st_piece_count (rooted_storage 3) = 1"
    by (simp add: st_piece_count_def size_add_def size_sub_def size_bound_def)
  with v2_reader_chunks [of r "[7, 8, 9]"] r show ?thesis by (auto simp: block_of_def u32_def)
qed


end
