(* ===== verification/Concurrent_Queue.thy ===== *)
theory Concurrent_Queue
  imports Prelude
begin

text \<open>
  The bounded blocking queue (\<^verbatim>\<open>concurrent_queue.hpp\<close>) and the pool of recycled buffers built on it
  (\<^verbatim>\<open>object_pool.hpp\<close>). Every operation of the queue holds its mutex, so it is one atomic step; an
  operation that waits on a condition variable is a partial function, \<open>None\<close> where the caller blocks.
\<close>

section \<open>The queue\<close>

record 'a cqueue =
  cq_capacity :: nat
  cq_items :: "'a list"

definition cq_new :: "nat \<Rightarrow> 'a cqueue" where
  "cq_new capacity = \<lparr>cq_capacity = capacity, cq_items = []\<rparr>"

definition cq_push :: "'a \<Rightarrow> 'a cqueue \<Rightarrow> 'a cqueue option" where
  "cq_push item q =
     (if length (cq_items q) < cq_capacity q then Some (q\<lparr>cq_items := cq_items q @ [item]\<rparr>) else None)"

definition cq_try_push :: "'a \<Rightarrow> 'a cqueue \<Rightarrow> bool \<times> 'a cqueue" where
  "cq_try_push item q =
     (if length (cq_items q) = cq_capacity q then (False, q)
      else (True, q\<lparr>cq_items := cq_items q @ [item]\<rparr>))"

definition cq_pop :: "'a cqueue \<Rightarrow> ('a \<times> 'a cqueue) option" where
  "cq_pop q = (case cq_items q of [] \<Rightarrow> None | x # xs \<Rightarrow> Some (x, q\<lparr>cq_items := xs\<rparr>))"

definition cq_try_pop :: "'a cqueue \<Rightarrow> ('a \<times> 'a cqueue) option" where
  "cq_try_pop q = (case cq_items q of [] \<Rightarrow> None | x # xs \<Rightarrow> Some (x, q\<lparr>cq_items := xs\<rparr>))"

definition cq_size :: "'a cqueue \<Rightarrow> nat" where
  "cq_size q = length (cq_items q)"

definition cq_set_capacity :: "nat \<Rightarrow> 'a cqueue \<Rightarrow> 'a cqueue" where
  "cq_set_capacity n q = q\<lparr>cq_capacity := n\<rparr>"

named_theorems queue_simps "when the operations of the queue succeed, and with what"

lemma cq_push_Some [queue_simps]:
  "cq_push x q = Some q' \<longleftrightarrow> length (cq_items q) < cq_capacity q \<and> q' = q\<lparr>cq_items := cq_items q @ [x]\<rparr>"
  by (auto simp: cq_push_def)

lemma cq_pop_Some [queue_simps]:
  "cq_pop q = Some (x, q') \<longleftrightarrow> (\<exists>xs. cq_items q = x # xs \<and> q' = q\<lparr>cq_items := xs\<rparr>)"
  by (auto simp: cq_pop_def split: list.splits)

lemma cq_try_pop_Some [queue_simps]:
  "cq_try_pop q = Some (x, q') \<longleftrightarrow> (\<exists>xs. cq_items q = x # xs \<and> q' = q\<lparr>cq_items := xs\<rparr>)"
  by (auto simp: cq_try_pop_def split: list.splits)

lemma cq_try_pop_None [queue_simps]: "cq_try_pop q = None \<longleftrightarrow> cq_items q = []"
  by (auto simp: cq_try_pop_def split: list.splits)

lemma cq_new_simps [simp]: "cq_items (cq_new n) = []" "cq_capacity (cq_new n) = n"
  by (simp_all add: cq_new_def)

section \<open>The object pool\<close>

text \<open>
  Objects are numbered in the order they are constructed. \<open>op_made\<close> counts the constructions and
  \<open>op_live\<close> are the objects that were handed out and not yet released; the class keeps neither.
\<close>

record object_pool =
  op_queue :: "nat cqueue"
  op_left :: nat
  op_made :: nat
  op_live :: "nat list"

definition pool_new :: "nat \<Rightarrow> object_pool" where
  "pool_new capacity = \<lparr>op_queue = cq_new capacity, op_left = capacity, op_made = 0, op_live = []\<rparr>"

definition pool_new_filled :: "nat \<Rightarrow> nat \<Rightarrow> object_pool result" where
  "pool_new_filled capacity n =
     rbind (expects (n \<le> capacity)) (\<lambda>_.
       Inr \<lparr>op_queue = (cq_new capacity)\<lparr>cq_items := [0..<n]\<rparr>, op_left = capacity - n, op_made = n, op_live = []\<rparr>)"

definition pool_get :: "object_pool \<Rightarrow> (nat \<times> object_pool) option" where
  "pool_get p =
     (case cq_try_pop (op_queue p) of
        Some (x, q) \<Rightarrow> Some (x, p\<lparr>op_queue := q, op_live := x # op_live p\<rparr>)
      | None \<Rightarrow>
          if op_left p \<noteq> 0
          then Some (op_made p, p\<lparr>op_left := op_left p - 1, op_made := op_made p + 1, op_live := op_made p # op_live p\<rparr>)
          else (case cq_pop (op_queue p) of
                  None \<Rightarrow> None
                | Some (x, q) \<Rightarrow> Some (x, p\<lparr>op_queue := q, op_live := x # op_live p\<rparr>)))"

definition pool_recycle :: "nat \<Rightarrow> object_pool \<Rightarrow> object_pool option" where
  "pool_recycle x p =
     (case cq_push x (op_queue p) of
        None \<Rightarrow> None
      | Some q \<Rightarrow> Some (p\<lparr>op_queue := q, op_live := remove1 x (op_live p)\<rparr>))"

inductive pool_reachable :: "nat \<Rightarrow> object_pool \<Rightarrow> bool" for capacity where
  empty: "pool_reachable capacity (pool_new capacity)"
| filled: "pool_new_filled capacity n = Inr p \<Longrightarrow> pool_reachable capacity p"
| got: "pool_reachable capacity p \<Longrightarrow> pool_get p = Some (x, p') \<Longrightarrow> pool_reachable capacity p'"
| recycled: "pool_reachable capacity p \<Longrightarrow> x \<in> set (op_live p) \<Longrightarrow> pool_recycle x p = Some p' \<Longrightarrow>
    pool_reachable capacity p'"

definition pool_ok :: "nat \<Rightarrow> object_pool \<Rightarrow> bool" where
  "pool_ok capacity p \<longleftrightarrow> cq_capacity (op_queue p) = capacity \<and>
     length (cq_items (op_queue p)) + length (op_live p) + op_left p = capacity \<and>
     distinct (cq_items (op_queue p) @ op_live p) \<and> set (cq_items (op_queue p) @ op_live p) = {..<op_made p}"

lemma pool_get_ok:
  assumes "pool_ok capacity p" "pool_get p = Some (x, p')"
  shows "pool_ok capacity p'"
proof (cases "cq_items (op_queue p)")
  case Nil
  then have "p' = p\<lparr>op_left := op_left p - 1, op_made := op_made p + 1, op_live := op_made p # op_live p\<rparr>"
    "op_left p \<noteq> 0"
    using assms(2) by (auto simp: pool_get_def cq_try_pop_def cq_pop_def split: if_splits)
  moreover have "set (op_live p) = {..<op_made p}" "distinct (op_live p)"
    "length (op_live p) + op_left p = capacity" "cq_capacity (op_queue p) = capacity"
    using assms(1) Nil by (simp_all add: pool_ok_def)
  ultimately show ?thesis
    using Nil by (simp add: pool_ok_def lessThan_Suc)
next
  case (Cons y ys)
  then have "p' = p\<lparr>op_queue := (op_queue p)\<lparr>cq_items := ys\<rparr>, op_live := y # op_live p\<rparr>"
    using assms(2) by (auto simp: pool_get_def cq_try_pop_def)
  with Cons assms(1) show ?thesis by (auto simp: pool_ok_def)
qed

lemma pool_recycle_ok:
  assumes "pool_ok capacity p" "x \<in> set (op_live p)"
  shows "\<exists>p'. pool_recycle x p = Some p' \<and> pool_ok capacity p'"
proof -
  have "0 < length (op_live p)" using assms(2) by (cases "op_live p") auto
  then have room: "length (cq_items (op_queue p)) < cq_capacity (op_queue p)"
    using assms(1) unfolding pool_ok_def by linarith
  have "Suc (length (op_live p) - 1) = length (op_live p)" using \<open>0 < length (op_live p)\<close> by simp
  with room assms show ?thesis
    by (auto simp: pool_recycle_def cq_push_def pool_ok_def length_remove1 distinct_remove1
        set_remove1_eq Suc_leI)
qed

lemma pool_reachable_ok: "pool_reachable capacity p \<Longrightarrow> pool_ok capacity p"
proof (induction rule: pool_reachable.induct)
  case empty
  show ?case by (simp add: pool_ok_def pool_new_def)
next
  case (filled n p)
  then show ?case by (auto simp: pool_new_filled_def pool_ok_def expects_def split: if_splits)
next
  case (got p x p')
  then show ?case by (blast intro: pool_get_ok)
next
  case (recycled p x p')
  then show ?case using pool_recycle_ok by fastforce
qed

text \<open>
  C29: Whatever the order of gets and releases, a pool never has more objects than its capacity, no
  object is handed out twice, releasing an object never blocks, and getting one blocks exactly when
  as many objects as the capacity allows are in use.
\<close>

theorem object_pool_bounded:
  assumes "pool_reachable capacity p"
  shows "op_made p \<le> capacity \<and> distinct (op_live p) \<and>
    (\<forall>x. x \<in> set (op_live p) \<longrightarrow> pool_recycle x p \<noteq> None) \<and>
    (pool_get p = None \<longleftrightarrow> length (op_live p) = capacity)"
proof -
  note ok = pool_reachable_ok [OF assms]
  have "op_made p = length (cq_items (op_queue p)) + length (op_live p)"
    using ok by (metis card_lessThan distinct_card length_append pool_ok_def)
  moreover have "pool_get p = None \<longleftrightarrow> cq_items (op_queue p) = [] \<and> op_left p = 0"
    by (auto simp: pool_get_def cq_try_pop_def cq_pop_def split: list.splits)
  moreover have "\<forall>x. x \<in> set (op_live p) \<longrightarrow> pool_recycle x p \<noteq> None"
    using pool_recycle_ok [OF ok] by fastforce
  ultimately show ?thesis using ok by (auto simp: pool_ok_def)
qed

theorem object_pool_bounded_witness:
  "\<exists>p. pool_reachable 1 p \<and> op_live p = [0] \<and> pool_get p = None \<and> pool_recycle 0 p \<noteq> None"
proof -
  have get: "pool_get (pool_new 1) = Some (0, \<lparr>op_queue = cq_new 1, op_left = 0, op_made = 1, op_live = [0]\<rparr>)"
    by (simp add: pool_get_def pool_new_def cq_try_pop_def)
  have "pool_reachable 1 \<lparr>op_queue = cq_new 1, op_left = 0, op_made = 1, op_live = [0]\<rparr>"
    by (rule pool_reachable.got [OF pool_reachable.empty get])
  from this object_pool_bounded [OF this] show ?thesis by (intro exI) auto
qed

end
