(* ===== verification/Worker_Pool.thy ===== *)
theory Worker_Pool
  imports Chunk_Hashers Concurrent_Queue "HOL-Library.Multiset"
begin

text \<open>
  The threads that hash chunks: \<^verbatim>\<open>chunk_processor_base.cpp\<close> with the \<^verbatim>\<open>run\<close> loop of
  \<^verbatim>\<open>chunk_hasher_single_buffer.cpp\<close> and \<^verbatim>\<open>chunk_hasher_multi_buffer.cpp\<close> (the two loops are the same),
  driven as \<^verbatim>\<open>storage_hasher::wait\<close> drives them: the reader pushes its chunks, then the owner calls
  \<^verbatim>\<open>request_stop\<close> and \<^verbatim>\<open>wait\<close>. A state holds the queue, where each worker stands in its loop, the flags
  and where the owner stands; a step is one atomic action of one thread, and any order of steps of the
  threads can happen. The atomics are taken as sequentially consistent. Hashing an item is one step; the
  record of processed items keeps the order in which the workers finished them.
\<close>

section \<open>State\<close>

definition wakeup_chunk :: data_chunk where
  "wakeup_chunk = \<lparr>dc_piece_index = 2 ^ 32 - 1, dc_file_index = 2 ^ 32 - 1, dc_data = None\<rparr>"

datatype 'a worker_place =
    Checking
  | Popping
  | Working 'a
  | Leaving
  | Draining
  | Drain_Working 'a
  | Marking
  | Ended
  | Broken

record 'a worker =
  wk_at :: "'a worker_place"
  wk_stop :: bool
  wk_done :: bool

datatype 'a owner_place =
    Feeding "'a list"
  | Stopping nat
  | Waking nat
  | Rechecking nat
  | Rewaking nat
  | Joining nat
  | Finished
  | Owner_Broken

record 'a pool =
  po_queue :: "'a cqueue"
  po_workers :: "'a worker list"
  po_cancelled :: bool
  po_processed :: "'a list"
  po_owner :: "'a owner_place"

text \<open>\<^verbatim>\<open>start\<close>: every worker at its loop condition, with its flags cleared.\<close>

definition pool_start :: "nat \<Rightarrow> nat \<Rightarrow> 'a list \<Rightarrow> 'a pool result" where
  "pool_start capacity threads items =
     rbind (expects (0 < threads)) (\<lambda>_.
       Inr \<lparr>po_queue = cq_new capacity,
            po_workers = replicate threads \<lparr>wk_at = Checking, wk_stop = False, wk_done = False\<rparr>,
            po_cancelled = False, po_processed = [], po_owner = Feeding items\<rparr>)"

definition pool_done :: "'a pool \<Rightarrow> bool" where
  "pool_done s \<longleftrightarrow> po_cancelled s \<or> (\<forall>w\<in>set (po_workers s). wk_done w)"

section \<open>Steps\<close>

text \<open>
  A worker against the queue and the cancellation flag; \<open>wake\<close> is the item that wakes a blocked worker.
  The third component is what the step finishes processing.
\<close>

inductive worker_step ::
    "'a \<Rightarrow> bool \<Rightarrow> 'a cqueue \<Rightarrow> 'a worker \<Rightarrow> 'a list \<Rightarrow> 'a cqueue \<Rightarrow> 'a worker \<Rightarrow> bool" for wake c where
  see_stop: "wk_at w = Checking \<Longrightarrow> wk_stop w \<Longrightarrow> worker_step wake c q w [] q (w\<lparr>wk_at := Leaving\<rparr>)"
| go_on: "wk_at w = Checking \<Longrightarrow> \<not> wk_stop w \<Longrightarrow> worker_step wake c q w [] q (w\<lparr>wk_at := Popping\<rparr>)"
| pop_item: "wk_at w = Popping \<Longrightarrow> cq_pop q = Some (x, q') \<Longrightarrow> x \<noteq> wake \<Longrightarrow>
    worker_step wake c q w [] q' (w\<lparr>wk_at := Working x\<rparr>)"
| pop_wake: "wk_at w = Popping \<Longrightarrow> cq_pop q = Some (x, q') \<Longrightarrow> x = wake \<Longrightarrow>
    worker_step wake c q w [] q' (w\<lparr>wk_at := (if wk_stop w then Leaving else Broken)\<rparr>)"
| work: "wk_at w = Working x \<Longrightarrow> worker_step wake c q w [x] q (w\<lparr>wk_at := Checking\<rparr>)"
| leave: "wk_at w = Leaving \<Longrightarrow>
    worker_step wake c q w [] q (w\<lparr>wk_at := (if c then Marking else Draining)\<rparr>)"
| drain_item: "wk_at w = Draining \<Longrightarrow> cq_try_pop q = Some (x, q') \<Longrightarrow> x \<noteq> wake \<Longrightarrow>
    worker_step wake c q w [] q' (w\<lparr>wk_at := Drain_Working x\<rparr>)"
| drain_wake: "wk_at w = Draining \<Longrightarrow> cq_try_pop q = Some (x, q') \<Longrightarrow> x = wake \<Longrightarrow>
    worker_step wake c q w [] q' (w\<lparr>wk_at := Marking\<rparr>)"
| drain_empty: "wk_at w = Draining \<Longrightarrow> cq_try_pop q = None \<Longrightarrow>
    worker_step wake c q w [] q (w\<lparr>wk_at := Marking\<rparr>)"
| drain_work: "wk_at w = Drain_Working x \<Longrightarrow> worker_step wake c q w [x] q (w\<lparr>wk_at := Draining\<rparr>)"
| mark: "wk_at w = Marking \<Longrightarrow> worker_step wake c q w [] q (w\<lparr>wk_at := Ended, wk_done := True\<rparr>)"

inductive pool_step :: "'a \<Rightarrow> 'a pool \<Rightarrow> 'a pool \<Rightarrow> bool" for wake where
  worker: "i < length (po_workers s) \<Longrightarrow>
    worker_step wake (po_cancelled s) (po_queue s) (po_workers s ! i) xs q w \<Longrightarrow>
    pool_step wake s (s\<lparr>po_queue := q, po_workers := (po_workers s)[i := w], po_processed := po_processed s @ xs\<rparr>)"
| feed: "po_owner s = Feeding (x # xs) \<Longrightarrow> cq_push x (po_queue s) = Some q \<Longrightarrow>
    pool_step wake s (s\<lparr>po_queue := q, po_owner := Feeding xs\<rparr>)"
| reader_joined: "po_owner s = Feeding [] \<Longrightarrow> pool_step wake s (s\<lparr>po_owner := Stopping 0\<rparr>)"
| stop_worker: "po_owner s = Stopping i \<Longrightarrow> i < length (po_workers s) \<Longrightarrow>
    pool_step wake s (s\<lparr>po_workers := (po_workers s)[i := (po_workers s ! i)\<lparr>wk_stop := True\<rparr>],
      po_owner := Stopping (Suc i)\<rparr>)"
| all_stopped: "po_owner s = Stopping i \<Longrightarrow> \<not> i < length (po_workers s) \<Longrightarrow>
    pool_step wake s (s\<lparr>po_owner := Waking 0\<rparr>)"
| wake_worker: "po_owner s = Waking i \<Longrightarrow> i < length (po_workers s) \<Longrightarrow> cq_push wake (po_queue s) = Some q \<Longrightarrow>
    pool_step wake s (s\<lparr>po_queue := q, po_owner := Waking (Suc i)\<rparr>)"
| all_woken: "po_owner s = Waking i \<Longrightarrow> \<not> i < length (po_workers s) \<Longrightarrow>
    pool_step wake s (s\<lparr>po_owner := Rechecking 0\<rparr>)"
| not_done: "po_owner s = Rechecking i \<Longrightarrow> \<not> pool_done s \<and> i < length (po_workers s) \<Longrightarrow>
    pool_step wake s (s\<lparr>po_owner := Rewaking i\<rparr>)"
| checked: "po_owner s = Rechecking i \<Longrightarrow> pool_done s \<or> \<not> i < length (po_workers s) \<Longrightarrow>
    pool_step wake s (s\<lparr>po_owner := Joining 0\<rparr>)"
| wake_again: "po_owner s = Rewaking i \<Longrightarrow> cq_push wake (po_queue s) = Some q \<Longrightarrow>
    pool_step wake s (s\<lparr>po_queue := q, po_owner := Rechecking (Suc i)\<rparr>)"
| join_worker: "po_owner s = Joining i \<Longrightarrow> i < length (po_workers s) \<Longrightarrow> wk_at (po_workers s ! i) = Ended \<Longrightarrow>
    pool_step wake s (s\<lparr>po_owner := Joining (Suc i)\<rparr>)"
| all_joined: "po_owner s = Joining i \<Longrightarrow> \<not> i < length (po_workers s) \<Longrightarrow>
    pool_step wake s (s\<lparr>po_owner := (if \<forall>w\<in>set (po_workers s). wk_done w then Finished else Owner_Broken)\<rparr>)"

text \<open>The states a pool can get into, from \<^verbatim>\<open>start\<close> with these items for the reader to push.\<close>

inductive pool_reachable_from :: "'a \<Rightarrow> nat \<Rightarrow> nat \<Rightarrow> 'a list \<Rightarrow> 'a pool \<Rightarrow> bool"
  for wake capacity threads items where
  started: "pool_start capacity threads items = Inr s \<Longrightarrow> pool_reachable_from wake capacity threads items s"
| stepped: "pool_reachable_from wake capacity threads items s \<Longrightarrow> pool_step wake s s' \<Longrightarrow>
    pool_reachable_from wake capacity threads items s'"

section \<open>Invariants\<close>

text \<open>What a worker holds, and how many wake-ups it can have taken.\<close>

fun in_hand :: "'a worker_place \<Rightarrow> 'a list" where
  "in_hand (Working x) = [x]"
| "in_hand (Drain_Working x) = [x]"
| "in_hand _ = []"

fun taken :: "'a worker_place \<Rightarrow> nat" where
  "taken Checking = 0"
| "taken Popping = 0"
| "taken (Working x) = 0"
| "taken Leaving = 1"
| "taken Draining = 1"
| "taken (Drain_Working x) = 1"
| "taken _ = 2"

definition leaving :: "'a worker_place \<Rightarrow> bool" where
  "leaving p \<longleftrightarrow> 0 < taken p"

fun to_feed :: "'a owner_place \<Rightarrow> 'a list" where
  "to_feed (Feeding xs) = xs"
| "to_feed _ = []"

text \<open>How many wake-ups the owner has pushed when it stands there.\<close>

fun woken :: "nat \<Rightarrow> 'a owner_place \<Rightarrow> nat" where
  "woken n (Feeding xs) = 0"
| "woken n (Stopping i) = 0"
| "woken n (Waking i) = i"
| "woken n (Rechecking i) = n + i"
| "woken n (Rewaking i) = n + i"
| "woken n _ = 2 * n"

fun stopped_below :: "nat \<Rightarrow> 'a owner_place \<Rightarrow> nat" where
  "stopped_below n (Feeding xs) = 0"
| "stopped_below n (Stopping i) = i"
| "stopped_below n _ = n"

fun owner_bound :: "nat \<Rightarrow> 'a owner_place \<Rightarrow> bool" where
  "owner_bound n (Stopping i) \<longleftrightarrow> i \<le> n"
| "owner_bound n (Waking i) \<longleftrightarrow> i \<le> n"
| "owner_bound n (Rechecking i) \<longleftrightarrow> i \<le> n"
| "owner_bound n (Rewaking i) \<longleftrightarrow> i < n"
| "owner_bound n (Joining i) \<longleftrightarrow> i \<le> n"
| "owner_bound n Owner_Broken \<longleftrightarrow> False"
| "owner_bound n _ \<longleftrightarrow> True"


lemma sum_list_update_swap:
  fixes xs :: "'a :: {comm_monoid_add, cancel_semigroup_add} list"
  shows "i < length xs \<Longrightarrow> sum_list (xs[i := y]) + xs ! i = sum_list xs + y"
  by (induction xs arbitrary: i) (auto simp: ac_simps nth_Cons split: nat.splits)

definition all_in_hand :: "'a worker list \<Rightarrow> 'a multiset" where
  "all_in_hand ws = sum_list (map (\<lambda>w. mset (in_hand (wk_at w))) ws)"

definition all_taken :: "'a worker list \<Rightarrow> nat" where
  "all_taken ws = sum_list (map (\<lambda>w. taken (wk_at w)) ws)"

lemma workers_update:
  assumes "i < length ws"
  shows "all_in_hand (ws[i := w]) + mset (in_hand (wk_at (ws ! i))) = all_in_hand ws + mset (in_hand (wk_at w))"
    "all_taken (ws[i := w]) + taken (wk_at (ws ! i)) = all_taken ws + taken (wk_at w)"
  using sum_list_update_swap [of i "map (\<lambda>w. mset (in_hand (wk_at w))) ws" "mset (in_hand (wk_at w))"]
    sum_list_update_swap [of i "map (\<lambda>w. taken (wk_at w)) ws" "taken (wk_at w)"] assms
  by (simp_all add: all_in_hand_def all_taken_def map_update)

text \<open>Items in front, wake-ups behind them.\<close>

definition queue_shape :: "'a \<Rightarrow> 'a list \<Rightarrow> nat \<Rightarrow> 'a list \<Rightarrow> bool" where
  "queue_shape wake as k items \<longleftrightarrow> items = as @ replicate k wake \<and> wake \<notin> set as"

definition worker_ok :: "'a list \<Rightarrow> 'a worker \<Rightarrow> bool" where
  "worker_ok as w \<longleftrightarrow> (leaving (wk_at w) \<longrightarrow> wk_stop w) \<and> (wk_done w \<longleftrightarrow> wk_at w = Ended) \<and>
     wk_at w \<noteq> Broken \<and> (wk_at w = Marking \<or> wk_at w = Ended \<longrightarrow> as = [])"

text \<open>One step of one worker while nothing is cancelled.\<close>

lemma worker_step_effect:
  assumes "worker_step wake False q w xs q' w'" "queue_shape wake as k (cq_items q)" "worker_ok as w"
    "0 < k \<longrightarrow> wk_stop w"
  shows "\<exists>as' k'. queue_shape wake as' k' (cq_items q') \<and> worker_ok as' w' \<and> set as' \<subseteq> set as \<and>
    mset xs + mset (in_hand (wk_at w')) + mset as' = mset (in_hand (wk_at w)) + mset as \<and>
    k' \<le> k \<and> k + taken (wk_at w) \<le> k' + taken (wk_at w') \<and>
    wk_stop w' = wk_stop w \<and> cq_capacity q' = cq_capacity q \<and>
    length (cq_items q') \<le> length (cq_items q) \<and> (wk_at w = Ended \<longrightarrow> wk_at w' = Ended)"
  using assms
proof (induction rule: worker_step.induct)
  case (pop_item w q x q')
  then obtain ys where "as = x # ys" "cq_items q' = ys @ replicate k wake" "cq_capacity q' = cq_capacity q"
    by (cases as; cases k) (auto simp: queue_shape_def queue_simps)
  with pop_item show ?case
    by (intro exI [of _ ys] exI [of _ k]) (auto simp: queue_shape_def worker_ok_def leaving_def)
next
  case (pop_wake w q x q')
  then obtain j where "as = []" "k = Suc j" "cq_items q' = replicate j wake" "cq_capacity q' = cq_capacity q" "wk_stop w"
    by (cases as; cases k) (auto simp: queue_shape_def queue_simps)
  with pop_wake show ?case
    by (intro exI [of _ "[]"] exI [of _ j]) (auto simp: queue_shape_def worker_ok_def leaving_def)
next
  case (drain_item w q x q')
  then obtain ys where "as = x # ys" "cq_items q' = ys @ replicate k wake" "cq_capacity q' = cq_capacity q"
    by (cases as; cases k) (auto simp: queue_shape_def queue_simps)
  with drain_item show ?case
    by (intro exI [of _ ys] exI [of _ k]) (auto simp: queue_shape_def worker_ok_def leaving_def)
next
  case (drain_wake w q x q')
  then obtain j where "as = []" "k = Suc j" "cq_items q' = replicate j wake" "cq_capacity q' = cq_capacity q"
    by (cases as; cases k) (auto simp: queue_shape_def queue_simps)
  with drain_wake show ?case
    by (intro exI [of _ "[]"] exI [of _ j]) (auto simp: queue_shape_def worker_ok_def leaving_def)
next
  case (drain_empty w q)
  then have "as = []" "k = 0" by (auto simp: queue_shape_def queue_simps)
  with drain_empty show ?case
    by (intro exI [of _ "[]"] exI [of _ 0]) (auto simp: queue_shape_def worker_ok_def leaving_def queue_simps)
qed (auto simp: worker_ok_def leaving_def intro!: exI [of _ as] exI [of _ k])

definition pool_inv :: "'a \<Rightarrow> nat \<Rightarrow> nat \<Rightarrow> 'a list \<Rightarrow> 'a pool \<Rightarrow> bool" where
  "pool_inv wake capacity n xs s \<longleftrightarrow>
     \<not> po_cancelled s \<and> length (po_workers s) = n \<and> cq_capacity (po_queue s) = capacity \<and>
     owner_bound n (po_owner s) \<and>
     (\<forall>j<n. wk_stop (po_workers s ! j) \<longleftrightarrow> j < stopped_below n (po_owner s)) \<and>
     (\<forall>j<n. po_owner s = Finished \<or> (\<exists>i. po_owner s = Joining i \<and> j < i) \<longrightarrow> wk_at (po_workers s ! j) = Ended) \<and>
     (\<exists>as k. queue_shape wake as k (cq_items (po_queue s)) \<and> (\<forall>w\<in>set (po_workers s). worker_ok as w) \<and>
        mset (po_processed s) + all_in_hand (po_workers s) + mset as + mset (to_feed (po_owner s)) = mset xs \<and>
        k \<le> woken n (po_owner s) \<and>
        ((\<forall>w\<in>set (po_workers s). wk_at w = Ended) \<or> woken n (po_owner s) \<le> k + all_taken (po_workers s)))"

lemma pool_inv_start:
  assumes "pool_start capacity n xs = Inr s"
  shows "pool_inv wake capacity n xs s"
proof -
  have "all_in_hand (replicate n \<lparr>wk_at = Checking, wk_stop = False, wk_done = False\<rparr>) = {#}"
    by (induction n) (simp_all add: all_in_hand_def)
  with assms show ?thesis
    by (auto simp: pool_start_def result_simps pool_inv_def queue_shape_def worker_ok_def leaving_def
        intro!: exI [of _ "[]"])
qed

lemma all_update: "\<forall>v\<in>set ws. P v \<Longrightarrow> P w \<Longrightarrow> \<forall>v\<in>set (ws[i := w]). P v"
  using set_update_subset_insert [of ws i w] by blast

lemma worker_ok_others:
  assumes "\<forall>v\<in>set ws. worker_ok as v" "worker_ok as' w" "set as' \<subseteq> set as"
  shows "\<forall>v\<in>set (ws[i := w]). worker_ok as' v"
  by (rule all_update) (use assms in \<open>auto simp: worker_ok_def\<close>)

lemma pool_inv_worker:
  assumes inv: "pool_inv wake capacity n xs s" and i: "i < length (po_workers s)"
    and step: "worker_step wake (po_cancelled s) (po_queue s) (po_workers s ! i) ys q w"
  shows "pool_inv wake capacity n xs
    (s\<lparr>po_queue := q, po_workers := (po_workers s)[i := w], po_processed := po_processed s @ ys\<rparr>)"
proof -
  let ?ws = "po_workers s"
  obtain as k where I: "queue_shape wake as k (cq_items (po_queue s))" "\<forall>v\<in>set ?ws. worker_ok as v"
      "mset (po_processed s) + all_in_hand ?ws + mset as + mset (to_feed (po_owner s)) = mset xs"
      "k \<le> woken n (po_owner s)" "(\<forall>v\<in>set ?ws. wk_at v = Ended) \<or> woken n (po_owner s) \<le> k + all_taken ?ws"
    using inv by (auto simp: pool_inv_def)
  have stops: "\<forall>j<n. wk_stop (?ws ! j) \<longleftrightarrow> j < stopped_below n (po_owner s)" and n: "length ?ws = n"
    using inv by (auto simp: pool_inv_def)
  have "0 < k \<longrightarrow> wk_stop (?ws ! i)"
    using stops n i I(4) by (cases "po_owner s") auto
  then obtain as' k' where E: "queue_shape wake as' k' (cq_items q)" "worker_ok as' w" "set as' \<subseteq> set as"
      "mset ys + mset (in_hand (wk_at w)) + mset as' = mset (in_hand (wk_at (?ws ! i))) + mset as"
      "k' \<le> k" "k + taken (wk_at (?ws ! i)) \<le> k' + taken (wk_at w)" "wk_stop w = wk_stop (?ws ! i)"
      "cq_capacity q = cq_capacity (po_queue s)" "wk_at (?ws ! i) = Ended \<longrightarrow> wk_at w = Ended"
    using worker_step_effect [of wake "po_queue s" "?ws ! i" ys q w as k] step inv I i
    by (auto simp: pool_inv_def)
  have items: "mset (po_processed s @ ys) + all_in_hand (?ws[i := w]) + mset as' + mset (to_feed (po_owner s)) = mset xs"
  proof -
    have "mset (po_processed s @ ys) + all_in_hand (?ws[i := w]) + mset as' + mset (to_feed (po_owner s))
        + mset (in_hand (wk_at (?ws ! i)))
      = mset (po_processed s) + mset (to_feed (po_owner s)) + all_in_hand ?ws
        + (mset ys + mset (in_hand (wk_at w)) + mset as')"
      using workers_update(1) [OF i, of w] by (simp add: ac_simps)
    also have "\<dots> = mset xs + mset (in_hand (wk_at (?ws ! i)))"
      unfolding E(4) I(3) [symmetric] by (simp add: ac_simps)
    finally show ?thesis by simp
  qed
  have wakes: "(\<forall>v\<in>set (?ws[i := w]). wk_at v = Ended) \<or> woken n (po_owner s) \<le> k' + all_taken (?ws[i := w])"
    using I(5)
  proof
    assume ended: "\<forall>v\<in>set ?ws. wk_at v = Ended"
    then have "wk_at (?ws ! i) = Ended" using i by simp
    with E(9) ended have "\<forall>v\<in>set (?ws[i := w]). wk_at v = Ended"
      by (intro all_update) auto
    then show ?thesis by simp
  next
    assume "woken n (po_owner s) \<le> k + all_taken ?ws"
    with E(6) workers_update(2) [OF i, of w] show ?thesis by linarith
  qed
  have "\<forall>v\<in>set (?ws[i := w]). worker_ok as' v" by (rule worker_ok_others [OF I(2) E(2,3)])
  with E I(4) items wakes
  have data: "\<exists>as k. queue_shape wake as k (cq_items q) \<and> (\<forall>v\<in>set (?ws[i := w]). worker_ok as v) \<and>
        mset (po_processed s @ ys) + all_in_hand (?ws[i := w]) + mset as + mset (to_feed (po_owner s)) = mset xs \<and>
        k \<le> woken n (po_owner s) \<and>
        ((\<forall>v\<in>set (?ws[i := w]). wk_at v = Ended) \<or> woken n (po_owner s) \<le> k + all_taken (?ws[i := w]))"
    using le_trans by blast
  have "\<forall>j<n. wk_stop (?ws[i := w] ! j) \<longleftrightarrow> j < stopped_below n (po_owner s)"
    using stops E(7) n i by (simp add: nth_list_update)
  moreover have "\<forall>j<n. wk_at (?ws ! j) = Ended \<longrightarrow> wk_at (?ws[i := w] ! j) = Ended"
    using E(9) n i by (simp add: nth_list_update)
  ultimately show ?thesis
    using inv data E(8) n unfolding pool_inv_def by simp
qed


lemma queue_shape_push_item:
  assumes "queue_shape wake as 0 items" "x \<noteq> wake"
  shows "queue_shape wake (as @ [x]) 0 (items @ [x])"
  using assms by (simp add: queue_shape_def)

lemma queue_shape_push_wake:
  assumes "queue_shape wake as k items"
  shows "queue_shape wake as (Suc k) (items @ [wake])"
  using assms by (simp add: queue_shape_def replicate_append_same)

lemma pool_inv_step:
  assumes "pool_step wake s s'" "pool_inv wake capacity n xs s" "wake \<notin> set xs"
  shows "pool_inv wake capacity n xs s'"
  using assms
proof (induction rule: pool_step.induct)
  case (worker i s ys q w)
  then show ?case by (blast intro: pool_inv_worker)
next
  case (feed s x ys q)
  obtain as k where I: "queue_shape wake as k (cq_items (po_queue s))" "\<forall>v\<in>set (po_workers s). worker_ok as v"
      "mset (po_processed s) + all_in_hand (po_workers s) + mset as + mset (x # ys) = mset xs" "k = 0"
    using feed by (auto simp: pool_inv_def)
  have "x \<in># mset xs" unfolding I(3) [symmetric] by simp
  then have "x \<noteq> wake" using feed.prems(2) by auto
  moreover have "\<forall>v\<in>set (po_workers s). worker_ok (as @ [x]) v"
  proof
    fix v assume v: "v \<in> set (po_workers s)"
    then obtain j where "j < length (po_workers s)" "v = po_workers s ! j" by (auto simp: in_set_conv_nth)
    then have "\<not> wk_stop v" using feed.prems(1) feed.hyps(1) by (simp add: pool_inv_def)
    with I(2) v show "worker_ok (as @ [x]) v" by (auto simp: worker_ok_def leaving_def)
  qed
  ultimately have "\<exists>as k. queue_shape wake as k (cq_items q) \<and> (\<forall>w\<in>set (po_workers s). worker_ok as w) \<and>
        mset (po_processed s) + all_in_hand (po_workers s) + mset as + mset ys = mset xs \<and> k \<le> 0"
    using I feed.hyps(2) queue_shape_push_item [of wake as "cq_items (po_queue s)" x]
    by (intro exI [of _ "as @ [x]"] exI [of _ 0]) (auto simp: queue_simps)
  with feed show ?case
    by (auto simp: pool_inv_def queue_simps)
next
  case (stop_worker s i)
  let ?w = "po_workers s ! i"
  have sums: "all_in_hand ((po_workers s)[i := ?w\<lparr>wk_stop := True\<rparr>]) = all_in_hand (po_workers s)"
    using workers_update(1) [OF stop_worker.hyps(2), of "?w\<lparr>wk_stop := True\<rparr>"] by simp
  obtain as k where I: "queue_shape wake as k (cq_items (po_queue s))" "\<forall>v\<in>set (po_workers s). worker_ok as v"
      "mset (po_processed s) + all_in_hand (po_workers s) + mset as = mset xs" "k = 0"
    using stop_worker by (auto simp: pool_inv_def)
  have "worker_ok as (?w\<lparr>wk_stop := True\<rparr>)"
    using I(2) stop_worker.hyps(2) nth_mem by (fastforce simp: worker_ok_def)
  then have "\<forall>v\<in>set ((po_workers s)[i := ?w\<lparr>wk_stop := True\<rparr>]). worker_ok as v"
    using I(2) by (intro all_update)
  with stop_worker I sums show ?case
    by (auto simp: pool_inv_def nth_list_update)
next
  case (wake_worker s i q)
  obtain as k where I: "queue_shape wake as k (cq_items (po_queue s))" "\<forall>v\<in>set (po_workers s). worker_ok as v"
      "mset (po_processed s) + all_in_hand (po_workers s) + mset as = mset xs" "k \<le> i"
      "(\<forall>v\<in>set (po_workers s). wk_at v = Ended) \<or> i \<le> k + all_taken (po_workers s)"
    using wake_worker by (auto simp: pool_inv_def)
  then have "queue_shape wake as (Suc k) (cq_items q)"
    using wake_worker.hyps(3) queue_shape_push_wake by (auto simp: queue_simps)
  with wake_worker I show ?case
    by (auto simp: pool_inv_def queue_simps intro!: exI [of _ as] exI [of _ "Suc k"])
next
  case (wake_again s i q)
  obtain as k where I: "queue_shape wake as k (cq_items (po_queue s))" "\<forall>v\<in>set (po_workers s). worker_ok as v"
      "mset (po_processed s) + all_in_hand (po_workers s) + mset as = mset xs" "k \<le> n + i"
      "(\<forall>v\<in>set (po_workers s). wk_at v = Ended) \<or> n + i \<le> k + all_taken (po_workers s)"
    using wake_again by (auto simp: pool_inv_def)
  then have "queue_shape wake as (Suc k) (cq_items q)"
    using wake_again.hyps(2) queue_shape_push_wake by (auto simp: queue_simps)
  with wake_again I show ?case
    by (auto simp: pool_inv_def queue_simps intro!: exI [of _ as] exI [of _ "Suc k"])
next
  case (checked s i)
  obtain as k where I: "queue_shape wake as k (cq_items (po_queue s))" "\<forall>v\<in>set (po_workers s). worker_ok as v"
      "mset (po_processed s) + all_in_hand (po_workers s) + mset as = mset xs" "k \<le> n + i"
      "(\<forall>v\<in>set (po_workers s). wk_at v = Ended) \<or> n + i \<le> k + all_taken (po_workers s)"
    using checked by (auto simp: pool_inv_def)
  have i: "i \<le> n" using checked by (auto simp: pool_inv_def)
  have "(\<forall>v\<in>set (po_workers s). wk_at v = Ended) \<or> 2 * n \<le> k + all_taken (po_workers s)"
  proof (cases "pool_done s")
    case True
    with I(2) checked.prems(1) show ?thesis
      by (auto simp: pool_done_def worker_ok_def pool_inv_def)
  next
    case False
    with checked i have "i = n" by (auto simp: pool_inv_def)
    with I(5) show ?thesis by (simp add: mult_2)
  qed
  moreover have "k \<le> 2 * n" using I(4) i by simp
  ultimately show ?case
    using checked I by (auto simp: pool_inv_def intro!: exI [of _ as] exI [of _ k])
next
  case (all_joined s i)
  then have "\<forall>j<n. wk_at (po_workers s ! j) = Ended" "length (po_workers s) = n"
    by (auto simp: pool_inv_def)
  then have ended: "\<forall>w\<in>set (po_workers s). wk_at w = Ended" by (auto simp: in_set_conv_nth)
  with all_joined.prems(1) have "\<forall>w\<in>set (po_workers s). wk_done w" by (auto simp: pool_inv_def worker_ok_def)
  with all_joined ended show ?case by (auto simp: pool_inv_def)
next
  case (join_worker s i)
  then show ?case by (auto simp: pool_inv_def less_Suc_eq)
qed (auto simp: pool_inv_def)

lemma pool_reachable_inv:
  "pool_reachable_from wake capacity n xs s \<Longrightarrow> wake \<notin> set xs \<Longrightarrow> pool_inv wake capacity n xs s"
  by (induction rule: pool_reachable_from.induct) (auto intro: pool_inv_start pool_inv_step)


section \<open>Progress\<close>

lemma worker_can_step:
  assumes "wk_at w \<noteq> Ended" "wk_at w \<noteq> Broken" "wk_at w = Popping \<longrightarrow> cq_items q \<noteq> []"
  shows "\<exists>xs q' w'. worker_step wake c q w xs q' w'"
proof (cases "wk_at w")
  case Checking
  then show ?thesis by (cases "wk_stop w") (blast intro: worker_step.intros)+
next
  case Popping
  with assms(3) obtain x ys where "cq_pop q = Some (x, q\<lparr>cq_items := ys\<rparr>)"
    by (cases "cq_items q") (auto simp: queue_simps)
  with Popping show ?thesis by (cases "x = wake") (blast intro: worker_step.intros)+
next
  case Draining
  show ?thesis
  proof (cases "cq_try_pop q")
    case None
    with Draining show ?thesis by (blast intro: worker_step.intros)
  next
    case (Some xq)
    with Draining show ?thesis
      by (cases xq; cases "fst xq = wake") (force intro: worker_step.intros)+
  qed
qed (use assms in \<open>blast intro: worker_step.intros\<close>)+

lemma sum_list_count_bound: "(\<And>x. x \<in> set xs \<Longrightarrow> f x \<le> (2::nat)) \<Longrightarrow> sum_list (map f xs) \<le> 2 * length xs"
  by (induction xs) (fastforce simp: add_mono)+

lemma all_taken_less:
  assumes "v \<in> set ws" "wk_at v = Popping"
  shows "all_taken ws \<le> 2 * (length ws - 1)"
proof -
  obtain as bs where ws: "ws = as @ v # bs" using assms(1) split_list by fast
  have "taken p \<le> 2" for p :: "'a worker_place" by (cases p) auto
  then have "sum_list (map (\<lambda>w. taken (wk_at w)) (as @ bs)) \<le> 2 * length (as @ bs)"
    by (intro sum_list_count_bound)
  then show ?thesis using assms(2) by (simp add: ws all_taken_def)
qed

lemma pool_progress:
  assumes "pool_inv wake capacity n xs s" "0 < n" "2 * n \<le> capacity" "po_owner s \<noteq> Finished"
  shows "\<exists>s'. pool_step wake s s'"
proof (rule ccontr)
  assume stuck: "\<nexists>s'. pool_step wake s s'"
  let ?ws = "po_workers s" and ?items = "cq_items (po_queue s)"
  obtain as k where I: "queue_shape wake as k ?items" "\<forall>v\<in>set ?ws. worker_ok as v"
      "k \<le> woken n (po_owner s)" "(\<forall>v\<in>set ?ws. wk_at v = Ended) \<or> woken n (po_owner s) \<le> k + all_taken ?ws"
    using assms(1) by (auto simp: pool_inv_def)
  have n: "length ?ws = n" and bound: "owner_bound n (po_owner s)"
    and stops: "\<forall>j<n. wk_stop (?ws ! j) \<longleftrightarrow> j < stopped_below n (po_owner s)"
    and cap: "cq_capacity (po_queue s) = capacity"
    and joined: "\<And>i j. po_owner s = Joining i \<Longrightarrow> j < i \<Longrightarrow> j < n \<Longrightarrow> wk_at (?ws ! j) = Ended"
    using assms(1) by (auto simp: pool_inv_def)
  have still: "wk_at v = Ended \<or> wk_at v = Popping \<and> ?items = []" if v: "v \<in> set ?ws" for v
  proof (rule ccontr)
    assume "\<not> ?thesis"
    moreover have "wk_at v \<noteq> Broken" using I(2) v by (simp add: worker_ok_def)
    ultimately obtain ys q w where "worker_step wake (po_cancelled s) (po_queue s) v ys q w"
      using worker_can_step [of v "po_queue s"] by blast
    moreover obtain j where "j < length ?ws" "?ws ! j = v" using v by (auto simp: in_set_conv_nth)
    ultimately show False using stuck pool_step.worker [of j s wake ys q w] by auto
  qed
  have first: "?ws ! 0 \<in> set ?ws" using assms(2) n by simp
  have full: "\<exists>v\<in>set ?ws. wk_at v = Ended \<and> ?items = replicate k wake" if "cq_push x (po_queue s) = None" for x
  proof -
    have "capacity \<le> length ?items" using that cap by (auto simp: cq_push_def split: if_splits)
    then have "?items \<noteq> []" using assms(2,3) by auto
    with still first have e: "wk_at (?ws ! 0) = Ended" by blast
    with I(2) first have "as = []" by (auto simp: worker_ok_def)
    with I(1) e first show ?thesis by (auto simp: queue_shape_def)
  qed
  have room: "cq_push x (po_queue s) \<noteq> None" if "woken n (po_owner s) < capacity" for x
  proof
    assume none: "cq_push x (po_queue s) = None"
    with full have "length ?items = k" by fastforce
    with none cap I(3) that show False by (auto simp: cq_push_def split: if_splits)
  qed
  show False
  proof (cases "po_owner s")
    case (Feeding ys)
    show False
    proof (cases ys)
      case Nil
      with Feeding stuck show False by (blast intro: pool_step.intros)
    next
      case (Cons x zs)
      with room [of x] Feeding assms(2,3) stuck show False
        by (auto intro: pool_step.feed)
    qed
  next
    case (Stopping i)
    with stuck show False by (cases "i < length ?ws") (blast intro: pool_step.intros)+
  next
    case (Waking i)
    with room [of wake] assms(2,3) n stuck bound show False
      by (cases "i < n") (auto intro: pool_step.wake_worker pool_step.all_woken)
  next
    case (Rechecking i)
    with stuck show False by (cases "\<not> pool_done s \<and> i < length ?ws") (blast intro: pool_step.intros)+
  next
    case (Rewaking i)
    with room [of wake] assms(3) bound stuck show False
      by (auto intro: pool_step.wake_again)
  next
    case (Joining i)
    show False
    proof (cases "i < n")
      case False
      with pool_step.all_joined [of s i wake] Joining n stuck show False by auto
    next
      case True
      then have v: "?ws ! i \<in> set ?ws" using n by simp
      have "wk_at (?ws ! i) \<noteq> Ended" using pool_step.join_worker [of s i wake] Joining True n stuck by auto
      with still [OF v] have popping: "wk_at (?ws ! i) = Popping" "?items = []" by auto
      with I(1) have "k = 0" by (simp add: queue_shape_def)
      moreover have "2 * n \<le> k + all_taken ?ws" using I(4) Joining v popping by auto
      ultimately show False using all_taken_less [OF v popping(1)] n assms(2) by linarith
    qed
  next
    case Owner_Broken
    with bound show False by simp
  qed (use assms(4) in simp)
qed

section \<open>Termination\<close>

fun worker_weight :: "'a worker_place \<Rightarrow> nat" where
  "worker_weight Checking = 13"
| "worker_weight Popping = 12"
| "worker_weight (Working x) = 14"
| "worker_weight Leaving = 10"
| "worker_weight Draining = 8"
| "worker_weight (Drain_Working x) = 9"
| "worker_weight Marking = 4"
| "worker_weight Ended = 0"
| "worker_weight Broken = 0"

fun owner_weight :: "nat \<Rightarrow> 'a owner_place \<Rightarrow> nat" where
  "owner_weight n (Feeding xs) = 5 * length xs + 15 * n + 10"
| "owner_weight n (Stopping i) = (n - i) + 14 * n + 9"
| "owner_weight n (Waking i) = 5 * (n - i) + 9 * n + 7"
| "owner_weight n (Rechecking i) = 7 * (n - i) + n + 5"
| "owner_weight n (Rewaking i) = 7 * (n - Suc i) + n + 10"
| "owner_weight n (Joining i) = (n - i) + 1"
| "owner_weight n _ = 0"

definition pool_weight :: "'a pool \<Rightarrow> nat" where
  "pool_weight s = sum_list (map (\<lambda>w. worker_weight (wk_at w)) (po_workers s)) + 4 * length (cq_items (po_queue s)) +
     owner_weight (length (po_workers s)) (po_owner s)"

lemma all_in_hand_ended: "\<forall>w\<in>set ws. wk_at w = Ended \<Longrightarrow> all_in_hand ws = {#}"
  by (induction ws) (auto simp: all_in_hand_def)

lemma weight_update:
  assumes "i < length ws"
  shows "sum_list (map (\<lambda>w. worker_weight (wk_at w)) (ws[i := v])) + worker_weight (wk_at (ws ! i))
    = sum_list (map (\<lambda>w. worker_weight (wk_at w)) ws) + worker_weight (wk_at v)"
  using sum_list_update_swap [of i "map (\<lambda>w. worker_weight (wk_at w)) ws" "worker_weight (wk_at v)"] assms
  by (simp add: map_update)

lemma worker_step_weight:
  "worker_step wake c q w xs q' w' \<Longrightarrow>
    worker_weight (wk_at w') + 4 * length (cq_items q') < worker_weight (wk_at w) + 4 * length (cq_items q)"
  by (induction rule: worker_step.induct) (auto simp: queue_simps)

lemma pool_step_weight: "pool_step wake s s' \<Longrightarrow> pool_weight s' < pool_weight s"
proof (induction rule: pool_step.induct)
  case (worker i s xs q w)
  then show ?case
    using weight_update [of i "po_workers s" w] worker_step_weight [OF worker(2)] by (simp add: pool_weight_def)
next
  case (stop_worker s i)
  then show ?case
    using weight_update [of i "po_workers s" "(po_workers s ! i)\<lparr>wk_stop := True\<rparr>"] by (simp add: pool_weight_def)
qed (auto simp: pool_weight_def queue_simps)


lemma pool_reaches_end:
  assumes "pool_reachable_from wake capacity threads items s"
  shows "\<exists>s'. pool_reachable_from wake capacity threads items s' \<and> \<not> (\<exists>t. pool_step wake s' t)"
  using assms
proof (induction "pool_weight s" arbitrary: s rule: less_induct)
  case less
  then show ?case
    by (cases "\<exists>t. pool_step wake s t") (blast intro: pool_step_weight pool_reachable_from.stepped)+
qed

section \<open>Properties\<close>

lemma pool_finished:
  assumes "pool_reachable_from wake capacity threads items s" "wake \<notin> set items" "0 < threads"
    "po_owner s = Finished"
  shows "(\<forall>w\<in>set (po_workers s). wk_at w = Ended) \<and> mset (po_processed s) = mset items"
proof -
  note inv = pool_reachable_inv [OF assms(1,2)]
  from inv assms(4) obtain as k where I: "\<forall>w\<in>set (po_workers s). worker_ok as w"
      "mset (po_processed s) + all_in_hand (po_workers s) + mset as = mset items"
    by (auto simp: pool_inv_def)
  from inv assms(4) have ended: "\<forall>w\<in>set (po_workers s). wk_at w = Ended"
    by (auto simp: pool_inv_def in_set_conv_nth)
  then have "all_in_hand (po_workers s) = {#}" by (rule all_in_hand_ended)
  moreover have "po_workers s \<noteq> []" using inv assms(3) by (auto simp: pool_inv_def)
  with ended I(1) have "as = []" by (cases "po_workers s") (auto simp: worker_ok_def)
  ultimately show ?thesis using ended I(2) by simp
qed

text \<open>
  C9: While nobody cancels and the queue has room for two wake-ups per thread, every state the hashing
  threads can get into either allows a further step or is the end: all threads have finished, the
  owner has returned, and the items processed are exactly the items the reader pushed, each once.
\<close>

theorem worker_pool_no_deadlock:
  assumes "pool_reachable_from wake capacity threads items s" "wake \<notin> set items"
    "0 < threads" "2 * threads \<le> capacity"
  shows "(\<exists>s'. pool_step wake s s') \<or>
    po_owner s = Finished \<and> (\<forall>w\<in>set (po_workers s). wk_at w = Ended) \<and> mset (po_processed s) = mset items"
  using pool_progress [OF pool_reachable_inv [OF assms(1,2)] assms(3,4)] pool_finished [OF assms(1-3)] by blast

text \<open>
  C19: The hashing threads never run forever: there is no infinite sequence of steps, whatever the
  schedule, the number of threads and the capacity of the queue.
\<close>

theorem worker_pool_terminates: "\<not> (\<exists>f. \<forall>k. pool_step wake (f k) (f (Suc k)))"
proof
  assume "\<exists>f. \<forall>k. pool_step wake (f k) (f (Suc k))"
  then obtain f where f: "\<And>k. pool_step wake (f k) (f (Suc k))" by blast
  have "pool_weight (f k) + k \<le> pool_weight (f 0)" for k
  proof (induction k)
    case (Suc k)
    with pool_step_weight [OF f [of k]] show ?case by simp
  qed simp
  from this [of "Suc (pool_weight (f 0))"] show False by simp
qed


section \<open>Cancellation\<close>

text \<open>
  \<^verbatim>\<open>request_cancellation\<close>: the flag, then the stop request of every thread. The reader is not told
  by this call; it looks at a flag of its own between chunks, not while it waits to push one.
\<close>

definition pool_request_cancellation :: "'a pool \<Rightarrow> 'a pool" where
  "pool_request_cancellation s =
     s\<lparr>po_cancelled := True, po_workers := map (\<lambda>w. w\<lparr>wk_stop := True\<rparr>) (po_workers s)\<rparr>"

inductive pool_reachable_cancelled :: "'a \<Rightarrow> nat \<Rightarrow> nat \<Rightarrow> 'a list \<Rightarrow> 'a pool \<Rightarrow> bool"
  for wake capacity threads items where
  began: "pool_reachable_from wake capacity threads items s \<Longrightarrow> pool_reachable_cancelled wake capacity threads items s"
| cancelled: "pool_reachable_cancelled wake capacity threads items s \<Longrightarrow>
    pool_reachable_cancelled wake capacity threads items (pool_request_cancellation s)"
| went_on: "pool_reachable_cancelled wake capacity threads items s \<Longrightarrow> pool_step wake s s' \<Longrightarrow>
    pool_reachable_cancelled wake capacity threads items s'"

text \<open>Runs that stand still at the end are built from states written out in full.\<close>

definition pool_at :: "nat \<Rightarrow> 'a list \<Rightarrow> 'a worker list \<Rightarrow> bool \<Rightarrow> 'a list \<Rightarrow> 'a owner_place \<Rightarrow> 'a pool" where
  "pool_at capacity items ws c ps owner =
     \<lparr>po_queue = \<lparr>cq_capacity = capacity, cq_items = items\<rparr>, po_workers = ws, po_cancelled = c,
      po_processed = ps, po_owner = owner\<rparr>"

abbreviation idle_worker :: "bool \<Rightarrow> 'a worker" where
  "idle_worker stop \<equiv> \<lparr>wk_at = Checking, wk_stop = stop, wk_done = False\<rparr>"

abbreviation ended_worker :: "'a worker" where
  "ended_worker \<equiv> \<lparr>wk_at = Ended, wk_stop = True, wk_done = True\<rparr>"

lemma pool_at_worker:
  assumes "worker_step wake c \<lparr>cq_capacity = capacity, cq_items = items\<rparr> w xs \<lparr>cq_capacity = capacity, cq_items = items'\<rparr> w'"
  shows "pool_step wake (pool_at capacity items (as @ w # bs) c ps owner)
    (pool_at capacity items' (as @ w' # bs) c (ps @ xs) owner)"
  using pool_step.worker [of "length as" "pool_at capacity items (as @ w # bs) c ps owner" wake xs _ w'] assms
  by (simp add: pool_at_def)

lemma pool_at_silent:
  assumes "worker_step wake c \<lparr>cq_capacity = capacity, cq_items = items\<rparr> w [] \<lparr>cq_capacity = capacity, cq_items = items'\<rparr> w'"
  shows "pool_step wake (pool_at capacity items (as @ w # bs) c ps owner) (pool_at capacity items' (as @ w' # bs) c ps owner)"
    "pool_step wake (pool_at capacity items (w # bs) c ps owner) (pool_at capacity items' (w' # bs) c ps owner)"
  using pool_at_worker [OF assms, of as bs ps owner] pool_at_worker [OF assms, of "[]" bs ps owner] by simp_all

lemma worker_runs_out:
  assumes "c \<or> items = []"
  shows "(pool_step wake)\<^sup>*\<^sup>* (pool_at capacity items (as @ idle_worker True # bs) c ps owner)
    (pool_at capacity items (as @ ended_worker # bs) c ps owner)"
proof -
  let ?q = "\<lparr>cq_capacity = capacity, cq_items = items\<rparr>" and ?w = "\<lambda>p d. \<lparr>wk_at = p, wk_stop = True, wk_done = d\<rparr>"
  let ?at = "\<lambda>p d. pool_at capacity items (as @ ?w p d # bs) c ps owner"
  have "worker_step wake c ?q (?w Checking False) [] ?q (?w Leaving False)"
    "worker_step wake c ?q (?w Leaving False) [] ?q (?w (if c then Marking else Draining) False)"
    "\<not> c \<Longrightarrow> worker_step wake c ?q (?w Draining False) [] ?q (?w Marking False)"
    "worker_step wake c ?q (?w Marking False) [] ?q (?w Ended True)"
    using worker_step.see_stop [of "?w Checking False" wake c ?q] worker_step.leave [of "?w Leaving False" wake c ?q]
      worker_step.drain_empty [of "?w Draining False" ?q wake c] worker_step.mark [of "?w Marking False" wake c ?q] assms
    by (simp_all add: queue_simps)
  note steps = this [THEN pool_at_silent(1)]
  have "(pool_step wake)\<^sup>*\<^sup>* (?at Leaving False) (?at Marking False)"
  proof (cases c)
    case True
    with steps(2) show ?thesis by (intro r_into_rtranclp) simp
  next
    case False
    then have "pool_step wake (?at Leaving False) (?at Draining False)" "pool_step wake (?at Draining False) (?at Marking False)"
      using steps(2,3) by simp_all
    then show ?thesis by (meson converse_rtranclp_into_rtranclp r_into_rtranclp)
  qed
  with steps(1,4) show ?thesis
    by (meson converse_rtranclp_into_rtranclp rtranclp.rtrancl_into_rtrancl)
qed

lemma workers_run_out:
  assumes "c \<or> items = []"
  shows "(pool_step wake)\<^sup>*\<^sup>* (pool_at capacity items (replicate m ended_worker @ replicate n (idle_worker True)) c ps owner)
    (pool_at capacity items (replicate (m + n) ended_worker) c ps owner)"
proof (induction n arbitrary: m)
  case (Suc n)
  have eq: "replicate (Suc m) ended_worker @ ws = replicate m ended_worker @ ended_worker # ws" for ws
    by (simp add: replicate_app_Cons_same)
  have "(pool_step wake)\<^sup>*\<^sup>*
      (pool_at capacity items (replicate m ended_worker @ idle_worker True # replicate n (idle_worker True)) c ps owner)
      (pool_at capacity items (replicate (Suc m) ended_worker @ replicate n (idle_worker True)) c ps owner)"
    unfolding eq by (rule worker_runs_out [OF assms])
  from rtranclp_trans [OF this Suc.IH [of "Suc m"]] show ?case by simp
qed simp

text \<open>One worker hashes what the reader pushes, item by item.\<close>

lemma feed_and_hash:
  assumes "wake \<notin> set xs" "0 < capacity"
  shows "(pool_step wake)\<^sup>*\<^sup>* (pool_at capacity [] (idle_worker False # ws) False ps (Feeding xs))
    (pool_at capacity [] (idle_worker False # ws) False (ps @ xs) (Feeding []))"
  using assms(1)
proof (induction xs arbitrary: ps)
  case (Cons x xs)
  let ?w = "\<lambda>p. \<lparr>wk_at = p, wk_stop = False, wk_done = False\<rparr>"
  have "pool_step wake (pool_at capacity [] (?w Checking # ws) False ps (Feeding (x # xs)))
      (pool_at capacity [x] (?w Checking # ws) False ps (Feeding xs))"
    using pool_step.feed [of "pool_at capacity [] (?w Checking # ws) False ps (Feeding (x # xs))" x xs] assms(2)
    by (simp add: pool_at_def queue_simps)
  moreover have "pool_step wake (pool_at capacity [x] (?w Checking # ws) False ps (Feeding xs))
      (pool_at capacity [x] (?w Popping # ws) False ps (Feeding xs))"
    using worker_step.go_on [of "?w Checking" wake False "\<lparr>cq_capacity = capacity, cq_items = [x]\<rparr>"]
    by (intro pool_at_silent(2)) simp
  moreover have "pool_step wake (pool_at capacity [x] (?w Popping # ws) False ps (Feeding xs))
      (pool_at capacity [] (?w (Working x) # ws) False ps (Feeding xs))"
    using worker_step.pop_item [of "?w Popping" "\<lparr>cq_capacity = capacity, cq_items = [x]\<rparr>" x _ wake False] Cons.prems
    by (intro pool_at_silent(2)) (auto simp: queue_simps)
  moreover have "pool_step wake (pool_at capacity [] (?w (Working x) # ws) False ps (Feeding xs))
      (pool_at capacity [] (?w Checking # ws) False (ps @ [x]) (Feeding xs))"
    using pool_at_worker [of wake False capacity "[]" "?w (Working x)" "[x]" "[]" "?w Checking" "[]" ws ps "Feeding xs"]
      worker_step.work [of "?w (Working x)" x wake False] by simp
  moreover have "(pool_step wake)\<^sup>*\<^sup>* (pool_at capacity [] (?w Checking # ws) False (ps @ [x]) (Feeding xs))
      (pool_at capacity [] (idle_worker False # ws) False (ps @ x # xs) (Feeding []))"
    using Cons.IH [of "ps @ [x]"] Cons.prems by simp
  ultimately show ?case
    by (meson converse_rtranclp_into_rtranclp)
qed simp


inductive_cases worker_stepE: "worker_step wake c q w xs q' w'"

lemma pushing_blocked:
  assumes "capacity \<le> length items" "owner = Feeding (x # xs) \<or> owner = Waking i \<and> i < n"
  shows "\<not> pool_step wake (pool_at capacity items (replicate n ended_worker) c ps owner) s'"
proof
  assume "pool_step wake (pool_at capacity items (replicate n ended_worker) c ps owner) s'"
  then show False
    using assms by (cases rule: pool_step.cases) (auto simp: pool_at_def queue_simps elim: worker_stepE)
qed

lemma pool_starts_at:
  "0 < n \<Longrightarrow> pool_start capacity n xs = Inr (pool_at capacity [] (replicate n (idle_worker False)) False [] (Feeding xs))"
  by (simp add: pool_start_def pool_at_def cq_new_def)

lemma pool_reachable_steps:
  assumes "(pool_step wake)\<^sup>*\<^sup>* s s'"
  shows "pool_reachable_from wake capacity n xs s \<Longrightarrow> pool_reachable_from wake capacity n xs s'"
    "pool_reachable_cancelled wake capacity n xs s \<Longrightarrow> pool_reachable_cancelled wake capacity n xs s'"
  using assms by (induction rule: rtranclp_induct)
    (auto intro: pool_reachable_from.stepped pool_reachable_cancelled.went_on)

lemma stops_all:
  "(pool_step wake)\<^sup>*\<^sup>* (pool_at capacity items (replicate i (idle_worker True) @ replicate m (idle_worker False)) c ps (Stopping i))
     (pool_at capacity items (replicate (i + m) (idle_worker True)) c ps (Waking 0))"
proof (induction m arbitrary: i)
  case 0
  show ?case
    using pool_step.all_stopped [of "pool_at capacity items (replicate i (idle_worker True)) c ps (Stopping i)" i]
    by (auto simp: pool_at_def)
next
  case (Suc m)
  have eq: "replicate (Suc i) (idle_worker True) @ ws = replicate i (idle_worker True) @ idle_worker True # ws" for ws
    by (simp add: replicate_app_Cons_same)
  have "pool_step wake
      (pool_at capacity items (replicate i (idle_worker True) @ replicate (Suc m) (idle_worker False)) c ps (Stopping i))
      (pool_at capacity items (replicate (Suc i) (idle_worker True) @ replicate m (idle_worker False)) c ps (Stopping (Suc i)))"
    unfolding eq
    using pool_step.stop_worker [of "pool_at capacity items (replicate i (idle_worker True) @ replicate (Suc m) (idle_worker False)) c ps (Stopping i)" i]
    by (simp add: pool_at_def list_update_append nth_append)
  from converse_rtranclp_into_rtranclp [OF this Suc.IH [of "Suc i"]] show ?case by simp
qed

lemma wakes_until_full:
  assumes "i \<le> n" "i \<le> capacity"
  shows "(pool_step wake)\<^sup>*\<^sup>* (pool_at capacity [] (replicate n ended_worker) c ps (Waking 0))
    (pool_at capacity (replicate i wake) (replicate n ended_worker) c ps (Waking i))"
  using assms
proof (induction i)
  case (Suc i)
  have "pool_step wake (pool_at capacity (replicate i wake) (replicate n ended_worker) c ps (Waking i))
      (pool_at capacity (replicate (Suc i) wake) (replicate n ended_worker) c ps (Waking (Suc i)))"
    using pool_step.wake_worker [of "pool_at capacity (replicate i wake) (replicate n ended_worker) c ps (Waking i)" i wake] Suc.prems
    by (simp add: pool_at_def queue_simps replicate_append_same)
  with Suc show ?case by (auto intro: rtranclp.rtrancl_into_rtrancl)
qed (simp add: pool_at_def)

text \<open>
  With fewer places in the queue than threads, the owner can block for ever after all the work is
  done: when every thread sees the stop request before a wake-up reaches it, the wake-ups fill the queue
  and \<^verbatim>\<open>wait\<close> never returns.
\<close>

lemma worker_pool_wait_deadlock:
  assumes "wake \<notin> set items" "0 < capacity" "capacity < threads"
  shows "\<exists>s. pool_reachable_from wake capacity threads items s \<and> po_processed s = items \<and>
    (\<forall>w\<in>set (po_workers s). wk_at w = Ended) \<and> po_owner s \<noteq> Finished \<and> \<not> (\<exists>s'. pool_step wake s s')"
proof -
  obtain n where n: "threads = Suc n" using assms(3) by (cases threads) auto
  let ?idle = "replicate threads (idle_worker False)" and ?ended = "replicate threads ended_worker"
  have start: "pool_reachable_from wake capacity threads items (pool_at capacity [] ?idle False [] (Feeding items))"
    using pool_starts_at n by (blast intro: pool_reachable_from.started)
  have "(pool_step wake)\<^sup>*\<^sup>* (pool_at capacity [] ?idle False [] (Feeding items))
      (pool_at capacity [] ?idle False items (Feeding []))"
    using feed_and_hash [OF assms(1,2), of "replicate n (idle_worker False)" "[]"] by (simp add: n)
  moreover have "pool_step wake (pool_at capacity [] ?idle False items (Feeding []))
      (pool_at capacity [] ?idle False items (Stopping 0))"
    using pool_step.reader_joined [of "pool_at capacity [] ?idle False items (Feeding [])"] by (simp add: pool_at_def)
  moreover have "(pool_step wake)\<^sup>*\<^sup>* (pool_at capacity [] ?idle False items (Stopping 0))
      (pool_at capacity [] (replicate threads (idle_worker True)) False items (Waking 0))"
    using stops_all [of wake capacity "[]" 0 threads] by simp
  moreover have "(pool_step wake)\<^sup>*\<^sup>* (pool_at capacity [] (replicate threads (idle_worker True)) False items (Waking 0))
      (pool_at capacity [] ?ended False items (Waking 0))"
    using workers_run_out [of False "[]" wake capacity 0 threads items "Waking 0"] by simp
  moreover have "(pool_step wake)\<^sup>*\<^sup>* (pool_at capacity [] ?ended False items (Waking 0))
      (pool_at capacity (replicate capacity wake) ?ended False items (Waking capacity))"
    using assms(3) by (intro wakes_until_full) auto
  ultimately have "(pool_step wake)\<^sup>*\<^sup>* (pool_at capacity [] ?idle False [] (Feeding items))
      (pool_at capacity (replicate capacity wake) ?ended False items (Waking capacity))"
    by (meson r_into_rtranclp rtranclp_trans)
  from pool_reachable_steps(1) [OF this start]
    pushing_blocked [of capacity "replicate capacity wake" "Waking capacity" _ _ capacity threads] assms(3)
  show ?thesis
    by (intro exI [of _ "pool_at capacity (replicate capacity wake) ?ended False items (Waking capacity)"])
      (auto simp: pool_at_def)
qed



theorem worker_pool_no_deadlock_witness:
  "\<exists>s. pool_reachable_from (0 :: nat) 4 2 [7] s \<and> po_owner s = Feeding [7] \<and> (\<exists>s'. pool_step 0 s s')"
proof -
  let ?s = "pool_at 4 [] (replicate 2 (idle_worker False)) False [] (Feeding [7 :: nat])"
  have r: "pool_reachable_from 0 4 2 [7] ?s"
    using pool_starts_at [of 2 4 "[7]"] by (intro pool_reachable_from.started) simp
  from worker_pool_no_deadlock [OF r] have "\<exists>s'. pool_step 0 ?s s'" by (simp add: pool_at_def)
  with r show ?thesis by (intro exI [of _ ?s]) (simp add: pool_at_def)
qed

end
