(* ===== verification/Pipelines.thy ===== *)
theory Pipelines
  imports Chunk_Readers Piece_Writers Piece_Verifiers Worker_Pool
begin

text \<open>
  The stages put together, as \<^verbatim>\<open>storage_hasher\<close> and \<^verbatim>\<open>storage_verifier\<close> connect them: a reader pushes
  chunks, hashing threads turn each chunk into results, and a writer or a verifier takes the results
  in whatever order they arrive. What a thread queues for one chunk is what \<open>hash_chunk\<close> leaves in an
  empty queue.
\<close>

definition idle_hasher :: chunk_hasher where
  "idle_hasher = \<lparr>ch_bytes_hashed = 0, ch_bytes_done = 0, ch_v1_queue = Some [], ch_v2_queue = Some []\<rparr>"

lemma idle_hasher_simps [simp]:
  "ch_ok idle_hasher" "ch_v1_queue idle_hasher = Some []" "ch_v2_queue idle_hasher = Some []"
  by (simp_all add: ch_ok_def idle_hasher_def)

definition v1_results :: "digest_function \<Rightarrow> nat \<Rightarrow> data_chunk \<Rightarrow> v1_hashed_piece list" where
  "v1_results H ps c =
     (case hash_chunk_v1_sb H ps c (hasher_new, idle_hasher) of
        Inr (_, s) \<Rightarrow> the (ch_v1_queue s)
      | Inl _ \<Rightarrow> [])"

lemma v1_results_data:
  "dc_data c = Some data \<Longrightarrow> data \<noteq> [] \<Longrightarrow> 0 < ps \<Longrightarrow>
     v1_results H ps c = v1_pieces H (dc_piece_index c) (blocks ps data)"
  using hash_chunk_v1_sb_run [of c data ps idle_hasher H]
  by (simp add: v1_results_def advanced_def)

lemma v1_pieces_append:
  "v1_pieces H base (xs @ ys) = v1_pieces H base xs @ v1_pieces H (base + length xs) ys"
proof (induction ys rule: rev_induct)
  case (snoc y ys)
  then show ?case
    by (simp only: v1_pieces_snoc append.assoc [symmetric]) (simp add: add.assoc)
qed simp

text \<open>Chunks in place are cut into the pieces of the whole data.\<close>

lemma v1_results_in_place:
  assumes "in_place ps cs" "list_all (chunk_ok True) cs" "0 < ps" "ceil_div (length (all_bytes ps cs)) ps < 2 ^ 32"
  shows "concat (map (v1_results H ps) cs) = v1_pieces H 0 (blocks ps (all_bytes ps cs))"
  using assms(1,2,4)
proof (induction cs rule: rev_induct)
  case Nil
  then show ?case by (simp add: blocks_def)
next
  case (snoc c cs)
  let ?bytes = "all_bytes ps cs"
  obtain data where data: "dc_data c = Some data" "data \<noteq> []"
    using snoc.prems(2) by (auto simp: chunk_ok_def split: option.splits)
  have place: "in_place ps cs" "ps dvd length ?bytes" "dc_piece_index c = u32 (length ?bytes div ps)"
    using snoc.prems(1) by (simp_all add: in_place_snoc)
  then obtain k where k: "length ?bytes = k * ps" by (auto simp: dvd_def mult.commute)
  have total: "ceil_div (length (all_bytes ps (cs @ [c]))) ps = k + ceil_div (length data) ps"
    using k data(1) assms(3) by (simp add: chunk_bytes_def ceil_div_add)
  then have "k < 2 ^ 32" using snoc.prems(3) by simp
  then have idx: "dc_piece_index c = k" using place(3) k assms(3) by (simp add: u32_exact)
  have "concat (map (v1_results H ps) cs) = v1_pieces H 0 (blocks ps ?bytes)"
    using snoc.IH place(1) snoc.prems(2) \<open>k < 2 ^ 32\<close> k assms(3) by simp
  moreover have "blocks ps (?bytes @ data) = blocks ps ?bytes @ blocks ps data"
    by (rule blocks_append [OF k assms(3)])
  ultimately show ?case
    using data v1_results_data [OF data assms(3)] idx k assms(3)
    by (simp add: chunk_bytes_def v1_pieces_append)
qed

lemma results_order:
  "mset xs = mset ys \<Longrightarrow> mset (concat (map f xs)) = mset (concat (map f ys))"
proof -
  assume eq: "mset xs = mset ys"
  have "mset (concat (map f zs)) = sum_mset (image_mset (\<lambda>z. mset (f z)) (mset zs))" for zs
    by (induction zs) auto
  with eq show ?thesis by simp
qed

lemma wakeup_not_read: "list_all (chunk_ok True) cs \<Longrightarrow> wakeup_chunk \<notin> set cs"
  by (auto simp: list_all_iff chunk_ok_def wakeup_chunk_def)

text \<open>When no thread can go on, every chunk has been hashed once.\<close>

lemma pool_result:
  assumes "pool_reachable_from wake capacity threads items s" "\<not> (\<exists>s'. pool_step wake s s')" "wake \<notin> set items"
    "0 < threads" "2 * threads \<le> capacity"
  shows "mset (po_processed s) = mset items"
proof -
  have "po_owner s = Finished"
    using pool_progress [OF pool_reachable_inv [OF assms(1,3)] assms(4,5)] assms(2) by blast
  then show ?thesis using pool_finished [OF assms(1,3,4)] by blast
qed

lemma pool_can_finish:
  assumes "0 < threads"
  obtains s where "pool_reachable_from wake capacity threads items s" "\<not> (\<exists>s'. pool_step wake s s')"
proof -
  obtain s0 where "pool_start capacity threads items = Inr s0"
    using assms by (simp add: pool_start_def)
  from pool_reaches_end [OF pool_reachable_from.started [OF this, of wake]] that show thesis by blast
qed

text \<open>Whatever the interleaving, the results that arrive are the digests of the pieces on disk.\<close>

lemma v1_results_arrive:
  assumes "reader_new st cs capacity = Inr r" "0 < cs" "absolute_file_paths d st = Inr paths"
    "list_all2 (entry_present d) paths (st_files st)"
    "ceil_div (length (stored_bytes d paths (st_files st))) (st_piece_size st) = st_piece_count st"
    "st_piece_count st < 2 ^ 32" "0 < threads" "2 * threads \<le> capacity"
  obtains r' where "v1_run (\<lambda>_. False) d r = Inr r'"
    "\<And>s ps. pool_reachable_from wakeup_chunk capacity threads (rd_pushed r') s \<Longrightarrow>
        \<not> (\<exists>s'. pool_step wakeup_chunk s s') \<Longrightarrow>
        mset ps = mset (concat (map (v1_results H (st_piece_size st)) (po_processed s))) \<Longrightarrow>
      mset ps = mset (v1_pieces H 0 (blocks (st_piece_size st) (stored_bytes d paths (st_files st))))"
proof -
  let ?psz = "st_piece_size st" and ?bytes = "stored_bytes d paths (st_files st)"
  have psz: "0 < ?psz"
    using assms(1) by (auto simp: reader_new_def result_simps KiB_def size_mul_def size_bound_def)
  obtain r' where r': "v1_run (\<lambda>_. False) d r = Inr r'" "all_bytes ?psz (rd_pushed r') = ?bytes"
      "in_place ?psz (rd_pushed r')" "list_all (chunk_ok True) (rd_pushed r')"
    using v1_reader_run [OF assms(1-3)] assms(4,5) by auto
  have results: "concat (map (v1_results H ?psz) (rd_pushed r')) = v1_pieces H 0 (blocks ?psz ?bytes)"
    using v1_results_in_place [OF r'(3,4) psz] r'(2) assms(5,6) by simp
  show thesis
  proof (rule that [OF r'(1)])
    fix s ps
    assume "pool_reachable_from wakeup_chunk capacity threads (rd_pushed r') s" "\<not> (\<exists>s'. pool_step wakeup_chunk s s')"
      and ps: "mset ps = mset (concat (map (v1_results H ?psz) (po_processed s)))"
    then have "mset (po_processed s) = mset (rd_pushed r')"
      using pool_result [OF _ _ wakeup_not_read [OF r'(4)] assms(7,8)] by blast
    then show "mset ps = mset (v1_pieces H 0 (blocks ?psz ?bytes))"
      using ps results_order [of "po_processed s" "rd_pushed r'"] results by metis
  qed
qed

text \<open>
  C5: Hashing a v1 torrent from disk to metafile: when every file is present with the recorded
  size, the reader succeeds, and however the steps of the hashing threads interleave, when no thread can
  go on and the results have reached the writer in whatever order, the storage holds the SHA-1 digests
  of the consecutive pieces of the concatenated files.
\<close>

theorem v1_hashing_end_to_end:
  assumes "reader_new st cs capacity = Inr r" "0 < cs" "absolute_file_paths d st = Inr paths"
    "list_all2 (entry_present d) paths (st_files st)" "length (st_pieces st) = st_piece_count st"
    "ceil_div (length (stored_bytes d paths (st_files st))) (st_piece_size st) = st_piece_count st"
    "st_piece_count st < 2 ^ 32" "0 < threads" "2 * threads \<le> capacity"
  shows "\<exists>r'. v1_run (\<lambda>_. False) d r = Inr r' \<and>
    (\<forall>s ps. pool_reachable_from wakeup_chunk capacity threads (rd_pushed r') s \<and>
        \<not> (\<exists>s'. pool_step wakeup_chunk s s') \<and>
        mset ps = mset (concat (map (v1_results H (st_piece_size st)) (po_processed s))) \<longrightarrow>
      rfold v1_set_finished_piece ps st
        = Inr (st\<lparr>st_pieces := map H (blocks (st_piece_size st) (stored_bytes d paths (st_files st)))\<rparr>))"
proof -
  have len: "length (blocks (st_piece_size st) (stored_bytes d paths (st_files st))) = st_piece_count st"
    using assms(6) by simp
  show ?thesis
    by (rule v1_results_arrive [OF assms(1-4,6-9), of H]) (use v1_write_pieces [OF assms(5) len] in blast)
qed

text \<open>
  C7: Verifying a v1 torrent: when every file is present with the recorded size, the verifier ends, however
  the hashing threads interleave and in whatever order the results arrive, with a mark on exactly the pieces
  whose bytes on disk have the digest the metafile records.
\<close>

theorem v1_verification_end_to_end:
  assumes "reader_new st cs capacity = Inr r" "0 < cs" "absolute_file_paths d st = Inr paths"
    "list_all2 (entry_present d) paths (st_files st)" "length (st_pieces st) = st_piece_count st"
    "ceil_div (length (stored_bytes d paths (st_files st))) (st_piece_size st) = st_piece_count st"
    "st_piece_count st < 2 ^ 32" "0 < threads" "2 * threads \<le> capacity"
  shows "\<exists>r'. v1_run (\<lambda>_. False) d r = Inr r' \<and>
    (\<forall>s ps. pool_reachable_from wakeup_chunk capacity threads (rd_pushed r') s \<and>
        \<not> (\<exists>s'. pool_step wakeup_chunk s s') \<and>
        mset ps = mset (concat (map (v1_results H (st_piece_size st)) (po_processed s))) \<longrightarrow>
      rfold v1_verify_finished_piece ps (v1_verifier_new st) = Inr \<lparr>vv_storage = st,
        vv_piece_map = map (\<lambda>i. if st_pieces st ! i
            = H (block_of (st_piece_size st) (stored_bytes d paths (st_files st)) i) then 1 else 0)
          [0..<st_piece_count st]\<rparr>)"
proof -
  let ?bs = "blocks (st_piece_size st) (stored_bytes d paths (st_files st))"
  have len: "length ?bs = st_piece_count st" using assms(6) by simp
  have verify: "rfold v1_verify_finished_piece ps (v1_verifier_new st) = Inr \<lparr>vv_storage = st,
        vv_piece_map = map (\<lambda>i. if st_pieces st ! i
            = H (block_of (st_piece_size st) (stored_bytes d paths (st_files st)) i) then 1 else 0)
          [0..<st_piece_count st]\<rparr>" if "mset ps = mset (v1_pieces H 0 ?bs)" for ps
  proof -
    have "same_hashes (st_pieces st) (map H ?bs) = map (\<lambda>i. if st_pieces st ! i
            = H (block_of (st_piece_size st) (stored_bytes d paths (st_files st)) i) then 1 else 0) [0..<st_piece_count st]"
      using assms(5,6) by (intro nth_equalityI) (auto simp: same_hashes_def nth_blocks)
    then show ?thesis
      using v1_verifier_run [OF assms(5) len that] by simp
  qed
  show ?thesis
    by (rule v1_results_arrive [OF assms(1-4,6-9), of H]) (use verify in blast)
qed

theorem v1_hashing_end_to_end_witness:
  "\<exists>r r' s. reader_new (st_allocate_pieces (rooted_storage 3)) 16384 4 = Inr r \<and>
    v1_run (\<lambda>_. False) (sample_disk [7, 8, 9]) r = Inr r' \<and>
    pool_reachable_from wakeup_chunk 4 2 (rd_pushed r') s \<and> \<not> (\<exists>s'. pool_step wakeup_chunk s s') \<and>
    rfold v1_set_finished_piece (concat (map (v1_results (take 2) 16384) (po_processed s)))
      (st_allocate_pieces (rooted_storage 3)) = Inr ((rooted_storage 3)\<lparr>st_pieces := [[7, 8]]\<rparr>)"
proof -
  let ?st = "st_allocate_pieces (rooted_storage 3)"
  have st: "st_files ?st = [sample_entry_of ''f'' 3]" "st_piece_size ?st = 16384" "st_piece_count ?st = 1"
    "length (st_pieces ?st) = st_piece_count ?st"
    "absolute_file_paths (sample_disk [7, 8, 9]) ?st = Inr [[''/'', ''f'']]"
    using rooted_storage_simps(4) [of "[7, 8, 9]" 3]
    by (simp_all add: st_allocate_pieces_def st_piece_count_def size_add_def size_sub_def size_bound_def
        absolute_file_paths_def st_has_root_directory_def)
  obtain r where r: "reader_new ?st 16384 4 = Inr r"
    using st by (simp add: reader_new_def expects_def KiB_def size_mul_def size_bound_def single_bit_16K)
  have bytes: "stored_bytes (sample_disk [7, 8, 9]) [[''/'', ''f'']] (st_files ?st) = [7, 8, 9]"
    unfolding st by (simp add: stored_bytes_def entry_bytes_def sample_disk_def)
  have present: "list_all2 (entry_present (sample_disk [7, 8, 9])) [[''/'', ''f'']] (st_files ?st)"
    unfolding st by (simp add: entry_present_def sample_disk_def)
  have pieces: "map (take 2) (blocks 16384 [7, 8, 9 :: byte]) = [[7, 8]]"
    by (simp add: blocks_def ceil_div_def block_of_def)
  from v1_hashing_end_to_end [OF r _ st(5) present st(4), of 2 "take 2"]
  obtain r' where r': "v1_run (\<lambda>_. False) (sample_disk [7, 8, 9]) r = Inr r'"
      "\<And>s ps. pool_reachable_from wakeup_chunk 4 2 (rd_pushed r') s \<Longrightarrow> \<not> (\<exists>s'. pool_step wakeup_chunk s s') \<Longrightarrow>
        mset ps = mset (concat (map (v1_results (take 2) 16384) (po_processed s))) \<Longrightarrow>
        rfold v1_set_finished_piece ps ?st = Inr (?st\<lparr>st_pieces := [[7, 8]]\<rparr>)"
    unfolding bytes st(2,3) pieces by (auto simp: ceil_div_def)
  obtain s where s: "pool_reachable_from wakeup_chunk 4 2 (rd_pushed r') s" "\<not> (\<exists>s'. pool_step wakeup_chunk s s')"
    by (rule pool_can_finish [of 2]) simp_all
  from r'(2) [OF s refl] r r'(1) s show ?thesis
    by (auto simp: st_allocate_pieces_def)
qed

theorem v1_verification_end_to_end_witness:
  "\<exists>r r' s. reader_new ((rooted_storage 3)\<lparr>st_pieces := [[7, 9]]\<rparr>) 16384 4 = Inr r \<and>
    v1_run (\<lambda>_. False) (sample_disk [7, 8, 9]) r = Inr r' \<and>
    pool_reachable_from wakeup_chunk 4 2 (rd_pushed r') s \<and> \<not> (\<exists>s'. pool_step wakeup_chunk s s') \<and>
    rfold v1_verify_finished_piece (concat (map (v1_results (take 2) 16384) (po_processed s)))
      (v1_verifier_new ((rooted_storage 3)\<lparr>st_pieces := [[7, 9]]\<rparr>))
      = Inr \<lparr>vv_storage = (rooted_storage 3)\<lparr>st_pieces := [[7, 9]]\<rparr>, vv_piece_map = [0]\<rparr>"
proof -
  let ?st = "(rooted_storage 3)\<lparr>st_pieces := [[7, 9]]\<rparr>"
  have st: "st_files ?st = [sample_entry_of ''f'' 3]" "st_piece_size ?st = 16384" "st_piece_count ?st = 1"
    "length (st_pieces ?st) = st_piece_count ?st" "st_pieces ?st ! 0 = [7, 9]"
    "absolute_file_paths (sample_disk [7, 8, 9]) ?st = Inr [[''/'', ''f'']]"
    using rooted_storage_simps(4) [of "[7, 8, 9]" 3]
    by (simp_all add: st_piece_count_def size_add_def size_sub_def size_bound_def
        absolute_file_paths_def st_has_root_directory_def)
  obtain r where r: "reader_new ?st 16384 4 = Inr r"
    using st by (simp add: reader_new_def expects_def KiB_def size_mul_def size_bound_def single_bit_16K)
  have bytes: "stored_bytes (sample_disk [7, 8, 9]) [[''/'', ''f'']] (st_files ?st) = [7, 8, 9]"
    unfolding st by (simp add: stored_bytes_def entry_bytes_def sample_disk_def)
  have present: "list_all2 (entry_present (sample_disk [7, 8, 9])) [[''/'', ''f'']] (st_files ?st)"
    unfolding st by (simp add: entry_present_def sample_disk_def)
  have "take 2 (block_of 16384 [7, 8, 9] 0) = [7, 8 :: byte]" by (simp add: block_of_def)
  with v1_verification_end_to_end [OF r _ st(6) present st(4), of 2 "take 2"]
  obtain r' where r': "v1_run (\<lambda>_. False) (sample_disk [7, 8, 9]) r = Inr r'"
      "\<And>s ps. pool_reachable_from wakeup_chunk 4 2 (rd_pushed r') s \<Longrightarrow> \<not> (\<exists>s'. pool_step wakeup_chunk s s') \<Longrightarrow>
        mset ps = mset (concat (map (v1_results (take 2) 16384) (po_processed s))) \<Longrightarrow>
        rfold v1_verify_finished_piece ps (v1_verifier_new ?st) = Inr \<lparr>vv_storage = ?st, vv_piece_map = [0]\<rparr>"
    unfolding bytes st(2,3) by (auto simp: ceil_div_def st(5))
  obtain s where s: "pool_reachable_from wakeup_chunk 4 2 (rd_pushed r') s" "\<not> (\<exists>s'. pool_step wakeup_chunk s s')"
    by (rule pool_can_finish [of 2]) simp_all
  from r'(2) [OF s refl] r r'(1) s show ?thesis by blast
qed

end
