(* ===== verification/Checksum_Hashers.thy ===== *)
theory Checksum_Hashers
  imports Chunk_Hashers
begin

text \<open>
  Checksums of whole files: \<^verbatim>\<open>v1_checksum_hasher.cpp\<close> and \<^verbatim>\<open>v2_checksum_hasher.cpp\<close>. One thread
  takes the chunks in the order the reader pushed them, so the state of the hasher, the current file
  and the bytes hashed of it pass from chunk to chunk. \<open>H\<close> is the hash function the hasher was made for.
\<close>

section \<open>State\<close>

record checksum_hasher =
  ck_storage :: file_storage
  ck_functions :: "hash_function list"
  ck_hasher :: hasher
  ck_file_index :: nat
  ck_data_hashed :: nat
  ck_bytes_hashed :: nat
  ck_bytes_done :: nat

definition checksum_hasher_new :: "file_storage \<Rightarrow> hash_function \<Rightarrow> checksum_hasher" where
  "checksum_hasher_new st f =
     \<lparr>ck_storage = st, ck_functions = [f], ck_hasher = hasher_new, ck_file_index = 0,
      ck_data_hashed = 0, ck_bytes_hashed = 0, ck_bytes_done = 0\<rparr>"

text \<open>Finishing a file: the digest becomes the value of a fresh checksum, which the entry gets.\<close>

definition with_value :: "byte list \<Rightarrow> checksum \<Rightarrow> checksum" where
  "with_value v c = (case c of Basic_Checksum f _ \<Rightarrow> Basic_Checksum f v | Generic_Checksum k _ \<Rightarrow> Generic_Checksum k v)"

definition finish_file :: "digest_function \<Rightarrow> checksum_hasher \<Rightarrow> checksum_hasher result" where
  "finish_file H s =
     rbind (expects (length (ck_functions s) = 1)) (\<lambda>_.
     rbind (make_checksum_fn_default (hd (ck_functions s))) (\<lambda>checksum.
     let (digest, h) = hasher_finalize H (ck_hasher s); st = ck_storage s; i = ck_file_index s in
     rbind (st_get st i) (\<lambda>e.
       Inr (s\<lparr>ck_hasher := h,
              ck_storage := st\<lparr>st_files := (st_files st)[i := fe_add_checksum (with_value digest checksum) e]\<rparr>,
              ck_file_index := i + 1\<rparr>))))"

definition absorb :: "byte list \<Rightarrow> checksum_hasher \<Rightarrow> checksum_hasher" where
  "absorb data s =
     s\<lparr>ck_hasher := hasher_update data (ck_hasher s),
       ck_bytes_hashed := size_add (ck_bytes_hashed s) (length data),
       ck_bytes_done := size_add (ck_bytes_done s) (length data)\<rparr>"

section \<open>v1\<close>

lemma finish_file_index:
  "finish_file H s = Inr s' \<Longrightarrow> ck_file_index s < length (st_files (ck_storage s)) \<and>
    ck_file_index s' = Suc (ck_file_index s) \<and> length (st_files (ck_storage s')) = length (st_files (ck_storage s))"
  by (auto simp: finish_file_def Let_def result_simps hasher_finalize_def st_get_def)

text \<open>
  The loop over a chunk. A file that is larger than the chunk's rest takes all of it, one that is
  smaller is finished. The last branch without progress cannot be reached when file sizes are 64-bit.
\<close>

function v1_checksum_loop ::
    "digest_function \<Rightarrow> nat \<Rightarrow> byte list \<Rightarrow> checksum_hasher \<Rightarrow> checksum_hasher result" where
  "v1_checksum_loop H file_size data s =
     (if data = [] then Inr s
      else
        let n = min (size_sub file_size (ck_data_hashed s)) (length data);
            s1 = (absorb (take n data) s)\<lparr>ck_data_hashed := size_add (ck_data_hashed s) n\<rparr> in
        if ck_data_hashed s1 = file_size
        then rbind (finish_file H s1) (\<lambda>s2.
               if ck_file_index s2 < st_file_count (ck_storage s2)
               then v1_checksum_loop H (fe_file_size (st_files (ck_storage s2) ! ck_file_index s2)) (drop n data)
                      (s2\<lparr>ck_data_hashed := 0\<rparr>)
               else v1_checksum_loop H file_size (drop n data) s2)
        else if n = 0 then Inl Diverges
        else v1_checksum_loop H file_size (drop n data) s1)"
  by pat_completeness auto

termination
  by (relation "measure (\<lambda>(H, sz, data, s). length data + (length (st_files (ck_storage s)) - ck_file_index s))")
    (auto simp: absorb_def dest!: finish_file_index)

declare v1_checksum_loop.simps [simp del]

definition v1_hash_checksum :: "digest_function \<Rightarrow> data_chunk \<Rightarrow> checksum_hasher \<Rightarrow> checksum_hasher result" where
  "v1_hash_checksum H chunk s =
     (case dc_data chunk of
        None \<Rightarrow> Inl Contract
      | Some data \<Rightarrow>
          rbind (st_get (ck_storage s) (ck_file_index s)) (\<lambda>e.
          rbind (expects (ck_file_index s < st_file_count (ck_storage s))) (\<lambda>_.
            v1_checksum_loop H (fe_file_size e) data s)))"

section \<open>v2\<close>

definition v2_hash_checksum :: "digest_function \<Rightarrow> data_chunk \<Rightarrow> checksum_hasher \<Rightarrow> checksum_hasher result" where
  "v2_hash_checksum H chunk s =
     (case dc_data chunk of
        None \<Rightarrow> Inl Contract
      | Some data \<Rightarrow>
          rbind (expects (ck_file_index s \<le> dc_file_index chunk)) (\<lambda>_.
          rbind (if ck_file_index s < dc_file_index chunk then finish_file H s else Inr s) (\<lambda>s.
          rbind (expects (ck_file_index s = dc_file_index chunk)) (\<lambda>_.
            Inr (absorb data s)))))"

section \<open>Files and their checksums\<close>

text \<open>The entry that holds the checksum of a file's content, and a storage whose first files do.\<close>

definition add_digest :: "digest_function \<Rightarrow> hash_function \<Rightarrow> byte list \<Rightarrow> file_entry \<Rightarrow> file_entry" where
  "add_digest H f content e = fe_add_checksum (Basic_Checksum f (H content)) e"

definition first_done ::
    "digest_function \<Rightarrow> hash_function \<Rightarrow> byte list list \<Rightarrow> nat \<Rightarrow> file_storage \<Rightarrow> file_storage" where
  "first_done H f contents k st =
     st\<lparr>st_files := map (\<lambda>i. if i < k then add_digest H f (contents ! i) (st_files st ! i) else st_files st ! i)
                     [0..<length (st_files st)]\<rparr>"

lemma first_done_0 [simp]: "first_done H f contents 0 st = st"
  by (simp add: first_done_def map_nth)

lemma first_done_simps [simp]:
  "length (st_files (first_done H f contents k st)) = length (st_files st)"
  "i < length (st_files st) \<Longrightarrow> fe_file_size (st_files (first_done H f contents k st) ! i) = fe_file_size (st_files st ! i)"
  "i < length (st_files st) \<Longrightarrow> k \<le> i \<Longrightarrow> st_files (first_done H f contents k st) ! i = st_files st ! i"
  "st_file_count (first_done H f contents k st) = st_file_count st"
  by (auto simp: first_done_def add_digest_def fe_add_checksum_def st_file_count_def)

lemma finish_file_done:
  assumes "ck_functions s = [f]" "f \<in> set supported_hash_functions"
    "ck_storage s = first_done H f contents k st" "ck_file_index s = k" "k < length (st_files st)"
    "ck_hasher s = contents ! k"
  shows "finish_file H s = Inr (s\<lparr>ck_hasher := [], ck_storage := first_done H f contents (Suc k) st,
    ck_file_index := Suc k\<rparr>)"
proof -
  have "(st_files (first_done H f contents k st))[k := add_digest H f (contents ! k) (st_files st ! k)]
      = st_files (first_done H f contents (Suc k) st)"
    using assms(5) by (intro nth_equalityI) (auto simp: first_done_def nth_list_update less_Suc_eq)
  then show ?thesis
    using assms
    by (simp add: finish_file_def make_checksum_fn_default_def hasher_finalize_def hasher_new_def st_get_def
        with_value_def add_digest_def first_done_def)
qed


section \<open>The v1 loop\<close>

text \<open>
  Where the hasher stands: the first \<open>k\<close> files are done, \<open>part\<close> is what has been absorbed of the next.
  Files of size zero behind the last byte seen so far are not yet done.
\<close>

definition v1_stands ::
    "digest_function \<Rightarrow> hash_function \<Rightarrow> file_storage \<Rightarrow> byte list list \<Rightarrow> nat \<Rightarrow> byte list \<Rightarrow> checksum_hasher \<Rightarrow> bool" where
  "v1_stands H f st contents k part s \<longleftrightarrow>
     ck_functions s = [f] \<and> ck_storage s = first_done H f contents k st \<and> ck_file_index s = k \<and>
     ck_hasher s = part \<and> k \<le> length contents \<and>
     (if k < length contents then ck_data_hashed s = length part \<and> (part \<noteq> [] \<longrightarrow> length part < length (contents ! k))
      else part = [])"

definition contents_match :: "file_storage \<Rightarrow> byte list list \<Rightarrow> bool" where
  "contents_match st contents \<longleftrightarrow>
     map fe_file_size (st_files st) = map length contents \<and> (\<forall>c\<in>set contents. length c < size_bound)"

lemma contents_match_nth:
  assumes "contents_match st contents"
  shows "length (st_files st) = length contents"
    "i < length contents \<Longrightarrow> fe_file_size (st_files st ! i) = length (contents ! i)"
    "i < length contents \<Longrightarrow> length (contents ! i) < size_bound"
proof -
  show len: "length (st_files st) = length contents"
    using assms by (auto simp: contents_match_def dest: map_eq_imp_length_eq)
  show "fe_file_size (st_files st ! i) = length (contents ! i)" if "i < length contents"
    using assms that len unfolding contents_match_def by (metis nth_map)
  show "length (contents ! i) < size_bound" if "i < length contents"
    using assms that by (simp add: contents_match_def)
qed

lemma v1_stands_finish:
  assumes "v1_stands H f st contents k part s" "k < length contents" "contents_match st contents"
    "f \<in> set supported_hash_functions" "part @ d = contents ! k"
  shows "\<exists>s2. finish_file H ((absorb d s)\<lparr>ck_data_hashed := length (contents ! k)\<rparr>) = Inr s2 \<and>
    ck_file_index s2 = Suc k \<and> st_file_count (ck_storage s2) = length contents \<and>
    (if Suc k < length contents
     then fe_file_size (st_files (ck_storage s2) ! Suc k) = length (contents ! Suc k) \<and>
       v1_stands H f st contents (Suc k) [] (s2\<lparr>ck_data_hashed := 0\<rparr>)
     else v1_stands H f st contents (Suc k) [] s2)"
  using assms finish_file_done [of "(absorb d s)\<lparr>ck_data_hashed := length (contents ! k)\<rparr>" f H contents k st]
    contents_match_nth [OF assms(3)]
  by (auto simp: v1_stands_def absorb_def hasher_update_def st_file_count_def)

lemma v1_checksum_loop_run:
  assumes "contents_match st contents" "f \<in> set supported_hash_functions"
    "v1_stands H f st contents k part s" "k < length contents"
    "concat (drop k contents) = part @ data @ rest"
  shows "\<exists>k' part' s'. v1_checksum_loop H (length (contents ! k)) data s = Inr s' \<and>
    v1_stands H f st contents k' part' s' \<and> concat (drop k' contents) = part' @ rest \<and>
    (data \<noteq> [] \<longrightarrow> part' \<noteq> [] \<or> 0 < k' \<and> contents ! (k' - 1) \<noteq> [])"
  using assms(3-5)
proof (induction "length data + (length contents - k)" arbitrary: data s k part rule: less_induct)
  case less
  let ?c = "contents ! k" and ?n = "min (length (contents ! k) - length part) (length data)"
  show ?case
  proof (cases "data = []")
    case True
    then show ?thesis
      using less.prems by (auto simp: v1_checksum_loop.simps)
  next
    case False
    have split: "concat (drop k contents) = ?c @ concat (drop (Suc k) contents)"
      using less.prems(2) by (simp add: Cons_nth_drop_Suc [symmetric])
    have s: "ck_data_hashed s = length part" "length part \<le> length ?c"
      using less.prems(1,2) by (auto simp: v1_stands_def)
    have bound: "length ?c < size_bound" by (rule contents_match_nth(3) [OF assms(1) less.prems(2)])
    have n: "min (size_sub (length ?c) (ck_data_hashed s)) (length data) = ?n"
      using s bound by (simp add: size_sub_exact)
    have hashed: "size_add (length part) ?n = length part + ?n"
      using s(2) bound by (intro size_add_exact) linarith
    define s1 where "s1 = (absorb (take ?n data) s)\<lparr>ck_data_hashed := length part + ?n\<rparr>"
    have part: "part = take (length part) ?c"
      using less.prems(3) s(2) unfolding split by (metis append_eq_append_conv_if)
    have rest: "drop (length part) ?c @ concat (drop (Suc k) contents) = data @ rest"
    proof -
      have "?c = part @ drop (length part) ?c" using part by (metis append_take_drop_id)
      with less.prems(3) show ?thesis unfolding split by (metis append.assoc same_append_eq)
    qed
    have sel: "ck_data_hashed (a\<lparr>ck_data_hashed := x\<rparr>) = x" for a :: checksum_hasher and x by simp
    have unfold: "v1_checksum_loop H (length ?c) data s =
      (if length part + ?n = length ?c
       then rbind (finish_file H s1) (\<lambda>s2.
               if ck_file_index s2 < st_file_count (ck_storage s2)
               then v1_checksum_loop H (fe_file_size (st_files (ck_storage s2) ! ck_file_index s2)) (drop ?n data)
                      (s2\<lparr>ck_data_hashed := 0\<rparr>)
               else v1_checksum_loop H (length ?c) (drop ?n data) s2)
       else if ?n = 0 then Inl Diverges
       else v1_checksum_loop H (length ?c) (drop ?n data) s1)"
      by (subst v1_checksum_loop.simps)
        (simp only: Let_def False if_False n [unfolded s(1)] s(1) hashed s1_def sel)
    show ?thesis
    proof (cases "length ?c - length part \<le> length data")
      case True
      then have eq: "length part + ?n = length ?c" "?n = length ?c - length part" using s(2) by auto
      have take: "take ?n data = drop (length part) ?c" "concat (drop (Suc k) contents) = drop ?n data @ rest"
        using rest True eq(2) by (simp_all add: append_eq_append_conv_if)
      obtain s2 where s2: "finish_file H s1 = Inr s2" "ck_file_index s2 = Suc k"
          "st_file_count (ck_storage s2) = length contents"
          "if Suc k < length contents
           then fe_file_size (st_files (ck_storage s2) ! Suc k) = length (contents ! Suc k) \<and>
             v1_stands H f st contents (Suc k) [] (s2\<lparr>ck_data_hashed := 0\<rparr>)
           else v1_stands H f st contents (Suc k) [] s2"
        using v1_stands_finish [OF less.prems(1,2) assms(1,2), of "take ?n data"] part take(1) eq(1)
        unfolding s1_def by (metis append_take_drop_id)
      have nonempty: "?c \<noteq> []" if "drop ?n data = []" using that False eq by auto
      show ?thesis
      proof (cases "Suc k < length contents")
        case inner: True
        have "length (drop ?n data) + (length contents - Suc k) < length data + (length contents - k)"
          using inner by simp
        from less.hyps [OF this, of "[]" "s2\<lparr>ck_data_hashed := 0\<rparr>"] inner s2(4) take(2)
        obtain k' part' s' where IH: "v1_checksum_loop H (length (contents ! Suc k)) (drop ?n data)
            (s2\<lparr>ck_data_hashed := 0\<rparr>) = Inr s'"
          "v1_stands H f st contents k' part' s'" "concat (drop k' contents) = part' @ rest"
          "drop ?n data \<noteq> [] \<longrightarrow> part' \<noteq> [] \<or> 0 < k' \<and> contents ! (k' - 1) \<noteq> []"
          by auto
        show ?thesis
        proof (cases "drop ?n data = []")
          case True
          with inner s2 nonempty take(2) unfold eq(1) show ?thesis
            by (intro exI [of _ "Suc k"] exI [of _ "[]"] exI [of _ "s2\<lparr>ck_data_hashed := 0\<rparr>"])
              (auto simp: v1_checksum_loop.simps)
        next
          case False
          with IH unfold eq(1) s2 inner show ?thesis by auto
        qed
      next
        case outer: False
        then have "drop ?n data = []" "rest = []" using take(2) by auto
        then show ?thesis
          using unfold eq(1) s2 outer nonempty less.prems(2) False take(2)
          by (intro exI [of _ "Suc k"] exI [of _ "[]"] exI [of _ s2]) (auto simp: v1_checksum_loop.simps [of H _ "[]"])
      qed
    next
      case less_data: False
      then have n: "?n = length data" "length part + length data < length ?c" by auto
      have "v1_stands H f st contents k (part @ data) s1"
        using less.prems(1,2) n by (simp add: v1_stands_def s1_def absorb_def hasher_update_def)
      moreover have "v1_checksum_loop H (length ?c) data s = Inr s1"
        using unfold n False by (simp add: v1_checksum_loop.simps)
      ultimately show ?thesis
        using less.prems(3) False by (intro exI [of _ k] exI [of _ "part @ data"] exI [of _ s1]) auto
    qed
  qed
qed


lemma v1_hash_checksum_run:
  assumes "contents_match st contents" "f \<in> set supported_hash_functions"
    "v1_stands H f st contents k part s" "concat (drop k contents) = part @ data @ rest"
    "dc_data chunk = Some data" "data \<noteq> []"
  shows "\<exists>k' part' s'. v1_hash_checksum H chunk s = Inr s' \<and>
    v1_stands H f st contents k' part' s' \<and> concat (drop k' contents) = part' @ rest \<and>
    (part' \<noteq> [] \<or> 0 < k' \<and> contents ! (k' - 1) \<noteq> [])"
proof -
  have k: "k < length contents" using assms(4,6) by (cases "k < length contents") auto
  note at = contents_match_nth [OF assms(1)]
  have "v1_hash_checksum H chunk s = v1_checksum_loop H (length (contents ! k)) data s"
    using assms(3,5) k at by (simp add: v1_hash_checksum_def v1_stands_def st_get_def st_file_count_def)
  then show ?thesis
    using v1_checksum_loop_run [OF assms(1-3) k assms(4)] assms(6) by auto
qed

lemma v1_checksums_run:
  assumes "contents_match st contents" "f \<in> set supported_hash_functions"
    "v1_stands H f st contents k part s" "concat (drop k contents) = part @ concat datas @ rest"
    "list_all2 (\<lambda>chunk data. dc_data chunk = Some data \<and> data \<noteq> []) chunks datas"
  shows "\<exists>k' part' s'. rfold (v1_hash_checksum H) chunks s = Inr s' \<and>
    v1_stands H f st contents k' part' s' \<and> concat (drop k' contents) = part' @ rest \<and>
    (datas \<noteq> [] \<longrightarrow> part' \<noteq> [] \<or> 0 < k' \<and> contents ! (k' - 1) \<noteq> [])"
  using assms(5,3,4)
proof (induction arbitrary: k part s rule: list_all2_induct)
  case Nil
  then show ?case by auto
next
  case (Cons chunk chunks data datas)
  obtain k1 part1 s1 where s1: "v1_hash_checksum H chunk s = Inr s1" "v1_stands H f st contents k1 part1 s1"
      "concat (drop k1 contents) = part1 @ concat datas @ rest" "part1 \<noteq> [] \<or> 0 < k1 \<and> contents ! (k1 - 1) \<noteq> []"
    using v1_hash_checksum_run [OF assms(1,2) Cons.prems(1), of data "concat datas @ rest" chunk] Cons.prems(2) Cons.hyps(1)
    by auto
  from Cons.IH [OF s1(2,3)] obtain k' part' s' where "rfold (v1_hash_checksum H) chunks s1 = Inr s'"
      "v1_stands H f st contents k' part' s'" "concat (drop k' contents) = part' @ rest"
      "datas \<noteq> [] \<longrightarrow> part' \<noteq> [] \<or> 0 < k' \<and> contents ! (k' - 1) \<noteq> []"
    by auto
  with s1 show ?case
  proof (cases "datas = []")
    case True
    with Cons.hyps have "chunks = []" by simp
    with True s1 show ?thesis by (intro exI [of _ k1] exI [of _ part1] exI [of _ s1]) auto
  qed auto
qed

text \<open>The files up to and with the last one that is not empty.\<close>

definition up_to_last_nonempty :: "'a list list \<Rightarrow> nat" where
  "up_to_last_nonempty contents = length (dropWhile (\<lambda>c. c = []) (rev contents))"

lemma up_to_last_nonemptyI:
  assumes "0 < k" "k \<le> length contents" "contents ! (k - 1) \<noteq> []" "concat (drop k contents) = []"
  shows "up_to_last_nonempty contents = k"
proof -
  have "dropWhile (\<lambda>c. c = []) (rev (drop k contents) @ rev (take k contents)) = rev (take k contents)"
  proof -
    have "take k contents = take (k - 1) contents @ [contents ! (k - 1)]"
      using assms(1,2) take_Suc_conv_app_nth [of "k - 1" contents] by simp
    with assms(3,4) show ?thesis by (subst dropWhile_append2) auto
  qed
  moreover have "rev (drop k contents) @ rev (take k contents) = rev contents"
    by (metis append_take_drop_id rev_append)
  ultimately show ?thesis
    using assms(2) by (simp add: up_to_last_nonempty_def)
qed

section \<open>Properties\<close>

text \<open>
  C28: However the bytes of the files are cut into non-empty chunks, the v1 checksum hasher gives every
  file up to the last non-empty one the digest of its content, empty files between them included; the
  empty files at the end of the storage never get theirs.
\<close>

theorem v1_checksums_of_files:
  assumes "map fe_file_size (st_files st) = map length contents" "\<forall>c\<in>set contents. length c < size_bound"
    "f \<in> set supported_hash_functions" "concat datas = concat contents"
    "list_all2 (\<lambda>chunk data. dc_data chunk = Some data \<and> data \<noteq> []) chunks datas" "datas \<noteq> []"
  shows "\<exists>s. rfold (v1_hash_checksum H) chunks (checksum_hasher_new st f) = Inr s \<and>
    st_files (ck_storage s) = map (\<lambda>i. if i < up_to_last_nonempty contents
        then fe_add_checksum (Basic_Checksum f (H (contents ! i))) (st_files st ! i) else st_files st ! i)
      [0..<length (st_files st)]"
proof -
  have match: "contents_match st contents" using assms(1,2) by (simp add: contents_match_def)
  have start: "v1_stands H f st contents 0 [] (checksum_hasher_new st f)"
    by (simp add: v1_stands_def checksum_hasher_new_def hasher_new_def)
  have "concat (drop 0 contents) = [] @ concat datas @ []" using assms(4) by simp
  from v1_checksums_run [OF match assms(3) start this assms(5)] assms(6)
  obtain k part s where s: "rfold (v1_hash_checksum H) chunks (checksum_hasher_new st f) = Inr s"
      "v1_stands H f st contents k part s" "concat (drop k contents) = part"
      "part \<noteq> [] \<or> 0 < k \<and> contents ! (k - 1) \<noteq> []"
    by (metis append_Nil2)
  have part: "part = []"
  proof (rule ccontr)
    assume "part \<noteq> []"
    with s(2) have "k < length contents" "length part < length (contents ! k)"
      by (auto simp: v1_stands_def split: if_splits)
    moreover from this have "length (contents ! k) \<le> length (concat (drop k contents))"
      by (simp add: Cons_nth_drop_Suc [symmetric])
    ultimately show False using s(3) by simp
  qed
  then have "up_to_last_nonempty contents = k"
    using s by (intro up_to_last_nonemptyI) (auto simp: v1_stands_def)
  with s(1,2) show ?thesis
    by (auto simp: v1_stands_def first_done_def add_digest_def)
qed

theorem v1_checksums_of_files_witness:
  "\<exists>s. rfold (v1_hash_checksum (take 1))
      [\<lparr>dc_piece_index = 0, dc_file_index = 0, dc_data = Some [1, 2]\<rparr>,
       \<lparr>dc_piece_index = 0, dc_file_index = 0, dc_data = Some [3]\<rparr>]
      (checksum_hasher_new (sample_storage 16384 [1, 0, 2, 0]) md5) = Inr s \<and>
    map fe_checksums (st_files (ck_storage s)) =
      [[(''md5'', Basic_Checksum md5 [1])], [(''md5'', Basic_Checksum md5 [])], [(''md5'', Basic_Checksum md5 [2])], []]"
proof -
  have "\<exists>s. rfold (v1_hash_checksum (take 1))
      [\<lparr>dc_piece_index = 0, dc_file_index = 0, dc_data = Some [1, 2]\<rparr>,
       \<lparr>dc_piece_index = 0, dc_file_index = 0, dc_data = Some [3]\<rparr>]
      (checksum_hasher_new (sample_storage 16384 [1, 0, 2, 0]) md5) = Inr s \<and>
    st_files (ck_storage s) = map (\<lambda>i. if i < up_to_last_nonempty [[1], [], [2, 3], [] :: byte list]
        then fe_add_checksum (Basic_Checksum md5 (take 1 ([[1], [], [2, 3], []] ! i)))
          (st_files (sample_storage 16384 [1, 0, 2, 0]) ! i) else st_files (sample_storage 16384 [1, 0, 2, 0]) ! i)
      [0..<length (st_files (sample_storage 16384 [1, 0, 2, 0]))]"
    by (rule v1_checksums_of_files [where datas = "[[1, 2], [3]]"])
      (simp_all add: supported_hash_functions_def size_bound_def)
  then show ?thesis
    by (auto simp: up_to_last_nonempty_def fe_add_checksum_def sample_entry_of_def om_emplace_def upt_rec)
qed


section \<open>The v2 hasher\<close>

definition chunk_of_file :: "nat \<Rightarrow> data_chunk \<Rightarrow> bool" where
  "chunk_of_file i c \<longleftrightarrow> dc_file_index c = i \<and> dc_data c \<noteq> None"

definition file_content :: "data_chunk list \<Rightarrow> byte list" where
  "file_content cs = concat (map (\<lambda>c. the (dc_data c)) cs)"

definition v2_stands ::
    "digest_function \<Rightarrow> hash_function \<Rightarrow> file_storage \<Rightarrow> byte list list \<Rightarrow> nat \<Rightarrow> byte list \<Rightarrow> checksum_hasher \<Rightarrow> bool" where
  "v2_stands H f st contents k part s \<longleftrightarrow>
     ck_functions s = [f] \<and> ck_storage s = first_done H f contents k st \<and> ck_file_index s = k \<and> ck_hasher s = part"

lemma v2_same_file:
  assumes "list_all (chunk_of_file k) cs" "v2_stands H f st contents k part s"
  shows "\<exists>s'. rfold (v2_hash_checksum H) cs s = Inr s' \<and> v2_stands H f st contents k (part @ file_content cs) s'"
  using assms
proof (induction cs arbitrary: s part)
  case (Cons c cs)
  then obtain d where d: "dc_data c = Some d" "dc_file_index c = k" by (auto simp: chunk_of_file_def)
  then have "v2_hash_checksum H c s = Inr (absorb d s)" "v2_stands H f st contents k (part @ d) (absorb d s)"
    using Cons.prems(2) by (simp_all add: v2_hash_checksum_def v2_stands_def absorb_def hasher_update_def)
  with Cons.IH [of "part @ d" "absorb d s"] Cons.prems(1) d show ?case
    by (simp add: file_content_def)
qed (simp add: file_content_def)

lemma v2_next_file:
  assumes "list_all (chunk_of_file (Suc k)) cs" "cs \<noteq> []" "v2_stands H f st contents k (contents ! k) s"
    "f \<in> set supported_hash_functions" "k < length (st_files st)"
  shows "\<exists>s'. rfold (v2_hash_checksum H) cs s = Inr s' \<and> v2_stands H f st contents (Suc k) (file_content cs) s'"
proof -
  obtain c cs' d where cs: "cs = c # cs'" "dc_data c = Some d" "dc_file_index c = Suc k"
    using assms(1,2) by (cases cs) (auto simp: chunk_of_file_def)
  define s1 where "s1 = s\<lparr>ck_hasher := [], ck_storage := first_done H f contents (Suc k) st, ck_file_index := Suc k\<rparr>"
  have "finish_file H s = Inr s1"
    using finish_file_done [of s f H contents k st] assms(3-5) by (simp add: v2_stands_def s1_def)
  then have "v2_hash_checksum H c s = Inr (absorb d s1)"
    using assms(3) cs by (simp add: v2_hash_checksum_def v2_stands_def s1_def)
  moreover have "v2_stands H f st contents (Suc k) d (absorb d s1)"
    using assms(3) by (simp add: v2_stands_def s1_def absorb_def hasher_update_def)
  ultimately show ?thesis
    using v2_same_file [of "Suc k" cs' H f st contents d "absorb d s1"] assms(1) cs
    by (simp add: file_content_def)
qed

lemma v2_all_files:
  assumes "f \<in> set supported_hash_functions" "n < length (st_files st)" "contents = map file_content css"
    "n < length css" "\<And>i. i \<le> n \<Longrightarrow> css ! i \<noteq> [] \<and> list_all (chunk_of_file i) (css ! i)"
  shows "\<exists>s. rfold (v2_hash_checksum H) (concat (take (Suc n) css)) (checksum_hasher_new st f) = Inr s \<and>
    v2_stands H f st contents n (contents ! n) s"
  using assms(2,4,5)
proof (induction n)
  case 0
  have "v2_stands H f st contents 0 [] (checksum_hasher_new st f)"
    by (simp add: v2_stands_def checksum_hasher_new_def hasher_new_def)
  then show ?case
    using 0 v2_same_file [of 0 "css ! 0" H f st contents "[]" "checksum_hasher_new st f"] assms(3)
    by (cases css) auto
next
  case (Suc n)
  then obtain s where "rfold (v2_hash_checksum H) (concat (take (Suc n) css)) (checksum_hasher_new st f) = Inr s"
      "v2_stands H f st contents n (contents ! n) s"
    by force
  then show ?case
    using v2_next_file [of n "css ! Suc n" H f st contents s] Suc.prems assms(1,3)
    by (simp add: take_Suc_conv_app_nth [of "Suc n"] rfold_append)
qed

text \<open>
  When every file of the storage arrives in one or more chunks and in order, the v2 checksum hasher
  gives every file but the last one the digest of its content; the last file gets none, its content
  stays in the hasher.
\<close>

theorem v2_checksums_miss_last_file:
  assumes "f \<in> set supported_hash_functions" "length css = length (st_files st)" "css \<noteq> []"
    "\<forall>i<length css. css ! i \<noteq> [] \<and> (\<forall>c\<in>set (css ! i). dc_file_index c = i \<and> dc_data c \<noteq> None)"
  shows "\<exists>s. rfold (v2_hash_checksum H) (concat css) (checksum_hasher_new st f) = Inr s \<and>
    st_files (ck_storage s) = map (\<lambda>i. if Suc i < length css
        then fe_add_checksum (Basic_Checksum f (H (file_content (css ! i)))) (st_files st ! i) else st_files st ! i)
      [0..<length (st_files st)] \<and>
    ck_hasher s = file_content (last css)"
proof -
  let ?n = "length css - 1"
  have n: "Suc ?n = length css" using assms(3) by (simp add: Suc_leI)
  have "list_all (chunk_of_file i) (css ! i)" if "i < length css" for i
    using assms(4) that by (auto simp: chunk_of_file_def list_all_iff)
  with v2_all_files [OF assms(1), of ?n st "map file_content css" css H] assms(2-4) n
  obtain s where "rfold (v2_hash_checksum H) (concat css) (checksum_hasher_new st f) = Inr s"
      "v2_stands H f st (map file_content css) ?n (map file_content css ! ?n) s"
    by auto
  then show ?thesis
    using assms(2,3) n by (auto simp: v2_stands_def first_done_def add_digest_def last_conv_nth)
qed

theorem v2_checksums_miss_last_file_witness:
  "\<exists>s. rfold (v2_hash_checksum (take 1))
      [\<lparr>dc_piece_index = 0, dc_file_index = 0, dc_data = Some [1, 2]\<rparr>,
       \<lparr>dc_piece_index = 0, dc_file_index = 1, dc_data = Some [3]\<rparr>]
      (checksum_hasher_new (sample_storage 16384 [2, 1]) md5) = Inr s \<and>
    map fe_checksums (st_files (ck_storage s)) = [[(''md5'', Basic_Checksum md5 [1])], []] \<and> ck_hasher s = [3]"
proof -
  let ?css = "[[\<lparr>dc_piece_index = 0, dc_file_index = 0, dc_data = Some [1, 2]\<rparr>],
     [\<lparr>dc_piece_index = 0, dc_file_index = 1, dc_data = Some [3]\<rparr>]]"
  have "\<forall>i<length ?css. ?css ! i \<noteq> [] \<and> (\<forall>c\<in>set (?css ! i). dc_file_index c = i \<and> dc_data c \<noteq> None)"
    by (simp add: All_less_Suc numeral_2_eq_2)
  from v2_checksums_miss_last_file [OF _ _ _ this, of md5 "sample_storage 16384 [2, 1]" "take 1"]
  show ?thesis
    by (auto simp: supported_hash_functions_def file_content_def fe_add_checksum_def sample_entry_of_def
        om_emplace_def upt_rec)
qed

text \<open>A chunk that is two files ahead, as behind a padding file of a hybrid torrent, is refused.\<close>

lemma v2_checksum_jump_refused:
  assumes "v2_stands H f st contents k part s" "f \<in> set supported_hash_functions" "k < length (st_files st)"
    "Suc k < dc_file_index c" "dc_data c = Some d"
  shows "v2_hash_checksum H c s = Inl Contract"
proof -
  have "ck_file_index s' = Suc k" if "finish_file H s = Inr s'" for s'
    using finish_file_index [OF that] assms(1) by (simp add: v2_stands_def)
  moreover have "\<exists>s'. finish_file H s = Inr s'"
    using assms(1-3)
    by (auto simp: finish_file_def v2_stands_def make_checksum_fn_default_def hasher_finalize_def st_get_def Let_def)
  ultimately show ?thesis
    using assms by (auto simp: v2_hash_checksum_def v2_stands_def)
qed

end
