(* ===== verification/Queue_Processor.thy ===== *)
theory Queue_Processor
  imports Worker_Pool
begin

text \<open>
  The threads behind the result queues: \<^verbatim>\<open>concurrent_queue_processor.hpp\<close>, which the piece writers and
  verifiers run with one thread. It differs from the hashing threads in three ways: a wake-up is an
  empty optional and the loop goes on after it, the second round of wake-ups does not block, and a
  finished thread empties the queue and insists that only wake-ups are left. The owner is modelled as
  for the hashing threads; feeding the queue is what the hashing threads do.
\<close>

section \<open>State and steps\<close>

datatype 'a processor_place =
    P_Checking
  | P_Popping
  | P_Working 'a
  | P_Leaving
  | P_Draining
  | P_Drain_Working 'a
  | P_Marking
  | P_Sizing
  | P_Sweeping
  | P_Ended
  | P_Broken

record 'a processor_thread =
  pt_at :: "'a processor_place"
  pt_stop :: bool
  pt_done :: bool

record 'a processor =
  pr_queue :: "'a option cqueue"
  pr_threads :: "'a processor_thread list"
  pr_cancelled :: bool
  pr_processed :: "'a list"
  pr_owner :: "'a owner_place"

definition processor_start :: "nat \<Rightarrow> nat \<Rightarrow> 'a list \<Rightarrow> 'a processor" where
  "processor_start capacity threads items =
     \<lparr>pr_queue = cq_new capacity,
      pr_threads = replicate threads \<lparr>pt_at = P_Checking, pt_stop = False, pt_done = False\<rparr>,
      pr_cancelled = False, pr_processed = [], pr_owner = Feeding items\<rparr>"

definition processor_done :: "'a processor \<Rightarrow> bool" where
  "processor_done s \<longleftrightarrow> pr_cancelled s \<or> (\<forall>t\<in>set (pr_threads s). pt_done t)"

inductive thread_step ::
    "bool \<Rightarrow> 'a option cqueue \<Rightarrow> 'a processor_thread \<Rightarrow> 'a list \<Rightarrow> 'a option cqueue \<Rightarrow> 'a processor_thread \<Rightarrow> bool"
  for c where
  see_stop: "pt_at t = P_Checking \<Longrightarrow> pt_stop t \<Longrightarrow> thread_step c q t [] q (t\<lparr>pt_at := P_Leaving\<rparr>)"
| go_on: "pt_at t = P_Checking \<Longrightarrow> \<not> pt_stop t \<Longrightarrow> thread_step c q t [] q (t\<lparr>pt_at := P_Popping\<rparr>)"
| pop_item: "pt_at t = P_Popping \<Longrightarrow> cq_pop q = Some (Some x, q') \<Longrightarrow> thread_step c q t [] q' (t\<lparr>pt_at := P_Working x\<rparr>)"
| pop_wake: "pt_at t = P_Popping \<Longrightarrow> cq_pop q = Some (None, q') \<Longrightarrow> thread_step c q t [] q' (t\<lparr>pt_at := P_Checking\<rparr>)"
| work: "pt_at t = P_Working x \<Longrightarrow> thread_step c q t [x] q (t\<lparr>pt_at := P_Checking\<rparr>)"
| leave: "pt_at t = P_Leaving \<Longrightarrow> thread_step c q t [] q (t\<lparr>pt_at := (if c then P_Marking else P_Draining)\<rparr>)"
| drain_item: "pt_at t = P_Draining \<Longrightarrow> cq_try_pop q = Some (Some x, q') \<Longrightarrow>
    thread_step c q t [] q' (t\<lparr>pt_at := P_Drain_Working x\<rparr>)"
| drain_wake: "pt_at t = P_Draining \<Longrightarrow> cq_try_pop q = Some (None, q') \<Longrightarrow> thread_step c q t [] q' (t\<lparr>pt_at := P_Marking\<rparr>)"
| drain_empty: "pt_at t = P_Draining \<Longrightarrow> cq_try_pop q = None \<Longrightarrow> thread_step c q t [] q (t\<lparr>pt_at := P_Marking\<rparr>)"
| drain_work: "pt_at t = P_Drain_Working x \<Longrightarrow> thread_step c q t [x] q (t\<lparr>pt_at := P_Draining\<rparr>)"
| mark: "pt_at t = P_Marking \<Longrightarrow> thread_step c q t [] q (t\<lparr>pt_at := P_Sizing, pt_done := True\<rparr>)"
| size: "pt_at t = P_Sizing \<Longrightarrow> thread_step c q t [] q (t\<lparr>pt_at := (if cq_size q \<noteq> 0 then P_Sweeping else P_Ended)\<rparr>)"
| sweep: "pt_at t = P_Sweeping \<Longrightarrow> cq_try_pop q = Some (item, q') \<Longrightarrow>
    thread_step c q t [] q' (t\<lparr>pt_at := (if item = None then P_Sweeping else P_Broken)\<rparr>)"
| swept: "pt_at t = P_Sweeping \<Longrightarrow> cq_try_pop q = None \<Longrightarrow> thread_step c q t [] q (t\<lparr>pt_at := P_Ended\<rparr>)"

inductive processor_step :: "'a processor \<Rightarrow> 'a processor \<Rightarrow> bool" where
  thread: "i < length (pr_threads s) \<Longrightarrow>
    thread_step (pr_cancelled s) (pr_queue s) (pr_threads s ! i) xs q t \<Longrightarrow>
    processor_step s (s\<lparr>pr_queue := q, pr_threads := (pr_threads s)[i := t], pr_processed := pr_processed s @ xs\<rparr>)"
| feed: "pr_owner s = Feeding (x # xs) \<Longrightarrow> cq_push (Some x) (pr_queue s) = Some q \<Longrightarrow>
    processor_step s (s\<lparr>pr_queue := q, pr_owner := Feeding xs\<rparr>)"
| fed: "pr_owner s = Feeding [] \<Longrightarrow> processor_step s (s\<lparr>pr_owner := Stopping 0\<rparr>)"
| stop_thread: "pr_owner s = Stopping i \<Longrightarrow> i < length (pr_threads s) \<Longrightarrow>
    processor_step s (s\<lparr>pr_threads := (pr_threads s)[i := (pr_threads s ! i)\<lparr>pt_stop := True\<rparr>],
      pr_owner := Stopping (Suc i)\<rparr>)"
| all_stopped: "pr_owner s = Stopping i \<Longrightarrow> \<not> i < length (pr_threads s) \<Longrightarrow>
    processor_step s (s\<lparr>pr_owner := Waking 0\<rparr>)"
| wake_thread: "pr_owner s = Waking i \<Longrightarrow> i < length (pr_threads s) \<Longrightarrow> cq_push None (pr_queue s) = Some q \<Longrightarrow>
    processor_step s (s\<lparr>pr_queue := q, pr_owner := Waking (Suc i)\<rparr>)"
| all_woken: "pr_owner s = Waking i \<Longrightarrow> \<not> i < length (pr_threads s) \<Longrightarrow>
    processor_step s (s\<lparr>pr_owner := Rechecking 0\<rparr>)"
| not_done: "pr_owner s = Rechecking i \<Longrightarrow> \<not> processor_done s \<and> i < length (pr_threads s) \<Longrightarrow>
    processor_step s (s\<lparr>pr_owner := Rewaking i\<rparr>)"
| checked: "pr_owner s = Rechecking i \<Longrightarrow> processor_done s \<or> \<not> i < length (pr_threads s) \<Longrightarrow>
    processor_step s (s\<lparr>pr_owner := Joining 0\<rparr>)"
| wake_again: "pr_owner s = Rewaking i \<Longrightarrow> cq_try_push None (pr_queue s) = (b, q) \<Longrightarrow>
    processor_step s (s\<lparr>pr_queue := q, pr_owner := Rechecking (Suc i)\<rparr>)"
| join_thread: "pr_owner s = Joining i \<Longrightarrow> i < length (pr_threads s) \<Longrightarrow> pt_at (pr_threads s ! i) = P_Ended \<Longrightarrow>
    processor_step s (s\<lparr>pr_owner := Joining (Suc i)\<rparr>)"
| all_joined: "pr_owner s = Joining i \<Longrightarrow> \<not> i < length (pr_threads s) \<Longrightarrow>
    processor_step s (s\<lparr>pr_owner := (if processor_done s then Finished else Owner_Broken)\<rparr>)"

definition processor_request_cancellation :: "'a processor \<Rightarrow> 'a processor" where
  "processor_request_cancellation s =
     s\<lparr>pr_cancelled := True, pr_threads := map (\<lambda>t. t\<lparr>pt_stop := True\<rparr>) (pr_threads s)\<rparr>"

section \<open>One thread\<close>

fun held :: "'a processor_place \<Rightarrow> 'a list" where
  "held (P_Working x) = [x]"
| "held (P_Drain_Working x) = [x]"
| "held _ = []"

fun still_looping :: "'a processor_place \<Rightarrow> bool" where
  "still_looping P_Checking = True"
| "still_looping P_Popping = True"
| "still_looping (P_Working x) = True"
| "still_looping _ = False"

fun past_drain :: "'a processor_place \<Rightarrow> bool" where
  "past_drain P_Marking = True"
| "past_drain P_Sizing = True"
| "past_drain P_Sweeping = True"
| "past_drain P_Ended = True"
| "past_drain _ = False"

fun least_wakes :: "'a owner_place \<Rightarrow> nat" where
  "least_wakes (Feeding xs) = 0"
| "least_wakes (Stopping i) = 0"
| "least_wakes (Waking i) = i"
| "least_wakes _ = 1"

fun unwoken :: "'a owner_place \<Rightarrow> bool" where
  "unwoken (Feeding xs) = True"
| "unwoken (Stopping i) = True"
| "unwoken (Waking i) = (i = 0)"
| "unwoken _ = False"

definition thread_ok :: "'a list \<Rightarrow> nat \<Rightarrow> 'a owner_place \<Rightarrow> 'a processor_thread \<Rightarrow> bool" where
  "thread_ok as k owner t \<longleftrightarrow>
     (\<not> still_looping (pt_at t) \<longrightarrow> pt_stop t) \<and> (past_drain (pt_at t) \<longrightarrow> as = []) \<and> pt_at t \<noteq> P_Broken \<and>
     (pt_done t \<longleftrightarrow> pt_at t = P_Sizing \<or> pt_at t = P_Sweeping \<or> pt_at t = P_Ended) \<and>
     (pt_stop t \<longleftrightarrow> 0 < stopped_below 1 owner) \<and>
     (pt_at t = P_Popping \<or> (\<exists>x. pt_at t = P_Working x) \<longrightarrow> least_wakes owner \<le> k) \<and>
     (owner = Finished \<or> owner = Joining 1 \<longrightarrow> pt_at t = P_Ended)"

definition processor_inv :: "nat \<Rightarrow> 'a list \<Rightarrow> 'a processor \<Rightarrow> bool" where
  "processor_inv capacity xs s \<longleftrightarrow>
     \<not> pr_cancelled s \<and> cq_capacity (pr_queue s) = capacity \<and> owner_bound 1 (pr_owner s) \<and>
     (\<exists>t as k. pr_threads s = [t] \<and> cq_items (pr_queue s) = map Some as @ replicate k None \<and>
        thread_ok as k (pr_owner s) t \<and>
        pr_processed s @ held (pt_at t) @ as @ to_feed (pr_owner s) = xs \<and>
        (unwoken (pr_owner s) \<longrightarrow> k = 0))"

lemma queue_front:
  assumes "map Some as @ replicate k None = x # ys"
  shows "(\<exists>a as'. x = Some a \<and> as = a # as' \<and> ys = map Some as' @ replicate k None) \<or>
    (x = None \<and> as = [] \<and> (\<exists>j. k = Suc j \<and> ys = replicate j None))"
  using assms by (cases as; cases k) auto

lemma thread_step_effect:
  assumes "thread_step False q t ys q' t'" "cq_items q = map Some as @ replicate k None"
    "thread_ok as k owner t"
  shows "\<exists>as' k'. cq_items q' = map Some as' @ replicate k' None \<and> thread_ok as' k' owner t' \<and>
    ys @ held (pt_at t') @ as' = held (pt_at t) @ as \<and> k' \<le> k \<and> cq_capacity q' = cq_capacity q"
  using assms
proof (induction rule: thread_step.induct)
  case (pop_item t q x q')
  then obtain as' where "as = x # as'" "cq_items q' = map Some as' @ replicate k None" "cq_capacity q' = cq_capacity q"
    using queue_front [of as k "Some x"] by (auto simp: queue_simps)
  with pop_item show ?case
    by (intro exI [of _ as'] exI [of _ k]) (auto simp: thread_ok_def)
next
  case (pop_wake t q q')
  then obtain j where "as = []" "k = Suc j" "cq_items q' = replicate j None" "cq_capacity q' = cq_capacity q"
    using queue_front [of as k None] by (auto simp: queue_simps)
  with pop_wake show ?case
    by (intro exI [of _ "[]"] exI [of _ j]) (auto simp: thread_ok_def)
next
  case (drain_item t q x q')
  then obtain as' where "as = x # as'" "cq_items q' = map Some as' @ replicate k None" "cq_capacity q' = cq_capacity q"
    using queue_front [of as k "Some x"] by (auto simp: queue_simps)
  with drain_item show ?case
    by (intro exI [of _ as'] exI [of _ k]) (auto simp: thread_ok_def)
next
  case (drain_wake t q q')
  then obtain j where "as = []" "k = Suc j" "cq_items q' = replicate j None" "cq_capacity q' = cq_capacity q"
    using queue_front [of as k None] by (auto simp: queue_simps)
  with drain_wake show ?case
    by (intro exI [of _ "[]"] exI [of _ j]) (auto simp: thread_ok_def)
next
  case (sweep t q item q')
  then obtain j where "item = None" "as = []" "k = Suc j" "cq_items q' = replicate j None" "cq_capacity q' = cq_capacity q"
    using queue_front [of as k item] by (auto simp: queue_simps thread_ok_def)
  with sweep show ?case
    by (intro exI [of _ "[]"] exI [of _ j]) (auto simp: thread_ok_def)
next
  case (go_on t q)
  then have "least_wakes owner = 0" "pt_stop t \<longleftrightarrow> 0 < stopped_below 1 owner"
    by (cases owner; auto simp: thread_ok_def)+
  with go_on show ?case
    by (intro exI [of _ as] exI [of _ k]) (auto simp: thread_ok_def)
qed (auto simp: thread_ok_def queue_simps intro!: exI [of _ as] exI [of _ k])


lemma processor_inv_start: "processor_inv capacity xs (processor_start capacity 1 xs)"
  by (auto simp: processor_inv_def processor_start_def thread_ok_def)

text \<open>Moves of the owner that touch neither the queue nor the thread.\<close>

lemma processor_inv_move:
  assumes "processor_inv capacity xs s" "owner_bound 1 owner" "to_feed owner = to_feed (pr_owner s)"
    "stopped_below 1 owner = stopped_below 1 (pr_owner s)" "least_wakes owner = least_wakes (pr_owner s)"
    "owner \<noteq> Finished" "owner \<noteq> Joining 1" "unwoken owner \<longrightarrow> unwoken (pr_owner s)"
  shows "processor_inv capacity xs (s\<lparr>pr_owner := owner\<rparr>)"
proof -
  obtain t as k where I: "pr_threads s = [t]" "cq_items (pr_queue s) = map Some as @ replicate k None"
      "thread_ok as k (pr_owner s) t" "pr_processed s @ held (pt_at t) @ as @ to_feed (pr_owner s) = xs"
      "unwoken (pr_owner s) \<longrightarrow> k = 0"
    using assms(1) unfolding processor_inv_def by blast
  have "thread_ok as k owner t" using I(3) assms(4-7) by (auto simp: thread_ok_def)
  with I assms show ?thesis unfolding processor_inv_def by fastforce
qed

lemma processor_inv_step:
  assumes "processor_step s s'" "processor_inv capacity xs s"
  shows "processor_inv capacity xs s'"
  using assms
proof (induction rule: processor_step.induct)
  case (thread i s ys q t')
  obtain t as k where I: "pr_threads s = [t]" "cq_items (pr_queue s) = map Some as @ replicate k None"
      "thread_ok as k (pr_owner s) t" "pr_processed s @ held (pt_at t) @ as @ to_feed (pr_owner s) = xs"
      "unwoken (pr_owner s) \<longrightarrow> k = 0"
    using thread.prems unfolding processor_inv_def by blast
  have "i = 0" using thread.hyps(1) I(1) by simp
  with thread_step_effect [of "pr_queue s" t ys q t' as k "pr_owner s"] thread I
  obtain as' k' where E: "cq_items q = map Some as' @ replicate k' None" "thread_ok as' k' (pr_owner s) t'"
      "ys @ held (pt_at t') @ as' = held (pt_at t) @ as" "k' \<le> k" "cq_capacity q = cq_capacity (pr_queue s)"
    by (auto simp: processor_inv_def)
  have "(pr_processed s @ ys) @ held (pt_at t') @ as' @ to_feed (pr_owner s)
      = pr_processed s @ (ys @ held (pt_at t') @ as') @ to_feed (pr_owner s)" by simp
  also have "\<dots> = xs" unfolding E(3) using I(4) by simp
  finally have "(pr_processed s @ ys) @ held (pt_at t') @ as' @ to_feed (pr_owner s) = xs" .
  with E thread.prems I(1,5) \<open>i = 0\<close> show ?case
    by (auto simp: processor_inv_def)
next
  case (feed s x ys q)
  obtain t as where I: "pr_threads s = [t]" "cq_items (pr_queue s) = map Some as"
      "thread_ok as 0 (pr_owner s) t" "pr_processed s @ held (pt_at t) @ as @ x # ys = xs"
    using feed by (auto simp: processor_inv_def)
  have "thread_ok (as @ [x]) 0 (Feeding ys) t"
    using I(3) feed.hyps(1) by (cases "pt_at t") (auto simp: thread_ok_def)
  with I feed show ?case
    by (auto simp: processor_inv_def queue_simps intro!: exI [of _ "as @ [x]"] exI [of _ 0])
next
  case (wake_thread s i q)
  obtain t as where I: "pr_threads s = [t]" "i = 0" "cq_items (pr_queue s) = map Some as"
      "thread_ok as 0 (Waking 0) t" "pr_processed s @ held (pt_at t) @ as = xs"
    using wake_thread by (auto simp: processor_inv_def)
  have "thread_ok as 1 (Waking (Suc 0)) t"
    using I(4) by (auto simp: thread_ok_def)
  with I wake_thread show ?case
    by (auto simp: processor_inv_def queue_simps intro!: exI [of _ as] exI [of _ "1::nat"])
next
  case (wake_again s i b q)
  obtain t as k where I: "pr_threads s = [t]" "cq_items (pr_queue s) = map Some as @ replicate k None"
      "thread_ok as k (Rewaking i) t" "pr_processed s @ held (pt_at t) @ as = xs"
    using wake_again by (auto simp: processor_inv_def)
  have i: "i = 0" using wake_again by (auto simp: processor_inv_def)
  obtain k' where k': "k \<le> k'" "cq_items q = map Some as @ replicate k' None" "cq_capacity q = cq_capacity (pr_queue s)"
    using wake_again.hyps(2) I(2)
    by (auto simp: cq_try_push_def replicate_append_same split: if_splits
        intro: that [of k] that [of "Suc k"])
  have "thread_ok as k' (Rechecking (Suc i)) t"
    using I(3) k'(1) by (auto simp: thread_ok_def)
  with I k' i wake_again.prems show ?case
    by (auto simp: processor_inv_def)
next
  case (stop_thread s i)
  obtain t as where I: "pr_threads s = [t]" "cq_items (pr_queue s) = map Some as"
      "thread_ok as 0 (Stopping i) t" "pr_processed s @ held (pt_at t) @ as = xs"
    using stop_thread by (auto simp: processor_inv_def)
  have "i = 0" using stop_thread.hyps(2) I(1) by simp
  moreover have "thread_ok as 0 (Stopping 1) (t\<lparr>pt_stop := True\<rparr>)"
    using I(3) by (auto simp: thread_ok_def)
  ultimately show ?case
    using I stop_thread by (auto simp: processor_inv_def intro!: exI [of _ as] exI [of _ 0])
next
  case (fed s)
  then show ?case by (intro processor_inv_move) auto
next
  case (all_stopped s i)
  moreover have "i = 1" using all_stopped by (auto simp: processor_inv_def)
  ultimately show ?case by (intro processor_inv_move) auto
next
  case (all_woken s i)
  moreover have "i = 1" using all_woken by (auto simp: processor_inv_def)
  ultimately show ?case by (intro processor_inv_move) auto
next
  case (not_done s i)
  moreover have "i = 0" using not_done by (auto simp: processor_inv_def)
  ultimately show ?case by (intro processor_inv_move) auto
next
  case (checked s i)
  then show ?case by (intro processor_inv_move) auto
next
  case (all_joined s i)
  then have i: "i = 1" by (auto simp: processor_inv_def)
  obtain t as k where I: "pr_threads s = [t]" "cq_items (pr_queue s) = map Some as @ replicate k None"
      "thread_ok as k (Joining 1) t" "pr_processed s @ held (pt_at t) @ as = xs"
    using all_joined i by (auto simp: processor_inv_def)
  have "processor_done s" using I(1,3) by (simp add: processor_done_def thread_ok_def)
  moreover have "thread_ok as k Finished t" using I(3) by (auto simp: thread_ok_def)
  ultimately show ?case
    using I all_joined i by (auto simp: processor_inv_def)
next
  case (join_thread s i)
  obtain t as k where I: "pr_threads s = [t]" "cq_items (pr_queue s) = map Some as @ replicate k None"
      "thread_ok as k (Joining i) t" "pr_processed s @ held (pt_at t) @ as = xs"
    using join_thread by (auto simp: processor_inv_def)
  have "i = 0" "pt_at t = P_Ended" using join_thread.hyps(2,3) I(1) by simp_all
  moreover from this have "thread_ok as k (Joining 1) t" using I(3) by (auto simp: thread_ok_def)
  ultimately show ?case
    using I join_thread by (auto simp: processor_inv_def)
qed

inductive processor_reachable :: "nat \<Rightarrow> 'a list \<Rightarrow> 'a processor \<Rightarrow> bool" for capacity items where
  started: "processor_reachable capacity items (processor_start capacity 1 items)"
| stepped: "processor_reachable capacity items s \<Longrightarrow> processor_step s s' \<Longrightarrow> processor_reachable capacity items s'"

lemma processor_reachable_inv: "processor_reachable capacity items s \<Longrightarrow> processor_inv capacity items s"
  by (induction rule: processor_reachable.induct) (rule processor_inv_start, rule processor_inv_step)


section \<open>Progress and termination\<close>

lemma thread_can_step:
  assumes "pt_at t \<noteq> P_Ended" "pt_at t \<noteq> P_Broken" "pt_at t = P_Popping \<longrightarrow> cq_items q \<noteq> []"
  shows "\<exists>xs q' t'. thread_step c q t xs q' t'"
proof -
  obtain r where pop: "cq_items q = [] \<and> cq_try_pop q = None \<or> cq_pop q = Some r \<and> cq_try_pop q = Some r"
    by (cases "cq_items q") (auto simp: cq_pop_def cq_try_pop_def)
  show ?thesis
  proof (cases "pt_at t")
    case P_Checking
    then show ?thesis by (cases "pt_stop t") (blast intro: thread_step.intros)+
  next
    case P_Popping
    with assms(3) pop show ?thesis by (cases r; cases "fst r") (force intro: thread_step.intros)+
  next
    case P_Draining
    with pop show ?thesis by (cases r; cases "fst r") (force intro: thread_step.intros)+
  next
    case P_Sweeping
    with pop show ?thesis by (cases r) (force intro: thread_step.intros)+
  qed (use assms in \<open>blast intro: thread_step.intros\<close>)+
qed

lemma processor_progress:
  assumes "processor_inv capacity xs s" "0 < capacity" "pr_owner s \<noteq> Finished"
  shows "\<exists>s'. processor_step s s'"
proof (rule ccontr)
  assume stuck: "\<nexists>s'. processor_step s s'"
  obtain t as k where I: "pr_threads s = [t]" "cq_items (pr_queue s) = map Some as @ replicate k None"
      "thread_ok as k (pr_owner s) t" "unwoken (pr_owner s) \<longrightarrow> k = 0"
    using assms(1) unfolding processor_inv_def by blast
  have bound: "owner_bound 1 (pr_owner s)" and cap: "cq_capacity (pr_queue s) = capacity"
    using assms(1) by (auto simp: processor_inv_def)
  have still: "pt_at t = P_Ended \<or> pt_at t = P_Popping \<and> cq_items (pr_queue s) = []"
  proof (rule ccontr)
    assume "\<not> ?thesis"
    moreover have "pt_at t \<noteq> P_Broken" using I(3) by (simp add: thread_ok_def)
    ultimately obtain ys q t' where "thread_step (pr_cancelled s) (pr_queue s) t ys q t'"
      using thread_can_step [of t "pr_queue s"] by blast
    then show False using stuck processor_step.thread [of 0 s ys q t'] I(1) by simp
  qed
  have room: "cq_push x (pr_queue s) \<noteq> None" if "unwoken (pr_owner s)" for x
  proof -
    have "as = []" using still I(2,3) by (auto simp: thread_ok_def)
    with I(2,4) that assms(2) cap show ?thesis by (simp add: cq_push_def)
  qed
  show False
  proof (cases "pr_owner s")
    case (Feeding ys)
    show False
    proof (cases ys)
      case Nil
      with Feeding stuck show False by (blast intro: processor_step.intros)
    next
      case (Cons x zs)
      with room [of "Some x"] Feeding stuck show False by (auto intro: processor_step.feed)
    qed
  next
    case (Stopping i)
    with stuck show False by (cases "i < length (pr_threads s)") (blast intro: processor_step.intros)+
  next
    case (Waking i)
    with room [of None] stuck bound I(1) processor_step.all_woken [of s i] processor_step.wake_thread [of s i] show False
      by (cases "i = 0") auto
  next
    case (Rechecking i)
    with stuck show False
      by (cases "\<not> processor_done s \<and> i < length (pr_threads s)") (blast intro: processor_step.intros)+
  next
    case (Rewaking i)
    with stuck show False by (cases "cq_try_push None (pr_queue s)") (blast intro: processor_step.wake_again)
  next
    case (Joining i)
    show False
    proof (cases "i < 1")
      case False
      with processor_step.all_joined [of s i] Joining I(1) stuck show False by auto
    next
      case True
      with processor_step.join_thread [of s i] Joining I(1) stuck have "pt_at t \<noteq> P_Ended" by auto
      with still have "pt_at t = P_Popping" "k = 0" using I(2) by auto
      with I(3) Joining show False by (simp add: thread_ok_def)
    qed
  next
    case Owner_Broken
    with bound show False by simp
  qed (use assms(3) in simp)
qed

fun place_weight :: "'a processor_place \<Rightarrow> nat" where
  "place_weight P_Checking = 16"
| "place_weight P_Popping = 15"
| "place_weight (P_Working x) = 17"
| "place_weight P_Leaving = 13"
| "place_weight P_Draining = 11"
| "place_weight (P_Drain_Working x) = 12"
| "place_weight P_Marking = 8"
| "place_weight P_Sizing = 6"
| "place_weight P_Sweeping = 4"
| "place_weight _ = 0"

definition processor_weight :: "'a processor \<Rightarrow> nat" where
  "processor_weight s = sum_list (map (\<lambda>t. place_weight (pt_at t)) (pr_threads s)) +
     4 * length (cq_items (pr_queue s)) + owner_weight (length (pr_threads s)) (pr_owner s)"

lemma processor_step_weight: "processor_step s s' \<Longrightarrow> processor_weight s' < processor_weight s"
proof (induction rule: processor_step.induct)
  case (thread i s xs q t)
  have "place_weight (pt_at t) + 4 * length (cq_items q)
      < place_weight (pt_at (pr_threads s ! i)) + 4 * length (cq_items (pr_queue s))"
    using thread(2) by (induction rule: thread_step.induct) (auto simp: queue_simps)
  with sum_list_update_swap [of i "map (\<lambda>t. place_weight (pt_at t)) (pr_threads s)" "place_weight (pt_at t)"] thread(1)
  show ?case by (simp add: processor_weight_def map_update)
next
  case (stop_thread s i)
  with sum_list_update_swap [of i "map (\<lambda>t. place_weight (pt_at t)) (pr_threads s)" "place_weight (pt_at (pr_threads s ! i))"]
  show ?case by (simp add: processor_weight_def map_update)
next
  case (wake_again s i b q)
  then show ?case by (auto simp: processor_weight_def cq_try_push_def split: if_splits)
qed (auto simp: processor_weight_def queue_simps)

section \<open>Properties\<close>

text \<open>
  C21: With one thread and without cancellation the processor of the results never gets stuck before the
  end: from every state it gets into, some run ends with the owner returned and every item processed
  once, in the order in which the items were pushed.
\<close>

theorem processor_completes_in_order:
  assumes "processor_reachable capacity items s" "0 < capacity"
  shows "(if pr_owner s = Finished then pr_processed s = items else \<exists>s'. processor_step s s') \<and>
    (\<exists>s'. processor_step\<^sup>*\<^sup>* s s' \<and> pr_owner s' = Finished \<and> pr_processed s' = items)"
proof -
  have final: "pr_processed u = items" if "processor_inv capacity items u" "pr_owner u = Finished" for u
    using that by (auto simp: processor_inv_def thread_ok_def)
  have "\<exists>s'. processor_step\<^sup>*\<^sup>* s s' \<and> pr_owner s' = Finished \<and> pr_processed s' = items"
    if "processor_inv capacity items s" for s
    using that
  proof (induction "processor_weight s" arbitrary: s rule: less_induct)
    case less
    show ?case
    proof (cases "pr_owner s = Finished")
      case True
      with final [OF less.prems] show ?thesis by blast
    next
      case False
      then obtain s1 where s1: "processor_step s s1" using processor_progress [OF less.prems assms(2)] by blast
      with less show ?thesis
        by (meson converse_rtranclp_into_rtranclp processor_inv_step processor_step_weight)
    qed
  qed
  with final processor_progress assms processor_reachable_inv [OF assms(1)] show ?thesis by auto
qed

theorem processor_completes_in_order_witness:
  "\<exists>s. processor_step\<^sup>*\<^sup>* (processor_start 1 1 [1 :: nat, 2]) s \<and> pr_owner s = Finished \<and> pr_processed s = [1, 2]"
  using processor_completes_in_order [OF processor_reachable.started, of 1 "[1 :: nat, 2]"] by simp



end
