(* ===== verification/Storage_Hasher.thy ===== *)
theory Storage_Hasher
  imports Chunk_Readers Piece_Writers Piece_Verifiers Worker_Pool
begin

text \<open>
  The two drivers, \<^verbatim>\<open>storage_hasher.cpp\<close> and \<^verbatim>\<open>storage_verifier.cpp\<close>: how the options become a
  pipeline, which stages it has, in which order they are started, stopped and waited for, and the progress
  they report. The stages run in threads of their own; here a stage is known by what it was made of, and
  the calls the driver makes on the stages are recorded in order. Whether the library is built against
  ISA-L is the parameter \<open>isal\<close>.
\<close>

section \<open>Options and state\<close>

datatype hasher_kind = V1_Single | V1_Multi | V2_Single bool | V2_Multi bool

datatype stage = Stage_Reader | Stage_Hasher | Stage_Checksums nat | Stage_Results

datatype stage_call =
    Call_Start stage
  | Call_Request_Stop stage
  | Call_Request_Cancellation stage
  | Call_Wait stage

record hasher_options =
  ho_protocol :: protocol
  ho_checksums :: "hash_function list"
  ho_min_io_block_size :: "nat option"
  ho_max_memory :: "nat option"
  ho_multi_buffer :: bool
  ho_threads :: nat

text \<open>The stages, and which of the two result queues the hasher is given.\<close>

record stages =
  sg_reader :: reader
  sg_hasher :: hasher_kind
  sg_checksums :: "hash_function list"
  sg_v1_queue :: bool
  sg_v2_queue :: bool

record storage_driver =
  sd_storage :: file_storage
  sd_protocol :: protocol
  sd_checksums :: "hash_function list"
  sd_threads :: nat
  sd_io_block_size :: nat
  sd_queue_capacity :: nat
  sd_multi_buffer :: bool
  sd_stages :: "stages option"
  sd_started :: bool
  sd_stopped :: bool
  sd_cancelled :: bool
  sd_current_file_index :: nat
  sd_cumulative_file_size :: "nat list"
  sd_calls :: "stage_call list"

section \<open>Construction\<close>

definition io_block_size :: "bool \<Rightarrow> nat \<Rightarrow> nat option \<Rightarrow> nat" where
  "io_block_size isal piece_size min_io_block_size =
     (if isal then (case min_io_block_size of Some m \<Rightarrow> max piece_size m | None \<Rightarrow> size_mul 16 piece_size)
      else max piece_size (case min_io_block_size of Some m \<Rightarrow> m | None \<Rightarrow> MiB 1))"

definition queue_capacity :: "nat \<Rightarrow> nat \<Rightarrow> nat option \<Rightarrow> nat result" where
  "queue_capacity io threads max_memory =
     (case max_memory of
        Some m \<Rightarrow> if io = 0 then Inl Undefined else Inr (max 4 (m div io))
      | None \<Rightarrow> Inr (max 4 (size_mul 4 threads)))"

definition driver_of ::
    "file_storage \<Rightarrow> hasher_options \<Rightarrow> protocol \<Rightarrow> nat \<Rightarrow> nat \<Rightarrow> storage_driver" where
  "driver_of st opts prot io capacity =
     \<lparr>sd_storage = st, sd_protocol = prot, sd_checksums = ho_checksums opts, sd_threads = ho_threads opts,
      sd_io_block_size = io, sd_queue_capacity = capacity, sd_multi_buffer = ho_multi_buffer opts,
      sd_stages = None, sd_started = False, sd_stopped = False, sd_cancelled = False,
      sd_current_file_index = 0,
      sd_cumulative_file_size =
        (if prot = protocol_v1 then inclusive_file_size_scan_v1 st else inclusive_file_size_scan_v2 st),
      sd_calls = []\<rparr>"

definition storage_hasher_new ::
    "bool \<Rightarrow> (nat \<Rightarrow> string) \<Rightarrow> file_storage \<Rightarrow> hasher_options \<Rightarrow> storage_driver result" where
  "storage_hasher_new isal decimal st opts =
     rbind (if st_piece_size st = 0
            then rbind (choose_piece_size st) (\<lambda>(n, st). st_set_piece_size n st)
            else Inr st) (\<lambda>st.
     let io = io_block_size isal (st_piece_size st) (ho_min_io_block_size opts); prot = ho_protocol opts in
     rbind (queue_capacity io (ho_threads opts) (ho_max_memory opts)) (\<lambda>capacity.
     rbind (expects (prot \<noteq> protocol_none)) (\<lambda>_.
     rbind (expects (has_single_bit (st_piece_size st))) (\<lambda>_.
     rbind (if prot = protocol_hybrid then optimize_alignment decimal st else Inr st) (\<lambda>st.
     let st = (if prot = protocol_v1 \<or> prot = protocol_hybrid then st_allocate_pieces st else st) in
     Inr (driver_of st opts prot io capacity))))))"

definition storage_verifier_new :: "bool \<Rightarrow> file_storage \<Rightarrow> hasher_options \<Rightarrow> storage_driver result" where
  "storage_verifier_new isal st opts =
     (let prot = (if ho_protocol opts = protocol_none then st_protocol st else ho_protocol opts);
          io = io_block_size isal (st_piece_size st) (ho_min_io_block_size opts) in
      rbind (queue_capacity io (ho_threads opts) (ho_max_memory opts)) (\<lambda>capacity.
      rbind (expects (prot \<noteq> protocol_none)) (\<lambda>_.
      rbind (expects (has_single_bit (st_piece_size st))) (\<lambda>_.
        Inr (driver_of st opts prot io capacity)))))"

section \<open>Lifecycle\<close>

definition driver_done :: "storage_driver \<Rightarrow> bool" where
  "driver_done s \<longleftrightarrow> sd_cancelled s \<or> (sd_started s \<and> sd_stopped s)"

definition driver_running :: "storage_driver \<Rightarrow> bool" where
  "driver_running s \<longleftrightarrow> sd_started s \<and> \<not> sd_cancelled s \<and> \<not> sd_stopped s"

definition call_stages :: "stage_call list \<Rightarrow> storage_driver \<Rightarrow> storage_driver" where
  "call_stages cs s = s\<lparr>sd_calls := sd_calls s @ cs\<rparr>"

text \<open>
  Starting a driver that is already running replaces its stages; the reader that is destroyed has a
  thread running and terminates the program.
\<close>

definition storage_hasher_start :: "bool \<Rightarrow> storage_driver \<Rightarrow> storage_driver result" where
  "storage_hasher_start isal s =
     rbind (throw_if (driver_done s) Runtime_Error) (\<lambda>_.
     rbind (reader_new (sd_storage s) (sd_io_block_size s) (sd_queue_capacity s)) (\<lambda>r.
     if sd_started s then Inl Terminated
     else
       rbind (expects (0 < sd_threads s)) (\<lambda>_.
       let multi = isal \<and> sd_multi_buffer s; v1 = (sd_protocol s = protocol_v1);
           hybrid = (sd_protocol s = protocol_hybrid) in
       rbind (if v1 then Inr () else rbind (vw_new (sd_storage s)) (\<lambda>_. Inr ())) (\<lambda>_.
       let g = \<lparr>sg_reader = r,
                sg_hasher = (if v1 then (if multi then V1_Multi else V1_Single)
                             else (if multi then V2_Multi hybrid else V2_Single hybrid)),
                sg_checksums = sd_checksums s,
                sg_v1_queue = v1 \<or> hybrid,
                sg_v2_queue = \<not> v1\<rparr>
       in Inr (call_stages
            ([Call_Start Stage_Results, Call_Start Stage_Hasher]
              @ map (\<lambda>i. Call_Start (Stage_Checksums i)) [0..<length (sd_checksums s)]
              @ [Call_Start Stage_Reader])
            (s\<lparr>sd_stages := Some g, sd_started := True\<rparr>))))))"

definition storage_verifier_start :: "bool \<Rightarrow> storage_driver \<Rightarrow> storage_driver result" where
  "storage_verifier_start isal s =
     rbind (throw_if (driver_done s) Runtime_Error) (\<lambda>_.
     rbind (reader_new (sd_storage s) (sd_io_block_size s) (sd_queue_capacity s)) (\<lambda>r.
     if sd_started s then Inl Terminated
     else
       rbind (expects (0 < sd_threads s)) (\<lambda>_.
       let multi = isal \<and> sd_multi_buffer s; v1 = (sd_protocol s = protocol_v1);
           hybrid = (sd_protocol s = protocol_hybrid) in
       rbind (if v1 then Inr () else rbind (v2_verifier_new (sd_storage s)) (\<lambda>_. Inr ())) (\<lambda>_.
       let g = \<lparr>sg_reader = r,
                sg_hasher = (if v1 then (if multi then V1_Multi else V1_Single)
                             else (if multi then V2_Multi hybrid else V2_Single False)),
                sg_checksums = [],
                sg_v1_queue = v1,
                sg_v2_queue = \<not> v1\<rparr>
       in Inr (call_stages [Call_Start Stage_Results, Call_Start Stage_Hasher, Call_Start Stage_Reader]
            (s\<lparr>sd_stages := Some g, sd_started := True\<rparr>))))))"

definition checksum_calls :: "(stage \<Rightarrow> stage_call) \<Rightarrow> storage_driver \<Rightarrow> stage_call list" where
  "checksum_calls f s =
     (case sd_stages s of Some g \<Rightarrow> map (\<lambda>i. f (Stage_Checksums i)) [0..<length (sg_checksums g)] | None \<Rightarrow> [])"

definition storage_hasher_cancel :: "storage_driver \<Rightarrow> storage_driver result" where
  "storage_hasher_cancel s =
     rbind (throw_if (driver_done s) Runtime_Error) (\<lambda>_.
     if \<not> sd_started s then Inr (s\<lparr>sd_cancelled := True\<rparr>)
     else Inr (call_stages
       ([Call_Request_Cancellation Stage_Reader, Call_Request_Cancellation Stage_Hasher]
         @ checksum_calls Call_Request_Cancellation s @ [Call_Request_Cancellation Stage_Results]
         @ [Call_Wait Stage_Reader, Call_Wait Stage_Hasher] @ checksum_calls Call_Wait s @ [Call_Wait Stage_Results])
       (s\<lparr>sd_cancelled := True, sd_stopped := True\<rparr>)))"

definition storage_hasher_wait :: "storage_driver \<Rightarrow> storage_driver result" where
  "storage_hasher_wait s =
     rbind (throw_if (\<not> sd_started s) Runtime_Error) (\<lambda>_.
     rbind (throw_if (driver_done s) Runtime_Error) (\<lambda>_.
       Inr (call_stages
         ([Call_Wait Stage_Reader, Call_Request_Stop Stage_Hasher] @ checksum_calls Call_Request_Stop s
           @ [Call_Wait Stage_Hasher] @ checksum_calls Call_Wait s
           @ [Call_Request_Stop Stage_Results, Call_Wait Stage_Results])
         (s\<lparr>sd_stopped := True\<rparr>))))"

definition storage_verifier_cancel :: "storage_driver \<Rightarrow> storage_driver result" where
  "storage_verifier_cancel s =
     rbind (throw_if (driver_done s) Runtime_Error) (\<lambda>_.
     if \<not> sd_started s then Inr (s\<lparr>sd_cancelled := True\<rparr>)
     else Inr (call_stages
       [Call_Request_Cancellation Stage_Reader, Call_Request_Cancellation Stage_Hasher,
        Call_Request_Cancellation Stage_Results, Call_Wait Stage_Reader, Call_Wait Stage_Hasher, Call_Wait Stage_Results]
       (s\<lparr>sd_cancelled := True, sd_stopped := True\<rparr>)))"

definition storage_verifier_wait :: "storage_driver \<Rightarrow> storage_driver result" where
  "storage_verifier_wait s =
     rbind (throw_if (\<not> sd_started s) Runtime_Error) (\<lambda>_.
     rbind (throw_if (driver_done s) Runtime_Error) (\<lambda>_.
       Inr (call_stages [Call_Wait Stage_Reader, Call_Request_Stop Stage_Hasher, Call_Wait Stage_Hasher,
           Call_Request_Stop Stage_Results, Call_Wait Stage_Results]
         (s\<lparr>sd_stopped := True\<rparr>))))"

definition storage_verifier_destroy :: "storage_driver \<Rightarrow> unit result" where
  "storage_verifier_destroy s =
     (if sd_started s \<and> \<not> driver_done s then Inl Terminated else expects (driver_done s))"

section \<open>Progress\<close>

text \<open>\<open>std::lower_bound\<close> from the file of the last call on; the index is kept for the next call.\<close>

definition current_file_progress :: "nat \<Rightarrow> storage_driver \<Rightarrow> ((nat \<times> nat) \<times> storage_driver) result" where
  "current_file_progress bytes s =
     (let cum = sd_cumulative_file_size s; i0 = sd_current_file_index s in
      if length cum < i0 then Inl Undefined
      else
        let index = i0 + length (takeWhile (\<lambda>c. c < bytes) (drop i0 cum));
            s = s\<lparr>sd_current_file_index := index\<rparr>
        in if index = 0 then Inr ((index, bytes), s)
           else Inr ((index, size_sub bytes (cum ! (index - 1))), s))"

definition storage_verifier_file_progress :: "nat \<Rightarrow> storage_driver \<Rightarrow> ((nat \<times> nat) \<times> storage_driver) result" where
  "storage_verifier_file_progress = current_file_progress"

definition verifier_percentage :: "(nat \<Rightarrow> 'p result) \<Rightarrow> file_entry \<Rightarrow> storage_driver \<Rightarrow> 'p result" where
  "verifier_percentage percentage entry s =
     (let file_index = length (takeWhile (\<lambda>e. \<not> fe_eq e entry) (st_files (sd_storage s))) in
      rbind (throw_if (file_index = st_file_count (sd_storage s)) Invalid_Argument) (\<lambda>_. percentage file_index))"


section \<open>What the first chunk meets\<close>

definition stage_queues :: "stages \<Rightarrow> chunk_hasher" where
  "stage_queues g =
     \<lparr>ch_bytes_hashed = 0, ch_bytes_done = 0,
      ch_v1_queue = (if sg_v1_queue g then Some [] else None),
      ch_v2_queue = (if sg_v2_queue g then Some [] else None)\<rparr>"

text \<open>What a fresh thread of the hasher does with its first chunk: the virtual call of \<^verbatim>\<open>hash_chunk\<close>.\<close>

definition hash_first_chunk ::
    "digest_function \<Rightarrow> digest_function \<Rightarrow> stages \<Rightarrow> file_storage \<Rightarrow> data_chunk \<Rightarrow> chunk_hasher result" where
  "hash_first_chunk H2 H1 g st c =
     (let s = stage_queues g; offsets = initialize_v1_offsets st in
      case sg_hasher g of
        V1_Single \<Rightarrow> rbind (hash_chunk_v1_sb H1 (st_piece_size st) c (hasher_new, s)) (\<lambda>(_, s). Inr s)
      | V1_Multi \<Rightarrow> rbind (hash_chunk_v1_mb H1 (st_piece_size st) c ([], s)) (\<lambda>(_, s). Inr s)
      | V2_Single hybrid \<Rightarrow>
          rbind (hash_chunk_v2_sb H2 H1 st hybrid offsets c ((hasher_new, hasher_new), s)) (\<lambda>(_, s). Inr s)
      | V2_Multi hybrid \<Rightarrow>
          rbind (hash_chunk_v2_mb H2 H1 st hybrid offsets c (([], []), s)) (\<lambda>(_, s). Inr s))"

lemma storage_verifier_started:
  assumes "storage_verifier_new isal st opts = Inr s" "storage_verifier_start isal s = Inr s'"
  shows "sd_storage s = st \<and> sd_storage s' = st \<and> KiB 16 \<le> st_piece_size st \<and>
    (\<exists>r. sd_stages s' = Some
      \<lparr>sg_reader = r,
       sg_hasher = (if sd_protocol s = protocol_v1 then (if isal \<and> ho_multi_buffer opts then V1_Multi else V1_Single)
          else if isal \<and> ho_multi_buffer opts then V2_Multi (sd_protocol s = protocol_hybrid) else V2_Single False),
       sg_checksums = [], sg_v1_queue = (sd_protocol s = protocol_v1), sg_v2_queue = (sd_protocol s \<noteq> protocol_v1)\<rparr>)"
proof -
  have s: "sd_storage s = st" "sd_multi_buffer s = ho_multi_buffer opts" "\<not> sd_started s"
    using assms(1) by (auto simp: storage_verifier_new_def Let_def result_simps driver_of_def)
  obtain r where r: "reader_new st (sd_io_block_size s) (sd_queue_capacity s) = Inr r"
    using assms(2) s(1) by (auto simp: storage_verifier_start_def result_simps)
  then have "KiB 16 \<le> st_piece_size st" by (auto simp: reader_new_def result_simps)
  with assms(2) s r show ?thesis
    by (auto simp: storage_verifier_start_def Let_def result_simps call_stages_def)
qed

text \<open>
  C23: Verifying a hybrid torrent with the multi-buffer hashers fails on the first chunk of data: the
  verifier asks the hasher for v1 pieces but gives it no queue for them, so the hasher violates its
  contract. With the single-buffer hashers the same chunk gives the digests of its blocks.
\<close>

theorem verify_hybrid_multi_buffer_fails:
  assumes "storage_verifier_new isal st opts = Inr s" "sd_protocol s = protocol_hybrid"
    "storage_verifier_start isal s = Inr s'" "sd_stages s' = Some g"
    "dc_data c = Some data" "data \<noteq> []" "dc_file_index c < st_file_count st"
    "compat_padded st (dc_file_index c) = Inr p"
  shows "if isal \<and> ho_multi_buffer opts then hash_first_chunk H2 H1 g st c = Inl Contract
    else \<exists>h. hash_first_chunk H2 H1 g st c = Inr h \<and>
      ch_v2_queue h = Some (v2_leaves H2 (dc_file_index c)
        (dc_piece_index c * st_piece_size st div v2_block_size) (blocks v2_block_size data))"
proof -
  note g = storage_verifier_started [OF assms(1,3)]
  have psz: "0 < st_piece_size st"
    using g by (auto simp: KiB_def size_mul_def size_bound_def)
  have q: "ch_ok (stage_queues g)" "ch_v1_queue (stage_queues g) = None" "ch_v2_queue (stage_queues g) = Some []"
    using g assms(2,4) by (auto simp: stage_queues_def ch_ok_def)
  show ?thesis
  proof (cases "isal \<and> ho_multi_buffer opts")
    case True
    then have "sg_hasher g = V2_Multi True" using g assms(2,4) by auto
    with True hash_chunk_v2_mb_no_queue [OF assms(7,5,6) q(1) _ q(2) psz assms(8)] q(3) show ?thesis
      by (simp add: hash_first_chunk_def)
  next
    case False
    then have kind: "sg_hasher g = V2_Single False" using g assms(2,4) by auto
    note run = hash_chunk_v2_sb_run [of c st data "stage_queues g" False "initialize_v1_offsets st" p H2 H1, OF assms(7,5,6) q(1)]
    from run False kind q(3) show ?thesis
      by (simp add: hash_first_chunk_def advanced_def chunk_leaves_def)
  qed
qed


section \<open>Memory limits\<close>

lemma storage_hasher_capacity:
  assumes "storage_hasher_new isal decimal st opts = Inr s"
  shows "sd_threads s = ho_threads opts \<and>
    (case ho_max_memory opts of
       None \<Rightarrow> sd_queue_capacity s = max 4 (size_mul 4 (ho_threads opts))
     | Some m \<Rightarrow> sd_queue_capacity s = max 4 (m div sd_io_block_size s))"
  using assms
  by (cases "ho_max_memory opts")
    (auto simp: storage_hasher_new_def Let_def result_simps driver_of_def queue_capacity_def split: if_splits)

text \<open>
  C10: With the default memory limit the queue a storage hasher makes is always large enough: hashing and
  waiting never get stuck, whatever the number of threads. With a memory limit below five blocks and more
  than four threads it is not: there are runs in which everything has been hashed and \<^verbatim>\<open>wait\<close>
  never returns.
\<close>

theorem memory_limit_decides_deadlock:
  assumes "storage_hasher_new isal decimal st opts = Inr s" "0 < ho_threads opts" "4 * ho_threads opts < size_bound"
    "wakeup_chunk \<notin> set chunks"
  shows "(ho_max_memory opts = None \<longrightarrow>
      (\<forall>p. pool_reachable_from wakeup_chunk (sd_queue_capacity s) (sd_threads s) chunks p \<longrightarrow>
        po_owner p = Finished \<and> mset (po_processed p) = mset chunks \<or> (\<exists>p'. pool_step wakeup_chunk p p'))) \<and>
    (\<forall>m. ho_max_memory opts = Some m \<and> m < 5 * sd_io_block_size s \<and> 4 < ho_threads opts \<longrightarrow>
      (\<exists>p. pool_reachable_from wakeup_chunk (sd_queue_capacity s) (sd_threads s) chunks p \<and>
        po_processed p = chunks \<and> po_owner p \<noteq> Finished \<and> \<not> (\<exists>p'. pool_step wakeup_chunk p p')))"
proof (intro conjI impI allI)
  fix p
  assume "ho_max_memory opts = None"
    and p: "pool_reachable_from wakeup_chunk (sd_queue_capacity s) (sd_threads s) chunks p"
  then have "2 * sd_threads s \<le> sd_queue_capacity s" "0 < sd_threads s"
    using storage_hasher_capacity [OF assms(1)] assms(2,3) by (simp_all add: size_mul_exact)
  with pool_progress [OF pool_reachable_inv [OF p assms(4)]] pool_finished [OF p assms(4)]
  show "po_owner p = Finished \<and> mset (po_processed p) = mset chunks \<or> (\<exists>p'. pool_step wakeup_chunk p p')"
    by blast
next
  fix m
  assume m: "ho_max_memory opts = Some m \<and> m < 5 * sd_io_block_size s \<and> 4 < ho_threads opts"
  then have "m div sd_io_block_size s < 5" by (metis less_mult_imp_div_less mult.commute)
  then have "sd_queue_capacity s = 4" "4 < sd_threads s"
    using m storage_hasher_capacity [OF assms(1)] by auto
  with worker_pool_wait_deadlock [OF assms(4), of "sd_queue_capacity s" "sd_threads s"]
  show "\<exists>p. pool_reachable_from wakeup_chunk (sd_queue_capacity s) (sd_threads s) chunks p \<and>
        po_processed p = chunks \<and> po_owner p \<noteq> Finished \<and> \<not> (\<exists>p'. pool_step wakeup_chunk p p')"
    by auto
qed

definition sample_options :: "nat \<Rightarrow> hasher_options" where
  "sample_options m =
     \<lparr>ho_protocol = protocol_v1, ho_checksums = [], ho_min_io_block_size = None, ho_max_memory = Some m,
      ho_multi_buffer = True, ho_threads = 8\<rparr>"

theorem memory_limit_decides_deadlock_witness:
  "\<exists>s p. storage_hasher_new False (\<lambda>_. []) (rooted_storage 3) (sample_options 3000000) = Inr s \<and>
    pool_reachable_from wakeup_chunk (sd_queue_capacity s) 8 [] p \<and>
    po_owner p \<noteq> Finished \<and> \<not> (\<exists>p'. pool_step wakeup_chunk p p')"
proof -
  obtain s where s: "storage_hasher_new False (\<lambda>_. []) (rooted_storage 3) (sample_options 3000000) = Inr s"
      "sd_io_block_size s = 1048576" "sd_threads s = 8"
    by (simp add: storage_hasher_new_def sample_options_def io_block_size_def queue_capacity_def driver_of_def
        expects_def single_bit_16K Let_def)
  from memory_limit_decides_deadlock [OF s(1), of "[]"] s(2,3)
  have "\<exists>p. pool_reachable_from wakeup_chunk (sd_queue_capacity s) 8 [] p \<and> po_processed p = [] \<and>
      po_owner p \<noteq> Finished \<and> \<not> (\<exists>p'. pool_step wakeup_chunk p p')"
    by (simp add: sample_options_def size_bound_def)
  with s(1) show ?thesis by blast
qed

section \<open>Order of the shutdown\<close>

fun feeds :: "stage \<Rightarrow> stage \<Rightarrow> bool" where
  "feeds Stage_Reader Stage_Hasher = True"
| "feeds Stage_Reader (Stage_Checksums i) = True"
| "feeds Stage_Hasher Stage_Results = True"
| "feeds _ _ = False"

text \<open>No stage is told to stop before every stage that feeds it has been waited for.\<close>

definition orderly :: "stage_call list \<Rightarrow> bool" where
  "orderly cs \<longleftrightarrow> (\<forall>i x y. i < length cs \<longrightarrow> cs ! i = Call_Request_Stop x \<longrightarrow> feeds y x \<longrightarrow> Call_Wait y \<in> set (take i cs))"

lemma orderly_append:
  assumes "orderly as" "\<And>x y. Call_Request_Stop x \<in> set bs \<Longrightarrow> feeds y x \<Longrightarrow> Call_Wait y \<in> set as"
  shows "orderly (as @ bs)"
  unfolding orderly_def
proof (intro allI impI)
  fix i x y assume i: "i < length (as @ bs)" "(as @ bs) ! i = Call_Request_Stop x" "feeds y x"
  show "Call_Wait y \<in> set (take i (as @ bs))"
  proof (cases "i < length as")
    case True
    with i assms(1) show ?thesis by (simp add: orderly_def nth_append)
  next
    case False
    with i have "bs ! (i - length as) = Call_Request_Stop x" "i - length as < length bs"
      by (auto simp: nth_append)
    then have "Call_Request_Stop x \<in> set bs" by (metis nth_mem)
    from assms(2) [OF this i(3)] False show ?thesis by simp
  qed
qed

lemma orderly_no_stops: "(\<And>x. Call_Request_Stop x \<notin> set cs) \<Longrightarrow> orderly cs"
  unfolding orderly_def by (metis nth_mem)

text \<open>
  C24: A storage hasher that is started and waited for waits for every stage it started, never tells a
  stage to stop while a stage that feeds it may still push, is done afterwards, and refuses to be waited
  for, started or cancelled again.
\<close>

theorem storage_hasher_shutdown:
  assumes "storage_hasher_new isal decimal st opts = Inr s0" "storage_hasher_start isal s0 = Inr s1"
  shows "\<exists>s2. storage_hasher_wait s1 = Inr s2 \<and> driver_done s2 \<and> orderly (sd_calls s2) \<and>
    (\<forall>x. Call_Start x \<in> set (sd_calls s2) \<longleftrightarrow> Call_Wait x \<in> set (sd_calls s2)) \<and>
    storage_hasher_wait s2 = Inl Runtime_Error \<and> storage_hasher_cancel s2 = Inl Runtime_Error \<and>
    storage_hasher_start isal s2 = Inl Runtime_Error \<and> storage_hasher_start isal s1 = Inl Terminated"
proof -
  have s0: "\<not> sd_started s0" "\<not> sd_stopped s0" "\<not> sd_cancelled s0" "sd_calls s0 = []"
    using assms(1) by (auto simp: storage_hasher_new_def Let_def result_simps driver_of_def split: if_splits)
  let ?n = "length (sd_checksums s0)"
  let ?chk = "\<lambda>f. map (\<lambda>i. f (Stage_Checksums i)) [0..<?n] :: stage_call list"
  obtain g r where s1: "s1 = call_stages ([Call_Start Stage_Results, Call_Start Stage_Hasher] @ ?chk Call_Start @ [Call_Start Stage_Reader])
      (s0\<lparr>sd_stages := Some g, sd_started := True\<rparr>)" "sg_checksums g = sd_checksums s0"
    "reader_new (sd_storage s0) (sd_io_block_size s0) (sd_queue_capacity s0) = Inr r"
    using assms(2) s0 by (auto simp: storage_hasher_start_def Let_def result_simps)
  define s2 where "s2 = call_stages ([Call_Wait Stage_Reader, Call_Request_Stop Stage_Hasher] @ ?chk Call_Request_Stop
      @ [Call_Wait Stage_Hasher] @ ?chk Call_Wait @ [Call_Request_Stop Stage_Results, Call_Wait Stage_Results])
      (s1\<lparr>sd_stopped := True\<rparr>)"
  have wait: "storage_hasher_wait s1 = Inr s2"
    using s0 s1(1,2) by (simp add: storage_hasher_wait_def driver_done_def call_stages_def checksum_calls_def s2_def)
  define as where "as = [Call_Start Stage_Results, Call_Start Stage_Hasher] @ ?chk Call_Start @ [Call_Start Stage_Reader, Call_Wait Stage_Reader]"
  define bs where "bs = [Call_Request_Stop Stage_Hasher] @ ?chk Call_Request_Stop @ [Call_Wait Stage_Hasher] @ ?chk Call_Wait"
  have calls: "sd_calls s2 = (as @ bs) @ [Call_Request_Stop Stage_Results, Call_Wait Stage_Results]"
    using s0 by (simp add: s2_def s1(1) call_stages_def as_def bs_def)
  have feeds: "feeds y Stage_Hasher \<longleftrightarrow> y = Stage_Reader" "feeds y (Stage_Checksums i) \<longleftrightarrow> y = Stage_Reader"
    "feeds y Stage_Results \<longleftrightarrow> y = Stage_Hasher" for y i
    by (cases y; simp)+
  have "orderly as" by (rule orderly_no_stops) (auto simp: as_def)
  then have "orderly (as @ bs)" by (rule orderly_append) (auto simp: feeds as_def bs_def)
  then have orderly: "orderly (sd_calls s2)"
    unfolding calls by (rule orderly_append) (auto simp: feeds bs_def)
  have "(Call_Start x \<in> set (sd_calls s2)) = (Call_Wait x \<in> set (sd_calls s2))" for x
    unfolding calls as_def bs_def by auto
  moreover have "driver_done s2" using s0 by (simp add: s2_def s1(1) call_stages_def driver_done_def)
  moreover have "storage_hasher_wait s2 = Inl Runtime_Error"
    using \<open>driver_done s2\<close> by (cases "sd_started s2") (simp_all add: storage_hasher_wait_def)
  moreover have "storage_hasher_start isal s1 = Inl Terminated"
    using s0 s1 by (simp add: storage_hasher_start_def call_stages_def driver_done_def)
  ultimately show ?thesis
    using wait orderly by (auto simp: storage_hasher_cancel_def storage_hasher_start_def)
qed


lemma sample_hasher_session:
  "\<exists>s0 s1 s2. storage_hasher_new False (\<lambda>_. []) (rooted_storage 3) (sample_options 3000000) = Inr s0 \<and>
    sd_calls s0 = [] \<and> storage_hasher_start False s0 = Inr s1 \<and> storage_hasher_wait s1 = Inr s2"
proof -
  obtain s0 where s0: "storage_hasher_new False (\<lambda>_. []) (rooted_storage 3) (sample_options 3000000) = Inr s0"
      "sd_io_block_size s0 = 1048576" "sd_threads s0 = 8" "sd_queue_capacity s0 = 4" "sd_protocol s0 = protocol_v1"
      "sd_storage s0 = st_allocate_pieces (rooted_storage 3)" "\<not> sd_started s0" "\<not> driver_done s0" "sd_calls s0 = []"
      "\<not> sd_stopped s0"
    by (simp add: storage_hasher_new_def sample_options_def io_block_size_def queue_capacity_def driver_of_def
        expects_def single_bit_16K Let_def driver_done_def)
  moreover have "\<exists>r. reader_new (st_allocate_pieces (rooted_storage 3)) 1048576 4 = Inr r"
    by (simp add: reader_new_def expects_def KiB_def size_mul_def size_bound_def single_bit_16K st_allocate_pieces_def)
  ultimately obtain s1 where s1: "storage_hasher_start False s0 = Inr s1"
    by (auto simp: storage_hasher_start_def Let_def)
  moreover from s1 s0 have "sd_started s1" "\<not> driver_done s1"
    by (auto simp: storage_hasher_start_def Let_def result_simps call_stages_def driver_done_def)
  then have "\<exists>s2. storage_hasher_wait s1 = Inr s2" by (simp add: storage_hasher_wait_def)
  ultimately show ?thesis using s0 by blast
qed

theorem storage_hasher_shutdown_witness:
  "\<exists>s0 s1 s2. storage_hasher_new False (\<lambda>_. []) (rooted_storage 3) (sample_options 3000000) = Inr s0 \<and>
    storage_hasher_start False s0 = Inr s1 \<and> storage_hasher_wait s1 = Inr s2 \<and> driver_done s2"
  using sample_hasher_session storage_hasher_shutdown by blast

definition one_file_v2 :: file_storage where
  "one_file_v2 = (sample_storage 16384 [1])\<lparr>st_files := [(sample_entry_of ''f'' 1)\<lparr>fe_has_v2_data := True\<rparr>]\<rparr>"

lemma one_file_v2_simps [simp]:
  "st_piece_size one_file_v2 = 16384" "st_file_count one_file_v2 = 1" "compat_padded one_file_v2 0 = Inr False"
  "\<exists>v. v2_verifier_new one_file_v2 = Inr v"
proof -
  have "block_count_of ((sample_entry_of ''f'' 1)\<lparr>fe_has_v2_data := True\<rparr>) = 1"
    by (simp add: block_count_of_def sample_entry_of_def size_add_def size_sub_def size_bound_def ceil_div_def)
  then have "v2v_add_entry ((sample_entry_of ''f'' 1)\<lparr>fe_has_v2_data := True\<rparr>) ([], [0])
      = Inr ([replicate (2 ^ Suc (log2_ceil 1) - 1) (hash_zero 32)], [0, 1])"
    by (simp add: v2v_add_entry_def set_leaf_nodes_ok(1) fe_is_padding_file_def fe_has_attribute_def
        sample_entry_of_def fe_get_piece_layer_def size_add_def size_bound_def size_max_def)
  then show "\<exists>v. v2_verifier_new one_file_v2 = Inr v"
    by (simp add: v2_verifier_new_def one_file_v2_def v2v_piece_map_size_def fe_is_padding_file_def
        fe_has_attribute_def sample_entry_of_def fe_get_piece_layer_def u32_def Let_def)
qed (simp_all add: one_file_v2_def st_file_count_def compat_padded_def size_sub_def size_bound_def)

theorem verify_hybrid_multi_buffer_fails_witness:
  "\<exists>s s' g. storage_verifier_new True one_file_v2 ((sample_options 300000)\<lparr>ho_protocol := protocol_hybrid\<rparr>) = Inr s \<and>
    storage_verifier_start True s = Inr s' \<and> sd_stages s' = Some g \<and>
    hash_first_chunk (take 2) (take 1) g one_file_v2 \<lparr>dc_piece_index = 0, dc_file_index = 0, dc_data = Some [7]\<rparr> = Inl Contract"
proof -
  let ?opts = "(sample_options 300000)\<lparr>ho_protocol := protocol_hybrid\<rparr>"
  obtain s where s: "storage_verifier_new True one_file_v2 ?opts = Inr s" "sd_protocol s = protocol_hybrid"
      "sd_storage s = one_file_v2" "sd_io_block_size s = 262144" "sd_queue_capacity s = 4" "sd_threads s = 8"
      "\<not> sd_started s" "\<not> driver_done s"
    by (simp add: storage_verifier_new_def sample_options_def io_block_size_def queue_capacity_def driver_of_def
        expects_def single_bit_16K Let_def driver_done_def size_mul_def size_bound_def)
  moreover have "\<exists>r. reader_new one_file_v2 262144 4 = Inr r"
    by (simp add: reader_new_def expects_def KiB_def size_mul_def size_bound_def single_bit_16K)
  moreover obtain v where "v2_verifier_new one_file_v2 = Inr v" using one_file_v2_simps(4) by blast
  ultimately obtain s' g where s': "storage_verifier_start True s = Inr s'" "sd_stages s' = Some g"
    by (auto simp: storage_verifier_start_def Let_def call_stages_def)
  from verify_hybrid_multi_buffer_fails [OF s(1,2) s', of "\<lparr>dc_piece_index = 0, dc_file_index = 0, dc_data = Some [7]\<rparr>" "[7]" False "take 2" "take 1"]
  have "hash_first_chunk (take 2) (take 1) g one_file_v2 \<lparr>dc_piece_index = 0, dc_file_index = 0, dc_data = Some [7]\<rparr> = Inl Contract"
    by (simp add: sample_options_def)
  with s(1) s' show ?thesis by blast
qed

text \<open>
  The verifier ends in the same order, and it can only be destroyed after it was waited for or cancelled: the
  destructor refuses a verifier that was never started.
\<close>

theorem storage_verifier_shutdown:
  assumes "storage_verifier_new isal st opts = Inr s0" "storage_verifier_start isal s0 = Inr s1"
    "stop = storage_verifier_wait \<or> stop = storage_verifier_cancel"
  shows "\<exists>s2. stop s1 = Inr s2 \<and> driver_done s2 \<and> orderly (sd_calls s2) \<and>
    (\<forall>x. Call_Start x \<in> set (sd_calls s2) \<longleftrightarrow> Call_Wait x \<in> set (sd_calls s2)) \<and>
    storage_verifier_destroy s2 = Inr () \<and> storage_verifier_destroy s1 = Inl Terminated \<and>
    storage_verifier_destroy s0 = Inl Contract \<and> storage_verifier_start isal s2 = Inl Runtime_Error"
proof -
  have s0: "\<not> sd_started s0" "\<not> sd_stopped s0" "\<not> sd_cancelled s0" "sd_calls s0 = []"
    using assms(1) by (auto simp: storage_verifier_new_def Let_def result_simps driver_of_def)
  let ?starts = "[Call_Start Stage_Results, Call_Start Stage_Hasher, Call_Start Stage_Reader]"
  obtain g where s1: "s1 = call_stages ?starts (s0\<lparr>sd_stages := Some g, sd_started := True\<rparr>)"
    using assms(2) s0 by (auto simp: storage_verifier_start_def Let_def result_simps)
  have fed: "feeds y Stage_Hasher \<longleftrightarrow> y = Stage_Reader" "feeds y Stage_Results \<longleftrightarrow> y = Stage_Hasher" for y
    by (cases y; simp)+
  have "orderly (?starts @ [Call_Wait Stage_Reader])" by (rule orderly_no_stops) auto
  then have "orderly ((?starts @ [Call_Wait Stage_Reader]) @ [Call_Request_Stop Stage_Hasher, Call_Wait Stage_Hasher])"
    by (rule orderly_append) (auto simp: fed)
  then have "orderly (((?starts @ [Call_Wait Stage_Reader]) @ [Call_Request_Stop Stage_Hasher, Call_Wait Stage_Hasher])
      @ [Call_Request_Stop Stage_Results, Call_Wait Stage_Results])"
    by (rule orderly_append) (auto simp: fed)
  moreover have "orderly (?starts @ [Call_Request_Cancellation Stage_Reader, Call_Request_Cancellation Stage_Hasher,
      Call_Request_Cancellation Stage_Results, Call_Wait Stage_Reader, Call_Wait Stage_Hasher, Call_Wait Stage_Results])"
    by (rule orderly_no_stops) auto
  ultimately show ?thesis
    using assms(3) s0
    by (elim disjE)
      (auto simp: storage_verifier_wait_def storage_verifier_cancel_def storage_verifier_destroy_def s1 call_stages_def
        driver_done_def storage_verifier_start_def)
qed

section \<open>Correct progress\<close>

lemma inclusive_scan_sums:
  assumes "a + sum_list (map f es) < size_bound"
  shows "inclusive_scan f a es = map (\<lambda>i. a + sum_list (map f (take (Suc i) es))) [0..<length es]"
  using assms
proof (induction es arbitrary: a)
  case (Cons e es)
  then have "size_add a (f e) = a + f e" by (intro size_add_exact) simp
  with Cons.IH [of "a + f e"] Cons.prems show ?case
    by (simp add: upt_conv_Cons map_Suc_upt [symmetric] add.assoc comp_def del: upt_Suc)
qed simp




end
