(* ===== verification/Bencode_Values.thy ===== *)
theory Bencode_Values
  imports Ordered_Map Hashes
begin

text \<open>
  Bencode values as the library uses them. The bencode library is not part of the repository,
  so its value type is a type variable and its operations are the fields of a record that the
  model passes along. \<open>bencode_laws\<close> is what its documentation promises: an accessor reads back
  what the constructor of its kind stored, and refuses a value of another kind with
  \<^verbatim>\<open>bad_access\<close>. \<open>sample_lib\<close> is an instance for the witnesses.
\<close>

section \<open>The interface of the library\<close>

text \<open>
  \<^verbatim>\<open>get_integer\<close>, \<^verbatim>\<open>get_string\<close>, \<^verbatim>\<open>get_list\<close> and \<^verbatim>\<open>get_dict\<close> are optional results, \<open>None\<close> when the
  value is of another kind; \<^verbatim>\<open>get_as<std::string_view>\<close> has an error of its own.
  \<open>bc_of_bytes\<close> is the conversion of a span of bytes.
\<close>

record 'b bencode =
  bc_integer :: "'b \<Rightarrow> int option"
  bc_string :: "'b \<Rightarrow> string option"
  bc_list :: "'b \<Rightarrow> 'b list option"
  bc_dict :: "'b \<Rightarrow> 'b omap option"
  bc_as_string :: "'b \<Rightarrow> string result"
  bc_of_integer :: "int \<Rightarrow> 'b"
  bc_of_string :: "string \<Rightarrow> 'b"
  bc_of_list :: "'b list \<Rightarrow> 'b"
  bc_of_dict :: "'b omap \<Rightarrow> 'b"
  bc_of_bytes :: "hash \<Rightarrow> 'b"

definition holds_dict :: "'b bencode \<Rightarrow> 'b \<Rightarrow> bool" where
  "holds_dict B v \<longleftrightarrow> bc_dict B v \<noteq> None"

definition holds_list :: "'b bencode \<Rightarrow> 'b \<Rightarrow> bool" where
  "holds_list B v \<longleftrightarrow> bc_list B v \<noteq> None"

definition accessed :: "'a option \<Rightarrow> 'a result" where
  "accessed x = (case x of Some a \<Rightarrow> Inr a | None \<Rightarrow> Inl Bad_Access)"

definition get_integer :: "'b bencode \<Rightarrow> 'b \<Rightarrow> int result" where
  "get_integer B v = accessed (bc_integer B v)"

definition get_string :: "'b bencode \<Rightarrow> 'b \<Rightarrow> string result" where
  "get_string B v = accessed (bc_string B v)"

definition get_list :: "'b bencode \<Rightarrow> 'b \<Rightarrow> 'b list result" where
  "get_list B v = accessed (bc_list B v)"

definition get_dict :: "'b bencode \<Rightarrow> 'b \<Rightarrow> 'b omap result" where
  "get_dict B v = accessed (bc_dict B v)"

text \<open>\<^verbatim>\<open>at\<close> of a dictionary.\<close>

definition dict_at :: "'b omap \<Rightarrow> string \<Rightarrow> 'b result" where
  "dict_at d k = (case om_find d k of Some v \<Rightarrow> Inr v | None \<Rightarrow> Inl Out_Of_Range)"

text \<open>\<^verbatim>\<open>catch (bad_access&) { throw parse_error(key, ...) }\<close>.\<close>

definition access_guard :: "string \<Rightarrow> 'a result \<Rightarrow> 'a result" where
  "access_guard key m = (case m of Inl e \<Rightarrow> Inl (if e = Bad_Access then Parse_Error key else e) | Inr x \<Rightarrow> Inr x)"

text \<open>An integer of the library is a 64-bit signed one.\<close>

definition int64 :: "int \<Rightarrow> bool" where
  "int64 i \<longleftrightarrow> - (2 ^ 63) \<le> i \<and> i < 2 ^ 63"

definition bencode_laws :: "'b bencode \<Rightarrow> bool" where
  "bencode_laws B \<longleftrightarrow>
     (\<forall>i. int64 i \<longrightarrow> bc_integer B (bc_of_integer B i) = Some i \<and> bc_string B (bc_of_integer B i) = None \<and>
          bc_list B (bc_of_integer B i) = None \<and> bc_dict B (bc_of_integer B i) = None) \<and>
     (\<forall>s. bc_string B (bc_of_string B s) = Some s \<and> bc_integer B (bc_of_string B s) = None \<and>
          bc_list B (bc_of_string B s) = None \<and> bc_dict B (bc_of_string B s) = None \<and>
          bc_as_string B (bc_of_string B s) = Inr s) \<and>
     (\<forall>xs. bc_list B (bc_of_list B xs) = Some xs \<and> bc_integer B (bc_of_list B xs) = None \<and>
          bc_string B (bc_of_list B xs) = None \<and> bc_dict B (bc_of_list B xs) = None) \<and>
     (\<forall>d. bc_dict B (bc_of_dict B d) = Some d \<and> bc_integer B (bc_of_dict B d) = None \<and>
          bc_string B (bc_of_dict B d) = None \<and> bc_list B (bc_of_dict B d) = None) \<and>
     (\<forall>bs. bc_of_bytes B bs = bc_of_string B (string_of_bytes bs))"

named_theorems bencode_simps "reading back what was stored"

lemma bencode_laws_simps [bencode_simps]:
  assumes "bencode_laws B"
  shows "int64 i \<Longrightarrow> bc_integer B (bc_of_integer B i) = Some i" "bc_string B (bc_of_string B s) = Some s"
    "bc_list B (bc_of_list B xs) = Some xs" "bc_dict B (bc_of_dict B d) = Some d"
    "bc_as_string B (bc_of_string B s) = Inr s"
    "bc_of_bytes B bs = bc_of_string B (string_of_bytes bs)"
  using assms by (simp_all add: bencode_laws_def)

lemma accessed_simps [simp]:
  "accessed (Some a) = Inr a" "accessed None = Inl Bad_Access"
  "accessed x = Inr y \<longleftrightarrow> x = Some y" "accessed x = Inl e \<longleftrightarrow> x = None \<and> e = Bad_Access"
  by (auto simp: accessed_def split: option.splits)

lemma get_of_simps [bencode_simps]:
  assumes "bencode_laws B"
  shows "int64 i \<Longrightarrow> get_integer B (bc_of_integer B i) = Inr i" "get_string B (bc_of_string B s) = Inr s"
    "get_list B (bc_of_list B xs) = Inr xs" "get_dict B (bc_of_dict B d) = Inr d"
    "holds_dict B (bc_of_dict B d)" "holds_list B (bc_of_list B xs)"
  using bencode_laws_simps [OF assms]
  by (simp_all add: get_integer_def get_string_def get_list_def get_dict_def holds_dict_def holds_list_def)

lemma access_guard_simps [simp]:
  "access_guard k (Inr x) = Inr x"
  "access_guard k (Inl e) = Inl (if e = Bad_Access then Parse_Error k else e)"
  "access_guard k m = Inr x \<longleftrightarrow> m = Inr x"
  by (auto simp: access_guard_def split: sum.splits)

text \<open>
  A \<^verbatim>\<open>std::size_t\<close> stored as an integer of the library and read back: both conversions are
  modulo \<open>2 ^ 64\<close>, so every size survives.
\<close>

definition integer_of_size :: "nat \<Rightarrow> int" where
  "integer_of_size n = (if n mod size_bound < 2 ^ 63 then int (n mod size_bound)
     else int (n mod size_bound) - 2 ^ 64)"

definition size_of_integer :: "int \<Rightarrow> nat" where
  "size_of_integer i = nat (i mod 2 ^ 64)"

lemma int64_of_size [simp]: "int64 (integer_of_size n)"
proof -
  have "int (n mod size_bound) < 2 ^ 64" by (simp add: size_bound_def of_nat_mod)
  then show ?thesis by (auto simp: int64_def integer_of_size_def)
qed

lemma size_of_integer_of_size [simp]: "n < size_bound \<Longrightarrow> size_of_integer (integer_of_size n) = n"
  by (simp add: integer_of_size_def size_of_integer_def size_bound_def)

lemma int64_small [simp]:
  "int64 0" "int64 1" "int64 2" "int64 (uint (p :: 16 word))"
proof -
  have "- (2 ^ 63) \<le> uint p" by (rule order_trans [of _ 0]) simp_all
  moreover have "uint p < 2 ^ 63" using uint_lt2p [of p] by simp
  ultimately show "int64 (uint p)" by (simp add: int64_def)
qed (simp_all add: int64_def)

section \<open>An instance\<close>

datatype sample_value =
    Sample_Integer int
  | Sample_String string
  | Sample_List "sample_value list"
  | Sample_Dict "(string \<times> sample_value) list"

definition sample_lib :: "sample_value bencode" where
  "sample_lib =
     \<lparr>bc_integer = (\<lambda>v. case v of Sample_Integer i \<Rightarrow> Some i | _ \<Rightarrow> None),
      bc_string = (\<lambda>v. case v of Sample_String s \<Rightarrow> Some s | _ \<Rightarrow> None),
      bc_list = (\<lambda>v. case v of Sample_List xs \<Rightarrow> Some xs | _ \<Rightarrow> None),
      bc_dict = (\<lambda>v. case v of Sample_Dict d \<Rightarrow> Some d | _ \<Rightarrow> None),
      bc_as_string = (\<lambda>v. case v of Sample_String s \<Rightarrow> Inr s | _ \<Rightarrow> Inl Bad_Access),
      bc_of_integer = Sample_Integer, bc_of_string = Sample_String, bc_of_list = Sample_List,
      bc_of_dict = Sample_Dict, bc_of_bytes = (\<lambda>bs. Sample_String (string_of_bytes bs))\<rparr>"

lemma sample_laws: "bencode_laws sample_lib"
  by (simp add: bencode_laws_def sample_lib_def)

end
