(* ===== verification/Metafile.thy ===== *)
theory Metafile
  imports Bencode_Values Info_Hash Announce File_Storage
begin

text \<open>
  The metafile class (\<^verbatim>\<open>metafile.hpp\<close>, the class part of \<^verbatim>\<open>metafile.cpp\<close>) and DHT nodes
  (\<^verbatim>\<open>dht_node.hpp\<close>): the fields of a torrent and the operations that edit them. Unordered sets
  are sets. The fields of the info dictionary the library does not know keep their bencode
  value, so the record has the type of bencode values as a parameter.
\<close>

section \<open>DHT nodes\<close>

record dht_node =
  dn_url :: string
  dn_port :: "16 word"

definition dht_node_make :: "string \<Rightarrow> 16 word \<Rightarrow> dht_node" where
  "dht_node_make url port = \<lparr>dn_url = url, dn_port = port\<rparr>"

text \<open>\<open>decimal\<close> stands for the formatting library's conversion of a number.\<close>

definition dht_node_string :: "(nat \<Rightarrow> string) \<Rightarrow> dht_node \<Rightarrow> string" where
  "dht_node_string decimal n = dn_url n @ '':'' @ decimal (unat (dn_port n))"

section \<open>The class\<close>

record 'b metafile =
  mf_protocol :: protocol
  mf_storage :: file_storage
  mf_trackers :: announce_url_list
  mf_http_seeds :: "string list"
  mf_web_seeds :: "string list"
  mf_dht_nodes :: "dht_node list"
  mf_name :: string
  mf_comment :: string
  mf_creation_seconds :: nat
  mf_created_by :: string
  mf_private :: bool
  mf_source :: string
  mf_cross_seeding :: bool
  mf_other_info_fields :: "'b omap"
  mf_similar_torrents :: "info_hash set"
  mf_collections :: "string set"

text \<open>\<^verbatim>\<open>metafile m{}\<close> zeroes the object before the members' own constructors run.\<close>

definition mf_empty :: "'b metafile" where
  "mf_empty =
     \<lparr>mf_protocol = protocol_none, mf_storage = st_new False, mf_trackers = [], mf_http_seeds = [],
      mf_web_seeds = [], mf_dht_nodes = [], mf_name = [], mf_comment = [], mf_creation_seconds = 0,
      mf_created_by = [], mf_private = False, mf_source = [], mf_cross_seeding = False,
      mf_other_info_fields = [], mf_similar_torrents = {}, mf_collections = {}\<rparr>"

subsection \<open>Trackers\<close>

definition add_tracker_to :: "announce_url \<Rightarrow> announce_url_list \<Rightarrow> announce_url_list result" where
  "add_tracker_to announce xs =
     rbind (expects (au_tier announce \<le> tier_count xs)) (\<lambda>_.
       let it = announce_find_url xs (au_url announce)
       in if it \<noteq> length xs
          then (if au_tier (xs ! it) \<noteq> au_tier announce
                then let old = xs ! it in rbind (announce_insert announce xs) (announce_erase old)
                else Inr xs)
          else announce_insert announce xs)"

definition mf_add_tracker :: "announce_url \<Rightarrow> 'b metafile \<Rightarrow> 'b metafile result" where
  "mf_add_tracker announce m =
     rbind (add_tracker_to announce (mf_trackers m)) (\<lambda>xs. Inr (m\<lparr>mf_trackers := xs\<rparr>))"

definition mf_add_tracker_url :: "string \<Rightarrow> nat option \<Rightarrow> 'b metafile \<Rightarrow> 'b metafile result" where
  "mf_add_tracker_url url tier m =
     mf_add_tracker (Announce_Url url (case tier of Some t \<Rightarrow> t | None \<Rightarrow> tier_count (mf_trackers m))) m"

definition mf_remove_tracker :: "announce_url \<Rightarrow> 'b metafile \<Rightarrow> 'b metafile result" where
  "mf_remove_tracker announce m =
     rbind (announce_erase announce (mf_trackers m)) (\<lambda>xs. Inr (m\<lparr>mf_trackers := xs\<rparr>))"

definition mf_remove_tracker_url :: "string \<Rightarrow> nat option \<Rightarrow> 'b metafile \<Rightarrow> 'b metafile result" where
  "mf_remove_tracker_url url tier m =
     (case tier of
        None \<Rightarrow>
          (let it = announce_find_url (mf_trackers m) url
           in if it \<noteq> length (mf_trackers m)
              then rbind (announce_erase_at it (mf_trackers m)) (\<lambda>xs. Inr (m\<lparr>mf_trackers := xs\<rparr>))
              else Inr m)
      | Some t \<Rightarrow> mf_remove_tracker (Announce_Url url t) m)"

definition mf_clear_trackers :: "'b metafile \<Rightarrow> 'b metafile" where
  "mf_clear_trackers m = m\<lparr>mf_trackers := []\<rparr>"

subsection \<open>Seeds and nodes\<close>

text \<open>The lists of seeds and nodes add an element once and remove the first one equal to it.\<close>

definition add_unique :: "'a \<Rightarrow> 'a list \<Rightarrow> 'a list" where
  "add_unique x xs = (if find_index (\<lambda>y. y = x) xs = length xs then xs @ [x] else xs)"

definition remove_found :: "'a \<Rightarrow> 'a list \<Rightarrow> 'a list" where
  "remove_found x xs =
     (let it = find_index (\<lambda>y. y = x) xs
      in if it \<noteq> length xs then take it xs @ drop (Suc it) xs else xs)"

definition mf_add_http_seed :: "string \<Rightarrow> 'b metafile \<Rightarrow> 'b metafile" where
  "mf_add_http_seed url m = m\<lparr>mf_http_seeds := add_unique url (mf_http_seeds m)\<rparr>"

definition mf_remove_http_seed :: "string \<Rightarrow> 'b metafile \<Rightarrow> 'b metafile" where
  "mf_remove_http_seed url m = m\<lparr>mf_http_seeds := remove_found url (mf_http_seeds m)\<rparr>"

definition mf_clear_http_seeds :: "'b metafile \<Rightarrow> 'b metafile" where
  "mf_clear_http_seeds m = m\<lparr>mf_http_seeds := []\<rparr>"

definition mf_add_web_seed :: "string \<Rightarrow> 'b metafile \<Rightarrow> 'b metafile" where
  "mf_add_web_seed url m = m\<lparr>mf_web_seeds := add_unique url (mf_web_seeds m)\<rparr>"

definition mf_remove_web_seed :: "string \<Rightarrow> 'b metafile \<Rightarrow> 'b metafile" where
  "mf_remove_web_seed url m = m\<lparr>mf_web_seeds := remove_found url (mf_web_seeds m)\<rparr>"

definition mf_clear_web_seeds :: "'b metafile \<Rightarrow> 'b metafile" where
  "mf_clear_web_seeds m = m\<lparr>mf_web_seeds := []\<rparr>"

definition mf_add_dht_node :: "dht_node \<Rightarrow> 'b metafile \<Rightarrow> 'b metafile" where
  "mf_add_dht_node node m = m\<lparr>mf_dht_nodes := add_unique node (mf_dht_nodes m)\<rparr>"

definition mf_add_dht_node_url :: "string \<Rightarrow> 16 word \<Rightarrow> 'b metafile \<Rightarrow> 'b metafile" where
  "mf_add_dht_node_url url port m = mf_add_dht_node (dht_node_make url port) m"

definition mf_remove_dht_node :: "string \<Rightarrow> 16 word \<Rightarrow> 'b metafile \<Rightarrow> 'b metafile" where
  "mf_remove_dht_node url port m =
     m\<lparr>mf_dht_nodes := remove_found (dht_node_make url port) (mf_dht_nodes m)\<rparr>"

definition mf_clear_dht_nodes :: "'b metafile \<Rightarrow> 'b metafile" where
  "mf_clear_dht_nodes m = m\<lparr>mf_dht_nodes := []\<rparr>"

subsection \<open>Scalars and sets\<close>

definition mf_set_name :: "string \<Rightarrow> 'b metafile \<Rightarrow> 'b metafile" where
  "mf_set_name s m = m\<lparr>mf_name := s\<rparr>"

definition mf_set_comment :: "string \<Rightarrow> 'b metafile \<Rightarrow> 'b metafile" where
  "mf_set_comment s m = m\<lparr>mf_comment := s\<rparr>"

definition mf_set_created_by :: "string \<Rightarrow> 'b metafile \<Rightarrow> 'b metafile" where
  "mf_set_created_by s m = m\<lparr>mf_created_by := s\<rparr>"

text \<open>
  The clock counts nanoseconds in 64 bits, so a time further than \<open>2 ^ 63\<close> of them from the epoch
  overflows when it is converted. The count of seconds is kept unsigned and read back signed.
\<close>

definition mf_set_creation_date :: "int \<Rightarrow> 'b metafile \<Rightarrow> 'b metafile result" where
  "mf_set_creation_date time m =
     (if int64 (time * 10 ^ 9) then Inr (m\<lparr>mf_creation_seconds := size_of_integer time\<rparr>)
      else Inl Undefined)"

definition mf_creation_date :: "'b metafile \<Rightarrow> int" where
  "mf_creation_date m = integer_of_size (mf_creation_seconds m)"

definition mf_add_similar_torrent :: "info_hash \<Rightarrow> 'b metafile \<Rightarrow> 'b metafile" where
  "mf_add_similar_torrent h m = m\<lparr>mf_similar_torrents := insert h (mf_similar_torrents m)\<rparr>"

definition mf_remove_similar_torrent :: "info_hash \<Rightarrow> 'b metafile \<Rightarrow> 'b metafile" where
  "mf_remove_similar_torrent h m = m\<lparr>mf_similar_torrents := mf_similar_torrents m - {h}\<rparr>"

definition mf_clear_similar_torrents :: "'b metafile \<Rightarrow> 'b metafile" where
  "mf_clear_similar_torrents m = m\<lparr>mf_similar_torrents := {}\<rparr>"

definition mf_add_collection :: "string \<Rightarrow> 'b metafile \<Rightarrow> 'b metafile" where
  "mf_add_collection c m = m\<lparr>mf_collections := insert c (mf_collections m)\<rparr>"

definition mf_remove_collection :: "string \<Rightarrow> 'b metafile \<Rightarrow> 'b metafile" where
  "mf_remove_collection c m = m\<lparr>mf_collections := mf_collections m - {c}\<rparr>"

definition mf_clear_collections :: "'b metafile \<Rightarrow> 'b metafile" where
  "mf_clear_collections m = m\<lparr>mf_collections := {}\<rparr>"

definition mf_set_source :: "string \<Rightarrow> 'b metafile \<Rightarrow> 'b metafile" where
  "mf_set_source s m = m\<lparr>mf_source := s\<rparr>"

definition mf_enable_cross_seeding :: "bool \<Rightarrow> 'b metafile \<Rightarrow> 'b metafile" where
  "mf_enable_cross_seeding flag m = m\<lparr>mf_cross_seeding := flag\<rparr>"

definition mf_set_private :: "bool \<Rightarrow> 'b metafile \<Rightarrow> 'b metafile" where
  "mf_set_private flag m = m\<lparr>mf_private := flag\<rparr>"

definition mf_piece_size :: "'b metafile \<Rightarrow> nat" where
  "mf_piece_size m = st_piece_size (mf_storage m)"

definition mf_piece_count :: "'b metafile \<Rightarrow> nat" where
  "mf_piece_count m = st_piece_count (mf_storage m)"

definition mf_total_file_size :: "'b metafile \<Rightarrow> nat" where
  "mf_total_file_size m = st_total_file_size (mf_storage m)"

definition mf_total_regular_file_size :: "'b metafile \<Rightarrow> nat" where
  "mf_total_regular_file_size m = st_total_regular_file_size (mf_storage m)"

section \<open>Trackers stay well formed, each url once\<close>

definition trackers_ok :: "announce_url_list \<Rightarrow> bool" where
  "trackers_ok xs \<longleftrightarrow> announce_ok xs \<and> distinct (map au_url xs)"


lemma urls_flatten: "map au_url (flatten_from k n) = concat n"
  by (induction n arbitrary: k) (simp_all add: comp_def)

lemma urls_nested: "announce_ok xs \<Longrightarrow> map au_url xs = concat (as_nested_vector xs)"
  using flatten_as_nested(1) [of xs] urls_flatten [of 0 "as_nested_vector xs"] by simp

lemma mset_concat_insert: "t \<le> length n \<Longrightarrow> mset (concat (tiers_insert u t n)) = add_mset u (mset (concat n))"
proof -
  assume t: "t \<le> length n"
  have "image_mset au_url (mset (flatten_from 0 (tiers_insert u t n)))
      = add_mset u (image_mset au_url (mset (flatten_from 0 n)))"
    using mset_flatten_insert [OF t, of 0 u] by simp
  then show ?thesis by (metis mset_map urls_flatten)
qed

lemma mset_concat_erase:
  assumes "t < length n" "u \<in> set (n ! t)"
  shows "mset (concat n) = add_mset u (mset (concat (tiers_erase u t n)))"
proof -
  have "concat n = concat (take t n) @ n ! t @ concat (drop (Suc t) n)"
    using assms(1) by (metis concat.simps(2) concat_append id_take_nth_drop)
  moreover have "mset (n ! t) = add_mset u (mset (remove1 u (n ! t)))"
    using assms(2) by simp
  moreover have "concat (tiers_erase u t n) = concat (take t n) @ remove1 u (n ! t) @ concat (drop (Suc t) n)"
    using assms by (simp add: tiers_erase_def)
  ultimately show ?thesis by simp
qed

lemma find_url:
  "announce_find_url xs u = length xs \<longleftrightarrow> u \<notin> au_url ` set xs"
  "u \<in> au_url ` set xs \<Longrightarrow> announce_find_url xs u < length xs \<and> au_url (xs ! announce_find_url xs u) = u"
  unfolding announce_find_url_def find_index_def
  by (induction xs) auto

lemma add_tracker_fresh:
  "au_url a \<notin> au_url ` set xs \<Longrightarrow> add_tracker_to a xs = announce_insert a xs"
  by (simp add: add_tracker_to_def find_url announce_insert_def rbind_expects)

lemma add_tracker_known:
  assumes "trackers_ok xs" "Announce_Url u t0 \<in> set xs" "t \<le> tier_count xs"
  shows "add_tracker_to (Announce_Url u t) xs =
    (if t0 = t then Inr xs else rbind (announce_insert (Announce_Url u t) xs) (announce_erase (Announce_Url u t0)))"
proof -
  let ?i = "announce_find_url xs u"
  have "u \<in> au_url ` set xs" using assms(2) by force
  then have i: "?i < length xs" "au_url (xs ! ?i) = u" using find_url(2) by blast+
  then have "xs ! ?i \<in> set xs" "au_url (xs ! ?i) = au_url (Announce_Url u t0)" by simp_all
  then have "xs ! ?i = Announce_Url u t0"
    using assms(1,2) by (metis trackers_ok_def distinct_map inj_onD)
  with i assms(3) show ?thesis by (simp add: add_tracker_to_def Let_def)
qed

text \<open>The tier of a tracker in the nested form.\<close>

lemma tracker_in_nested:
  assumes "announce_ok xs"
  shows "Announce_Url u t \<in> set xs \<longleftrightarrow> t < tier_count xs \<and> u \<in> set (as_nested_vector xs ! t)"
  using flatten_from_tiers [of "Announce_Url u t" 0 "as_nested_vector xs"] flatten_as_nested [OF assms]
  by (simp add: as_nested_vector_def)

lemma add_tracker_moves:
  assumes ok: "trackers_ok xs" and t0: "Announce_Url u t0 \<in> set xs" and t: "t \<le> tier_count xs" "t0 \<noteq> t"
  shows "\<exists>ys. add_tracker_to (Announce_Url u t) xs = Inr ys \<and> announce_ok ys \<and>
    as_nested_vector ys = tiers_erase u t0 (tiers_insert u t (as_nested_vector xs)) \<and>
    mset (map au_url ys) = mset (map au_url xs)"
proof -
  let ?n = "as_nested_vector xs"
  have ann: "announce_ok xs" using ok by (simp add: trackers_ok_def)
  have tc: "tier_count xs = length ?n" by (simp add: as_nested_vector_def)
  obtain zs where zs: "announce_insert (Announce_Url u t) xs = Inr zs" "announce_ok zs"
      "as_nested_vector zs = tiers_insert u t ?n"
    using al.ins_tiers [OF ann, of "Announce_Url u t"] t(1) tc by auto
  obtain ys where ys: "announce_erase (Announce_Url u t0) zs = Inr ys" "announce_ok ys"
      "as_nested_vector ys = tiers_erase u t0 (as_nested_vector zs)"
    using al.del_tiers [OF zs(2), of "Announce_Url u t0"] by auto
  have n0: "t0 < length ?n" "u \<in> set (?n ! t0)"
    using t0 tracker_in_nested [OF ann] tc by simp_all
  then have "t0 < length (tiers_insert u t ?n)" "u \<in> set (tiers_insert u t ?n ! t0)"
    using t(2) by (simp_all add: tiers_insert_def nth_append)
  from mset_concat_erase [OF this] mset_concat_insert [of t ?n u]
  have "mset (concat (as_nested_vector ys)) = mset (concat ?n)"
    using t(1) tc ys(3) zs(3) by simp
  then have "mset (map au_url ys) = mset (map au_url xs)"
    using urls_nested [OF ann] urls_nested [OF ys(2)] by (simp del: mset_map)
  then show ?thesis
    using add_tracker_known [OF ok t0 t(1)] t(2) zs ys by simp
qed

lemma add_tracker_run:
  assumes "trackers_ok (mf_trackers m)"
  shows "if tier_count (mf_trackers m) < t then mf_add_tracker (Announce_Url u t) m = Inl Contract
    else \<exists>m'. mf_add_tracker (Announce_Url u t) m = Inr m' \<and> trackers_ok (mf_trackers m') \<and>
      m' = m\<lparr>mf_trackers := mf_trackers m'\<rparr> \<and>
      au_url ` set (mf_trackers m') = insert u (au_url ` set (mf_trackers m)) \<and>
      as_nested_vector (mf_trackers m') =
        (let n = as_nested_vector (mf_trackers m);
             old = [t0 \<leftarrow> [0..<length n]. u \<in> set (n ! t0)]
         in if old = [] then tiers_insert u t n
            else if hd old = t then n else tiers_erase u (hd old) (tiers_insert u t n))"
proof (cases "tier_count (mf_trackers m) < t")
  case True
  then show ?thesis by (simp add: mf_add_tracker_def add_tracker_to_def expects_def)
next
  case False
  let ?xs = "mf_trackers m" and ?n = "as_nested_vector (mf_trackers m)"
  have ann: "announce_ok ?xs" and d: "distinct (map au_url ?xs)" using assms by (simp_all add: trackers_ok_def)
  have tc: "tier_count ?xs = length ?n" by (simp add: as_nested_vector_def)
  define old where "old = [t0 \<leftarrow> [0..<length ?n]. u \<in> set (?n ! t0)]"
  have "\<exists>ys. add_tracker_to (Announce_Url u t) ?xs = Inr ys \<and> trackers_ok ys \<and>
      au_url ` set ys = insert u (au_url ` set ?xs) \<and>
      as_nested_vector ys = (if old = [] then tiers_insert u t ?n
        else if hd old = t then ?n else tiers_erase u (hd old) (tiers_insert u t ?n))"
  proof (cases "old = []")
    case True
    have new: "u \<notin> au_url ` set ?xs"
    proof
      assume "u \<in> au_url ` set ?xs"
      then obtain t0 where "Announce_Url u t0 \<in> set ?xs" by (metis announce_url.collapse imageE)
      with True tracker_in_nested [OF ann] tc show False by (auto simp: old_def filter_empty_conv)
    qed
    obtain ys where ys: "announce_insert (Announce_Url u t) ?xs = Inr ys" "announce_ok ys"
        "as_nested_vector ys = tiers_insert u t ?n"
      using al.ins_tiers [OF ann, of "Announce_Url u t"] False tc by auto
    have "mset (map au_url ys) = add_mset u (mset (map au_url ?xs))"
      using mset_concat_insert [of t ?n u] False tc urls_nested [OF ann] urls_nested [OF ys(2)] ys(3) by simp
    then have "set (map au_url ys) = insert u (set (map au_url ?xs))" "distinct (map au_url ys)"
      using d new by (metis set_mset_add_mset_insert set_mset_mset)
        (metis \<open>mset (map au_url ys) = add_mset u (mset (map au_url ?xs))\<close> d distinct.simps(2) list.set_map
          mset.simps(2) mset_eq_imp_distinct_iff new)
    then show ?thesis
      using True new ys by (auto simp: add_tracker_fresh trackers_ok_def)
  next
    case False
    then have "hd old \<in> set old" by simp
    then have t0: "Announce_Url u (hd old) \<in> set ?xs"
      using tracker_in_nested [OF ann] tc by (auto simp: old_def)
    then have known: "u \<in> au_url ` set ?xs" by force
    show ?thesis
    proof (cases "hd old = t")
      case True
      with False t0 known show ?thesis
        using add_tracker_known [OF assms t0] \<open>\<not> tier_count ?xs < t\<close> assms
        by (auto intro!: exI [of _ ?xs])
    next
      case moved: False
      obtain ys where ys: "add_tracker_to (Announce_Url u t) ?xs = Inr ys" "announce_ok ys"
          "as_nested_vector ys = tiers_erase u (hd old) (tiers_insert u t ?n)"
          "mset (map au_url ys) = mset (map au_url ?xs)"
        using add_tracker_moves [OF assms t0 _ moved] \<open>\<not> tier_count ?xs < t\<close> by auto
      then have "distinct (map au_url ys)" "set (map au_url ys) = set (map au_url ?xs)"
        using d mset_eq_imp_distinct_iff mset_eq_setD by blast+
      with ys False moved known show ?thesis
        by (auto simp: trackers_ok_def)
    qed
  qed
  then show ?thesis
    using False by (auto simp: mf_add_tracker_def Let_def old_def)
qed

text \<open>
  C40: Adding a tracker to well-formed trackers without duplicate urls keeps them so: an unknown
  url goes to the tier asked for, a known one moves there (its old tier disappears when it was
  alone in it), the other fields stay, and a tier that would leave a gap is a contract violation.
\<close>

theorem add_tracker_keeps_urls_once:
  assumes "trackers_ok (mf_trackers m)"
  shows "if tier_count (mf_trackers m) < t then mf_add_tracker (Announce_Url u t) m = Inl Contract
    else \<exists>m'. mf_add_tracker (Announce_Url u t) m = Inr m' \<and> trackers_ok (mf_trackers m') \<and>
      m' = m\<lparr>mf_trackers := mf_trackers m'\<rparr> \<and>
      au_url ` set (mf_trackers m') = insert u (au_url ` set (mf_trackers m)) \<and>
      as_nested_vector (mf_trackers m') =
        (let n = as_nested_vector (mf_trackers m);
             old = [t0 \<leftarrow> [0..<length n]. u \<in> set (n ! t0)]
         in if old = [] then tiers_insert u t n
            else if hd old = t then n else tiers_erase u (hd old) (tiers_insert u t n))"
  by (rule add_tracker_run [OF assms])

theorem add_tracker_keeps_urls_once_witness:
  "\<exists>m. mf_add_tracker (Announce_Url ''a'' 0)
      ((mf_empty :: sample_value metafile)\<lparr>mf_trackers := [Announce_Url ''c'' 0, Announce_Url ''a'' 1]\<rparr>) = Inr m \<and>
    as_nested_vector (mf_trackers m) = [[''a'', ''c'']]"
proof -
  let ?m = "(mf_empty :: sample_value metafile)\<lparr>mf_trackers := [Announce_Url ''c'' 0, Announce_Url ''a'' 1]\<rparr>"
  have n: "tiers_ok [[''c''], [''a'']]" by (simp add: tiers_ok_def)
  have "trackers_ok (mf_trackers ?m)"
    using announce_ok_flatten [OF n] by (simp add: trackers_ok_def)
  moreover have "as_nested_vector (mf_trackers ?m) = [[''c''], [''a'']]"
    using as_nested_flatten [OF n] by simp
  ultimately show ?thesis
    using add_tracker_keeps_urls_once [of ?m 0 "''a''"]
    by (auto simp: tier_count_def tiers_erase_def tiers_insert_def Let_def)
qed

end
