(* ===== verification/Metafile_Serialization.thy ===== *)
theory Metafile_Serialization
  imports Metafile Hasher
begin

text \<open>
  Writing a metafile as a bencode value (\<^verbatim>\<open>metafile_serialization.cpp\<close> and the adapters under
  \<^verbatim>\<open>serialization/\<close>), and the functions of \<^verbatim>\<open>metafile.cpp\<close> that encode it and hash its info
  dictionary. Dictionaries are the ordered maps of \<open>Ordered_Map\<close>. The pointer that walks down the
  file tree is a recursion over the path.
\<close>

text \<open>
  What the code takes from its platform: the decimal text of a number, \<^verbatim>\<open>std::hash\<close> of a number and of
  a string, the three digests, and the order in which an unordered set is traversed.
\<close>

record platform =
  pf_decimal :: "nat \<Rightarrow> string"
  pf_hash_size :: "nat \<Rightarrow> 64 word"
  pf_hash_string :: "string \<Rightarrow> 64 word"
  pf_md5 :: digest_function
  pf_sha1 :: digest_function
  pf_sha256 :: digest_function
  pf_string_order :: "string set \<Rightarrow> string list"
  pf_hash_order :: "info_hash set \<Rightarrow> info_hash list"

text \<open>A traversal of a set meets its elements.\<close>

definition platform_ok :: "platform \<Rightarrow> 'b metafile \<Rightarrow> bool" where
  "platform_ok P m \<longleftrightarrow> set (pf_string_order P (mf_collections m)) = mf_collections m \<and>
     set (pf_hash_order P (mf_similar_torrents m)) = mf_similar_torrents m"

abbreviation put :: "string \<Rightarrow> 'b \<Rightarrow> 'b omap \<Rightarrow> 'b omap" where
  "put \<equiv> om_insert_or_assign"

text \<open>A key that is only written under a condition.\<close>

definition put_if :: "bool \<Rightarrow> string \<Rightarrow> 'b \<Rightarrow> 'b omap \<Rightarrow> 'b omap" where
  "put_if c k v d = (if c then put k v d else d)"

section \<open>Adapters\<close>

text \<open>
  The trackers are written as one list per run of equal tiers; the running tier number is
  incremented by one at every change, whatever the next tier is.
\<close>

definition announce_list_value :: "'b bencode \<Rightarrow> announce_url_list \<Rightarrow> 'b" where
  "announce_list_value B xs =
     (if xs = [] then bc_of_list B []
      else
        let (tiers, level, _) =
              fold (\<lambda>a (tiers, level, current_tier).
                      let (tiers, level, current_tier) =
                            (if current_tier \<noteq> au_tier a
                             then (tiers @ [bc_of_list B level], [], current_tier + 1)
                             else (tiers, level, current_tier))
                      in (tiers, level @ [bc_of_string B (au_url a)], current_tier))
                xs ([], [], 0)
        in bc_of_list B (tiers @ [bc_of_list B level]))"

definition dht_node_value :: "'b bencode \<Rightarrow> dht_node \<Rightarrow> 'b" where
  "dht_node_value B n = bc_of_list B [bc_of_string B (dn_url n), bc_of_integer B (uint (dn_port n))]"

definition attributes_value :: "'b bencode \<Rightarrow> file_attributes \<Rightarrow> 'b" where
  "attributes_value B a = bc_of_string B (attributes_to_string a)"

definition hash_value :: "'b bencode \<Rightarrow> hash \<Rightarrow> 'b" where
  "hash_value B h = bc_of_string B (hash_view h)"

definition path_value :: "'b bencode \<Rightarrow> path \<Rightarrow> 'b" where
  "path_value B p = bc_of_list B (map (bc_of_string B) p)"

definition size_value :: "'b bencode \<Rightarrow> nat \<Rightarrow> 'b" where
  "size_value B n = bc_of_integer B (integer_of_size n)"

text \<open>\<^verbatim>\<open>path::filename\<close>.\<close>

definition path_filename :: "path \<Rightarrow> string" where
  "path_filename p = (if p = [] \<or> last p = ''/'' then '''' else last p)"

definition value_of_optional :: "'a option \<Rightarrow> 'a result" where
  "value_of_optional x = (case x of Some a \<Rightarrow> Inr a | None \<Rightarrow> Inl Bad_Optional_Access)"

section \<open>The info dictionary\<close>

definition put_attributes :: "'b bencode \<Rightarrow> file_entry \<Rightarrow> 'b omap \<Rightarrow> 'b omap" where
  "put_attributes B file d =
     (case fe_attributes file of Some a \<Rightarrow> put ''attr'' (attributes_value B a) d | None \<Rightarrow> d)"

definition put_symlink :: "'b bencode \<Rightarrow> file_entry \<Rightarrow> 'b omap \<Rightarrow> 'b omap result" where
  "put_symlink B file d =
     (if fe_is_symlink file
      then rbind (value_of_optional (fe_symlink_path file)) (\<lambda>p. Inr (put ''symlink path'' (path_value B p) d))
      else Inr d)"

definition put_checksums :: "'b bencode \<Rightarrow> file_entry \<Rightarrow> 'b omap \<Rightarrow> 'b omap" where
  "put_checksums B file d =
     fold (\<lambda>(algo, c). put algo (bc_of_bytes B (checksum_value c))) (fe_checksums file) d"

definition file_info_v1 :: "'b bencode \<Rightarrow> file_entry \<Rightarrow> 'b result" where
  "file_info_v1 B file =
     rbind (put_symlink B file (put_attributes B file
             (put ''path'' (path_value B (fe_path file)) (put ''length'' (size_value B (fe_file_size file)) []))))
       (\<lambda>d. Inr (bc_of_dict B (put_checksums B file d)))"

definition file_list_value :: "'b bencode \<Rightarrow> file_entry list \<Rightarrow> 'b result" where
  "file_list_value B files =
     rbind (rfold (\<lambda>file out. rbind (file_info_v1 B file) (\<lambda>v. Inr (out @ [v]))) files [])
       (\<lambda>l. Inr (bc_of_list B l))"

text \<open>The root of a non-empty file is required; a hybrid torrent leaves the checksums to its v1 part.\<close>

definition file_info_v2 :: "'b bencode \<Rightarrow> bool \<Rightarrow> file_entry \<Rightarrow> 'b result" where
  "file_info_v2 B with_checksums file =
     (let d = put ''length'' (size_value B (fe_file_size file)) (put_attributes B file [])
      in rbind (if fe_file_size file \<noteq> 0
                then rbind (fe_get_pieces_root file) (\<lambda>h. Inr (put ''pieces root'' (hash_value B h) d))
                else Inr d) (\<lambda>d.
         rbind (put_symlink B file d) (\<lambda>d.
           Inr (bc_of_dict B (if with_checksums then put_checksums B file d else d)))))"

text \<open>Walking down from the root of the tree, making the dictionaries that are missing.\<close>

fun tree_insert :: "'b bencode \<Rightarrow> path \<Rightarrow> 'b \<Rightarrow> 'b omap \<Rightarrow> 'b omap result" where
  "tree_insert B [] info d = Inr (put '''' info d)"
| "tree_insert B (component # p) info d =
     (case om_find d component of
        Some v \<Rightarrow> rbind (get_dict B v) (\<lambda>sub.
                  rbind (tree_insert B p info sub) (\<lambda>sub'. Inr (put component (bc_of_dict B sub') d)))
      | None \<Rightarrow> rbind (tree_insert B p info []) (\<lambda>sub'. Inr (put component (bc_of_dict B sub') d)))"

definition file_tree_value :: "'b bencode \<Rightarrow> bool \<Rightarrow> file_entry list \<Rightarrow> 'b result" where
  "file_tree_value B hybrid files =
     rbind (rfold (\<lambda>file tree.
                if hybrid \<and> fe_is_padding_file file then Inr tree
                else rbind (file_info_v2 B (\<not> hybrid) file) (\<lambda>info. tree_insert B (fe_path file) info tree))
              files [])
       (\<lambda>tree. Inr (bc_of_dict B tree))"

definition make_cross_seed_hash :: "platform \<Rightarrow> announce_url_list \<Rightarrow> string" where
  "make_cross_seed_hash P announces =
     hash_hex_string (make_hash (pf_md5 P) (bytes_of_string
       (pf_decimal P (unat (announce_list_hash (pf_hash_size P) (pf_hash_string P) announces)))))"

definition put_name :: "'b bencode \<Rightarrow> 'b metafile \<Rightarrow> 'b omap \<Rightarrow> 'b omap" where
  "put_name B m info =
     put ''name'' (bc_of_string B (if mf_name m = [] then path_filename (st_root_directory (mf_storage m))
                                   else mf_name m)) info"

text \<open>The end of the three functions: private flag, source, unknown fields, cross seeding.\<close>

definition put_info_tail :: "'b bencode \<Rightarrow> platform \<Rightarrow> 'b metafile \<Rightarrow> 'b omap \<Rightarrow> 'b omap" where
  "put_info_tail B P m info =
     (let info = put_if (mf_private m) ''private'' (bc_of_integer B 1) info;
          info = put_if (mf_source m \<noteq> []) ''source'' (bc_of_string B (mf_source m)) info;
          info = fold (\<lambda>(k, v). put k v) (mf_other_info_fields m) info
      in put_if (mf_cross_seeding m) ''cross_seed_entry''
           (bc_of_string B (make_cross_seed_hash P (mf_trackers m))) info)"

definition put_pieces :: "'b bencode \<Rightarrow> file_storage \<Rightarrow> 'b omap \<Rightarrow> 'b omap" where
  "put_pieces B st info = put ''pieces'' (bc_of_string B (make_v1_pieces_string st)) info"

definition put_single_file :: "'b bencode \<Rightarrow> file_entry \<Rightarrow> 'b omap \<Rightarrow> 'b omap" where
  "put_single_file B file info =
     put ''name'' (bc_of_string B (path_filename (fe_path file)))
       (put ''length'' (size_value B (fe_file_size file)) info)"

definition make_bvalue_infodict_v1 :: "'b bencode \<Rightarrow> platform \<Rightarrow> 'b metafile \<Rightarrow> 'b result" where
  "make_bvalue_infodict_v1 B P m =
     (let st = mf_storage m in
      rbind (case st_get_file_mode st of
               mode_single \<Rightarrow> rbind (st_at st 0) (\<lambda>file. Inr (put_single_file B file []))
             | mode_multi \<Rightarrow> rbind (file_list_value B (st_files st)) (\<lambda>l. Inr (put_name B m (put ''files'' l [])))
             | mode_empty \<Rightarrow> Inr []) (\<lambda>info.
        Inr (bc_of_dict B (put_info_tail B P m
               (put_pieces B st (put ''piece length'' (size_value B (st_piece_size st)) info))))))"

definition make_bvalue_infodict_v2 :: "'b bencode \<Rightarrow> platform \<Rightarrow> 'b metafile \<Rightarrow> 'b result" where
  "make_bvalue_infodict_v2 B P m =
     (let st = mf_storage m in
      rbind (file_tree_value B False (st_files st)) (\<lambda>tree.
        Inr (bc_of_dict B (put_info_tail B P m (put ''file tree'' tree
               (put ''piece length'' (size_value B (st_piece_size st))
                 (put ''meta version'' (bc_of_integer B 2) (put_name B m [])))))))) "

definition make_bvalue_infodict_hybrid :: "'b bencode \<Rightarrow> platform \<Rightarrow> 'b metafile \<Rightarrow> 'b result" where
  "make_bvalue_infodict_hybrid B P m =
     (let st = mf_storage m in
      rbind (case st_get_file_mode st of
               mode_single \<Rightarrow> rbind (st_get st 0) (\<lambda>file. Inr (put_single_file B file []))
             | mode_multi \<Rightarrow> rbind (file_list_value B (st_files st)) (\<lambda>l. Inr (put ''files'' l []))
             | mode_empty \<Rightarrow> Inr []) (\<lambda>info.
      rbind (file_tree_value B True (st_files st)) (\<lambda>tree.
        Inr (bc_of_dict B (put_info_tail B P m (put ''meta version'' (bc_of_integer B 2)
               (put_pieces B st (put ''piece length'' (size_value B (st_piece_size st))
                 (put_name B m (put ''file tree'' tree info)))))))))) "

section \<open>The torrent\<close>

text \<open>The hashes of one related torrent; a default-constructed one has no version and is refused.\<close>

definition similar_values :: "'b bencode \<Rightarrow> info_hash \<Rightarrow> 'b list result" where
  "similar_values B k =
     (if ih_version k = protocol_v1 then rbind (deref (ih_v1 k)) (\<lambda>h. Inr [hash_value B h])
      else if ih_version k = protocol_v2 then rbind (deref (ih_v2 k)) (\<lambda>h. Inr [hash_value B h])
      else if ih_version k = protocol_hybrid then
        rbind (deref (ih_v1 k)) (\<lambda>h1. rbind (deref (ih_v2 k)) (\<lambda>h2. Inr [hash_value B h1, hash_value B h2]))
      else Inl Invalid_Argument)"

definition similar_list_value :: "'b bencode \<Rightarrow> info_hash list \<Rightarrow> 'b result" where
  "similar_list_value B ks =
     rbind (rfold (\<lambda>k out. rbind (similar_values B k) (\<lambda>vs. Inr (out @ vs))) ks []) (\<lambda>l. Inr (bc_of_list B l))"

definition make_bvalue_common :: "'b bencode \<Rightarrow> platform \<Rightarrow> 'b metafile \<Rightarrow> 'b omap result" where
  "make_bvalue_common B P m =
     (let d = put_if (mf_trackers m \<noteq> []) ''announce'' (bc_of_string B (au_url (mf_trackers m ! 0))) [];
          d = put_if (mf_trackers m \<noteq> []) ''announce-list'' (announce_list_value B (mf_trackers m)) d;
          d = put_if (mf_comment m \<noteq> []) ''comment'' (bc_of_string B (mf_comment m)) d;
          d = put_if (mf_created_by m \<noteq> []) ''created by'' (bc_of_string B (mf_created_by m)) d;
          d = put_if (mf_creation_date m \<noteq> 0) ''creation date'' (bc_of_integer B (mf_creation_date m)) d;
          d = put_if (mf_collections m \<noteq> {}) ''collections''
                (bc_of_list B (map (bc_of_string B) (pf_string_order P (mf_collections m)))) d;
          d = put_if (mf_http_seeds m \<noteq> []) ''httpseeds''
                (bc_of_list B (map (bc_of_string B) (mf_http_seeds m))) d
      in rbind (if mf_similar_torrents m \<noteq> {}
                then rbind (similar_list_value B (pf_hash_order P (mf_similar_torrents m)))
                       (\<lambda>l. Inr (om_emplace ''similar'' l d))
                else Inr d) (\<lambda>d.
         let d = put_if (mf_web_seeds m \<noteq> []) ''url-list''
                   (bc_of_list B (map (bc_of_string B) (mf_web_seeds m))) d
         in Inr (put_if (mf_dht_nodes m \<noteq> []) ''nodes''
                   (bc_of_list B (map (dht_node_value B) (mf_dht_nodes m))) d)))"

definition make_bvalue_v1 :: "'b bencode \<Rightarrow> platform \<Rightarrow> 'b metafile \<Rightarrow> 'b result" where
  "make_bvalue_v1 B P m =
     rbind (make_bvalue_common B P m) (\<lambda>d.
     rbind (make_bvalue_infodict_v1 B P m) (\<lambda>info. Inr (bc_of_dict B (put ''info'' info d))))"

definition piece_layers_value :: "'b bencode \<Rightarrow> file_storage \<Rightarrow> 'b result" where
  "piece_layers_value B st =
     rbind (rfold (\<lambda>file layers.
                if st_piece_size st < fe_file_size file
                then rbind (fe_get_pieces_root file) (\<lambda>root.
                     rbind (make_v2_piece_layers_string file) (\<lambda>s.
                       Inr (put (hash_view root) (bc_of_string B s) layers)))
                else Inr layers)
              (st_files st) [])
       (\<lambda>layers. Inr (bc_of_dict B layers))"

definition make_bvalue_v2 :: "'b bencode \<Rightarrow> platform \<Rightarrow> 'b metafile \<Rightarrow> 'b result" where
  "make_bvalue_v2 B P m =
     rbind (make_bvalue_common B P m) (\<lambda>d.
     rbind (make_bvalue_infodict_v2 B P m) (\<lambda>info.
     rbind (piece_layers_value B (mf_storage m)) (\<lambda>layers.
       Inr (bc_of_dict B (put ''piece layers'' layers (put ''info'' info d))))))"

definition make_bvalue_hybrid :: "'b bencode \<Rightarrow> platform \<Rightarrow> 'b metafile \<Rightarrow> 'b result" where
  "make_bvalue_hybrid B P m =
     rbind (make_bvalue_common B P m) (\<lambda>d.
     rbind (make_bvalue_infodict_hybrid B P m) (\<lambda>info.
     rbind (piece_layers_value B (mf_storage m)) (\<lambda>layers.
       Inr (bc_of_dict B (put ''piece layers'' layers (put ''info'' info d))))))"

section \<open>Encoding and hashing\<close>

text \<open>\<open>encode\<close> is the encoder of the bencode library.\<close>

definition value_for ::
    "'b bencode \<Rightarrow> platform \<Rightarrow> 'b metafile \<Rightarrow> protocol \<Rightarrow> 'b result" where
  "value_for B P m protocol_version =
     (if protocol_version = protocol_v1 then make_bvalue_v1 B P m
      else if protocol_version = protocol_v2 then make_bvalue_v2 B P m
      else if protocol_version = enum_or protocol_v2 protocol_v1 then make_bvalue_hybrid B P m
      else Inl Invalid_Argument)"

definition write_metafile ::
    "'b bencode \<Rightarrow> platform \<Rightarrow> ('b \<Rightarrow> string) \<Rightarrow> 'b metafile \<Rightarrow> protocol \<Rightarrow> string result" where
  "write_metafile B P encode m protocol_version =
     rbind (value_for B P m protocol_version) (\<lambda>bv. Inr (encode bv))"

text \<open>An output stream is the text written to it so far.\<close>

definition write_metafile_to ::
    "'b bencode \<Rightarrow> platform \<Rightarrow> ('b \<Rightarrow> string) \<Rightarrow> string \<Rightarrow> 'b metafile \<Rightarrow> protocol \<Rightarrow> string result" where
  "write_metafile_to B P encode os m protocol_version =
     rbind (value_for B P m protocol_version) (\<lambda>bv. Inr (os @ encode bv))"

text \<open>
  Opening the file for writing empties it, so the content after the call is given together with
  the exception of a call that fails.
\<close>

definition save_metafile ::
    "'b bencode \<Rightarrow> platform \<Rightarrow> ('b \<Rightarrow> string) \<Rightarrow> string \<Rightarrow> 'b metafile \<Rightarrow> protocol \<Rightarrow> string \<times> unit result" where
  "save_metafile B P encode content m protocol_version =
     (case write_metafile_to B P encode [] m protocol_version of
        Inl e \<Rightarrow> ([], Inl e)
      | Inr s \<Rightarrow> (s, Inr ()))"

definition dump_file ::
    "'b bencode \<Rightarrow> platform \<Rightarrow> ('b \<Rightarrow> string) \<Rightarrow> string \<Rightarrow> 'b metafile \<Rightarrow> string \<times> unit result" where
  "dump_file B P encode content m = save_metafile B P encode content m protocol_v1"

text \<open>
  \<open>json\<close> is the JSON text the bencode library makes of a value. The converter is connected to
  \<^verbatim>\<open>std::cout\<close>, the second stream, and never to the stream passed in.
\<close>

definition serialize_json_to ::
    "'b bencode \<Rightarrow> platform \<Rightarrow> ('b \<Rightarrow> string) \<Rightarrow> string \<times> string \<Rightarrow> 'b metafile \<Rightarrow> protocol \<Rightarrow> (string \<times> string) result" where
  "serialize_json_to B P json streams m protocol_version =
     rbind (value_for B P m protocol_version) (\<lambda>bv. Inr (fst streams, snd streams @ json bv))"

definition serialize_json ::
    "'b bencode \<Rightarrow> platform \<Rightarrow> ('b \<Rightarrow> string) \<Rightarrow> string \<Rightarrow> 'b metafile \<Rightarrow> protocol \<Rightarrow> (string \<times> string) result" where
  "serialize_json B P json cout m protocol_version = serialize_json_to B P json ([], cout) m protocol_version"

definition metafile_info_hash_v1 :: "'b bencode \<Rightarrow> platform \<Rightarrow> ('b \<Rightarrow> string) \<Rightarrow> 'b metafile \<Rightarrow> hash result" where
  "metafile_info_hash_v1 B P encode m =
     rbind (if st_protocol (mf_storage m) = protocol_hybrid then make_bvalue_infodict_hybrid B P m
            else make_bvalue_infodict_v1 B P m) (\<lambda>bv.
       Inr (make_hash (pf_sha1 P) (bytes_of_string (encode bv))))"

definition metafile_info_hash_v2 :: "'b bencode \<Rightarrow> platform \<Rightarrow> ('b \<Rightarrow> string) \<Rightarrow> 'b metafile \<Rightarrow> hash result" where
  "metafile_info_hash_v2 B P encode m =
     rbind (if st_protocol (mf_storage m) = protocol_hybrid then make_bvalue_infodict_hybrid B P m
            else make_bvalue_infodict_v2 B P m) (\<lambda>bv.
       Inr (make_hash (pf_sha256 P) (bytes_of_string (encode bv))))"

definition truncate_v2_hash :: "hash \<Rightarrow> hash result" where
  "truncate_v2_hash h = hash_of_span (size_bytes sha1) (take (size_bytes sha1) h)"

definition make_info_hash :: "'b bencode \<Rightarrow> platform \<Rightarrow> ('b \<Rightarrow> string) \<Rightarrow> 'b metafile \<Rightarrow> info_hash result" where
  "make_info_hash B P encode m =
     (let p = st_protocol (mf_storage m) in
      if p = protocol_v1 then rbind (metafile_info_hash_v1 B P encode m) (\<lambda>h. Inr (info_hash_v1_only h))
      else if p = protocol_v2 then rbind (metafile_info_hash_v2 B P encode m) (\<lambda>h. Inr (info_hash_v2_only h))
      else if p = protocol_hybrid then
        rbind (metafile_info_hash_v1 B P encode m) (\<lambda>h1.
        rbind (metafile_info_hash_v2 B P encode m) (\<lambda>h2. Inr (info_hash_hybrid h1 h2)))
      else Inl Invalid_Argument)"


text \<open>
  The text \<^verbatim>\<open>serialize_json\<close> returns is empty for every metafile: the JSON goes to the standard
  output.
\<close>

theorem serialize_json_returns_nothing:
  "serialize_json B P json cout m pv = rbind (value_for B P m pv) (\<lambda>bv. Inr ([], cout @ json bv))"
  by (simp add: serialize_json_def serialize_json_to_def)

text \<open>A call with a version that is no protocol destroys the file it was to write.\<close>

theorem save_refused_empties_file:
  assumes "pv \<noteq> protocol_v1" "pv \<noteq> protocol_v2" "pv \<noteq> protocol_hybrid"
  shows "save_metafile B P encode content m pv = ([], Inl Invalid_Argument)"
proof -
  have "enum_or protocol_v2 protocol_v1 = protocol_hybrid"
    by (simp add: enum_or_def protocol_defs)
  with assms show ?thesis by (simp add: save_metafile_def write_metafile_to_def value_for_def)
qed

end
