(* ===== verification/Metafile_Parsing.thy ===== *)
theory Metafile_Parsing
  imports Metafile
begin

text \<open>
  Reading a metafile from a bencode value (\<^verbatim>\<open>metafile_parsing.cpp\<close>): one definition per function,
  each from the metafile so far to the metafile with its field, or to the exception or violated
  contract that ends the call. The loop over the file tree works on an explicit stack and need
  not end for a value that contains itself, so it is a partial function; \<open>None\<close> is reported as
  \<open>Diverges\<close>.
\<close>

section \<open>Paths from text\<close>

text \<open>\<^verbatim>\<open>std::filesystem::path\<close> on POSIX: construction from a string, \<^verbatim>\<open>operator/=\<close>, \<^verbatim>\<open>relative_path\<close>.\<close>

fun split_on :: "char \<Rightarrow> string \<Rightarrow> string list" where
  "split_on c [] = [[]]"
| "split_on c (x # xs) =
     (if x = c then [] # split_on c xs
      else (x # hd (split_on c xs)) # tl (split_on c xs))"

definition path_of_string :: "string \<Rightarrow> path" where
  "path_of_string s =
     (let names = filter (\<lambda>w. w \<noteq> []) (split_on (CHR ''/'') s)
      in (if s \<noteq> [] \<and> hd s = CHR ''/'' then [''/''] else []) @ names @
         (if names \<noteq> [] \<and> last s = CHR ''/'' then [''''] else []))"

definition path_slash :: "path \<Rightarrow> path \<Rightarrow> path" where
  "path_slash p q =
     (if is_absolute q then q
      else if q = [] then (if p \<noteq> [] \<and> last p \<noteq> '''' \<and> last p \<noteq> ''/'' then p @ [''''] else p)
      else (if p \<noteq> [] \<and> last p = '''' then butlast p else p) @ q)"

definition relative_path :: "path \<Rightarrow> path" where
  "relative_path p = (if is_absolute p then tl p else p)"

section \<open>Fields outside the file list\<close>

definition root_dict :: "'b bencode \<Rightarrow> 'b \<Rightarrow> 'b omap result" where
  "root_dict B data = rbind (expects (holds_dict B data)) (\<lambda>_. get_dict B data)"

definition info_dict :: "'b bencode \<Rightarrow> 'b \<Rightarrow> 'b omap result" where
  "info_dict B data =
     rbind (root_dict B data) (\<lambda>dict.
     rbind (expects (om_find dict ''info'' \<noteq> None)) (\<lambda>_.
     rbind (dict_at dict ''info'') (get_dict B)))"

definition parse_announce_list :: "'b bencode \<Rightarrow> 'b \<Rightarrow> 'b metafile \<Rightarrow> 'b metafile result" where
  "parse_announce_list B v m =
     rbind (get_list B v) (\<lambda>tiers.
       rfold (\<lambda>(tier, e) m.
                rbind (get_list B e) (\<lambda>level.
                  rfold (\<lambda>a m. rbind (get_string B a) (\<lambda>s. mf_add_tracker (Announce_Url s tier) m)) level m))
             (enumerate 0 tiers) m)"

definition add_first_announce :: "string \<Rightarrow> 'b metafile \<Rightarrow> 'b metafile result" where
  "add_first_announce announce m =
     (let trackers = mf_trackers m in
      if announce_contains_url trackers announce then Inr m
      else if 1 \<le> tier_size trackers 0
      then rbind (announce_insert (Announce_Url announce 0) []) (\<lambda>xs.
           rbind (rfold (\<lambda>t. announce_insert (Announce_Url (au_url t) (au_tier t + 1))) trackers xs) (\<lambda>xs.
             Inr (m\<lparr>mf_trackers := xs\<rparr>)))
      else mf_add_tracker_url announce (Some 0) m)"

definition parse_announce :: "'b bencode \<Rightarrow> 'b \<Rightarrow> 'b metafile \<Rightarrow> 'b metafile result" where
  "parse_announce B data m =
     rbind (root_dict B data) (\<lambda>dict.
     rbind (access_guard ''announce-list''
              (case om_find dict ''announce-list'' of
                 Some v \<Rightarrow> parse_announce_list B v m | None \<Rightarrow> Inr m)) (\<lambda>m.
       access_guard ''announce''
         (case om_find dict ''announce'' of
            Some v \<Rightarrow> rbind (get_string B v) (\<lambda>announce. add_first_announce announce m)
          | None \<Rightarrow> Inr m)))"

text \<open>A field that is set from the value under its key, when there is one.\<close>

definition parse_key ::
    "'b omap \<Rightarrow> string \<Rightarrow> ('b \<Rightarrow> 'a result) \<Rightarrow> ('a \<Rightarrow> 'm \<Rightarrow> 'm result) \<Rightarrow> 'm \<Rightarrow> 'm result" where
  "parse_key dict key get store m =
     access_guard key (case om_find dict key of Some v \<Rightarrow> rbind (get v) (\<lambda>x. store x m) | None \<Rightarrow> Inr m)"

definition parse_private :: "'b bencode \<Rightarrow> 'b \<Rightarrow> 'b metafile \<Rightarrow> 'b metafile result" where
  "parse_private B data m =
     rbind (info_dict B data) (\<lambda>info.
       parse_key info ''private'' (get_integer B)
         (\<lambda>v m. rbind (throw_if (1 < v) (Parse_Error ''private'')) (\<lambda>_. Inr (mf_set_private (v \<noteq> 0) m))) m)"

definition parse_comment :: "'b bencode \<Rightarrow> 'b \<Rightarrow> 'b metafile \<Rightarrow> 'b metafile result" where
  "parse_comment B data m =
     rbind (root_dict B data) (\<lambda>dict.
       parse_key dict ''comment'' (get_string B) (\<lambda>s m. Inr (mf_set_comment s m)) m)"

definition parse_created_by :: "'b bencode \<Rightarrow> 'b \<Rightarrow> 'b metafile \<Rightarrow> 'b metafile result" where
  "parse_created_by B data m =
     rbind (root_dict B data) (\<lambda>dict.
       parse_key dict ''created by'' (get_string B) (\<lambda>s m. Inr (mf_set_created_by s m)) m)"

definition add_each :: "('b \<Rightarrow> 'a result) \<Rightarrow> ('a \<Rightarrow> 'm \<Rightarrow> 'm result) \<Rightarrow> 'b list \<Rightarrow> 'm \<Rightarrow> 'm result" where
  "add_each get add vs m = rfold (\<lambda>c m. rbind (get c) (\<lambda>x. add x m)) vs m"

definition parse_collections :: "'b bencode \<Rightarrow> 'b \<Rightarrow> 'b metafile \<Rightarrow> 'b metafile result" where
  "parse_collections B data m =
     rbind (root_dict B data) (\<lambda>dict.
     rbind (rbind (dict_at dict ''info'') (get_dict B)) (\<lambda>info.
       let add = add_each (get_string B) (\<lambda>s m. Inr (mf_add_collection s m)) in
       rbind (parse_key info ''collections'' (get_list B) add m) (\<lambda>m.
         parse_key dict ''collections'' (get_list B) add m)))"

definition parse_http_seeds :: "'b bencode \<Rightarrow> 'b \<Rightarrow> 'b metafile \<Rightarrow> 'b metafile result" where
  "parse_http_seeds B data m =
     rbind (root_dict B data) (\<lambda>dict.
       parse_key dict ''httpseeds'' (get_list B)
         (add_each (get_string B) (\<lambda>s m. Inr (mf_add_http_seed s m))) m)"

definition parse_web_seeds :: "'b bencode \<Rightarrow> 'b \<Rightarrow> 'b metafile \<Rightarrow> 'b metafile result" where
  "parse_web_seeds B data m =
     rbind (root_dict B data) (\<lambda>dict.
       parse_key dict ''url-list'' (get_list B)
         (add_each (get_string B) (\<lambda>s m. Inr (mf_add_web_seed s m))) m)"

definition parse_dht_nodes :: "'b bencode \<Rightarrow> 'b \<Rightarrow> 'b metafile \<Rightarrow> 'b metafile result" where
  "parse_dht_nodes B data m =
     rbind (root_dict B data) (\<lambda>dict.
       parse_key dict ''nodes'' (get_list B)
         (add_each (get_list B) (\<lambda>tuple m.
            rbind (expects (length tuple = 2)) (\<lambda>_.
            rbind (get_string B (tuple ! 0)) (\<lambda>url.
            rbind (get_integer B (tuple ! 1)) (\<lambda>port.
              Inr (mf_add_dht_node_url url (word_of_int port) m)))))) m)"

definition parse_creation_date :: "'b bencode \<Rightarrow> 'b \<Rightarrow> 'b metafile \<Rightarrow> 'b metafile result" where
  "parse_creation_date B data m =
     rbind (root_dict B data) (\<lambda>dict.
       parse_key dict ''creation date'' (get_integer B) mf_set_creation_date m)"

definition add_infohash :: "string \<Rightarrow> 'b metafile \<Rightarrow> 'b metafile result" where
  "add_infohash hash_string m =
     (if length hash_string = size_bytes sha1
      then rbind (info_hash_of_data protocol_v1 hash_string) (\<lambda>h. Inr (mf_add_similar_torrent h m))
      else if length hash_string = size_bytes sha256
      then rbind (info_hash_of_data protocol_v2 hash_string) (\<lambda>h. Inr (mf_add_similar_torrent h m))
      else Inl (Parse_Error ''similar''))"

definition parse_similar_torrents :: "'b bencode \<Rightarrow> 'b \<Rightarrow> 'b metafile \<Rightarrow> 'b metafile result" where
  "parse_similar_torrents B data m =
     rbind (root_dict B data) (\<lambda>dict.
     rbind (rbind (dict_at dict ''info'') (get_dict B)) (\<lambda>info.
       let add = add_each (get_string B) add_infohash in
       rbind (parse_key info ''similar'' (get_list B) add m) (\<lambda>m.
         parse_key dict ''similar'' (get_list B) add m)))"

definition parse_name :: "'b bencode \<Rightarrow> 'b \<Rightarrow> 'b metafile \<Rightarrow> 'b metafile result" where
  "parse_name B data m =
     rbind (info_dict B data) (\<lambda>info.
       parse_key info ''name'' (get_string B) (\<lambda>s m. Inr (mf_set_name s m)) m)"

definition parse_source :: "'b bencode \<Rightarrow> 'b \<Rightarrow> 'b metafile \<Rightarrow> 'b metafile result" where
  "parse_source B data m =
     rbind (info_dict B data) (\<lambda>info.
       parse_key info ''source'' (get_string B) (\<lambda>s m. Inr (mf_set_source s m)) m)"

definition known_info_keys :: "string list" where
  "known_info_keys =
     [''length'', ''name'', ''files'', ''file tree'', ''piece length'', ''pieces'', ''meta version'',
      ''private'', ''source'']"

definition parse_other_info_fields :: "'b bencode \<Rightarrow> 'b \<Rightarrow> 'b metafile \<Rightarrow> 'b metafile result" where
  "parse_other_info_fields B data m =
     rbind (info_dict B data) (\<lambda>info.
       Inr (fold (\<lambda>(k, v) m. if k \<in> set known_info_keys then m
                   else m\<lparr>mf_other_info_fields := om_insert_or_assign k v (mf_other_info_fields m)\<rparr>) info m))"

section \<open>File entries\<close>

definition parse_path :: "'b bencode \<Rightarrow> 'b \<Rightarrow> path result" where
  "parse_path B data =
     rbind (expects (holds_list B data)) (\<lambda>_.
     rbind (get_list B data) (\<lambda>blist.
       rfold (\<lambda>c p. rbind (bc_as_string B c) (\<lambda>s. Inr (path_slash p (path_of_string s)))) blist []))"

definition parse_file_attributes :: "'b bencode \<Rightarrow> 'b \<Rightarrow> file_attributes option result" where
  "parse_file_attributes B data =
     rbind (root_dict B data) (\<lambda>file_dict.
       case om_find file_dict ''attr'' of
         Some v \<Rightarrow> rbind (get_string B v) (\<lambda>desc. rbind (make_file_attributes desc) (\<lambda>a. Inr (Some a)))
       | None \<Rightarrow> Inr None)"

text \<open>
  A link target is assigned through an optional that holds nothing, which is undefined; the
  target is parsed first.
\<close>

definition parse_symlink :: "'b bencode \<Rightarrow> 'b omap \<Rightarrow> path option result" where
  "parse_symlink B file_dict =
     (case om_find file_dict ''symlink'' of
        Some v \<Rightarrow> rbind (parse_path B v) (\<lambda>_. Inl Undefined)
      | None \<Rightarrow> Inr None)"

definition add_checksums :: "'b bencode \<Rightarrow> 'b omap \<Rightarrow> file_entry \<Rightarrow> file_entry result" where
  "add_checksums B file_dict entry =
     rfold (\<lambda>(k, v) entry.
              if \<not> is_hash_function_name k then Inr entry
              else rbind (get_string B v) (\<lambda>s.
                   rbind (make_checksum k (bytes_of_string s)) (\<lambda>c. Inr (fe_add_checksum c entry))))
       file_dict entry"

definition parse_file_size :: "'b bencode \<Rightarrow> 'b omap \<Rightarrow> nat result" where
  "parse_file_size B file_dict =
     (case om_find file_dict ''length'' of
        None \<Rightarrow> Inl (Parse_Error ''name'')
      | Some v \<Rightarrow> rbind (get_integer B v) (\<lambda>i. Inr (size_of_integer i)))"

definition parse_file_entry_v1 :: "'b bencode \<Rightarrow> 'b \<Rightarrow> file_entry result" where
  "parse_file_entry_v1 B data =
     rbind (root_dict B data) (\<lambda>file_dict.
     rbind (case om_find file_dict ''path'' of
              Some v \<Rightarrow> parse_path B v
            | None \<Rightarrow>
                (case om_find file_dict ''name'' of
                   None \<Rightarrow> Inl (Parse_Error ''name'')
                 | Some v \<Rightarrow> rbind (bc_as_string B v) (\<lambda>s. Inr (path_of_string s)))) (\<lambda>path.
     rbind (parse_file_size B file_dict) (\<lambda>sz.
     rbind (parse_file_attributes B data) (\<lambda>attributes.
     rbind (parse_symlink B file_dict) (\<lambda>symlink.
     rbind (fe_make path sz attributes symlink) (\<lambda>entry.
       add_checksums B file_dict entry))))))"

definition parse_file_entry_v2 :: "'b bencode \<Rightarrow> 'b \<Rightarrow> path \<Rightarrow> file_entry result" where
  "parse_file_entry_v2 B data path =
     rbind (root_dict B data) (\<lambda>file_dict.
     rbind (parse_file_size B file_dict) (\<lambda>sz.
     rbind (case om_find file_dict ''pieces root'' of
              None \<Rightarrow> if 0 < sz then Inl (Parse_Error ''pieces root'') else Inr None
            | Some v \<Rightarrow> rbind (get_string B v) (\<lambda>s. rbind (hash_of_view (size_bytes sha256) s) (\<lambda>h. Inr (Some h))))
       (\<lambda>pieces_root.
     rbind (parse_file_attributes B data) (\<lambda>attributes.
     rbind (parse_symlink B file_dict) (\<lambda>symlink.
     rbind (fe_make path sz attributes symlink) (\<lambda>entry.
       add_checksums B file_dict
         (case pieces_root of Some h \<Rightarrow> fe_set_pieces_root h entry | None \<Rightarrow> entry)))))))"

section \<open>The file list and the file tree\<close>

definition on_storage :: "(file_storage \<Rightarrow> file_storage result) \<Rightarrow> 'b metafile \<Rightarrow> 'b metafile result" where
  "on_storage f m = rbind (f (mf_storage m)) (\<lambda>st. Inr (m\<lparr>mf_storage := st\<rparr>))"

definition parse_file_list_v1 :: "'b bencode \<Rightarrow> 'b \<Rightarrow> 'b metafile \<Rightarrow> 'b metafile result" where
  "parse_file_list_v1 B data m =
     rbind (info_dict B data) (\<lambda>info.
     access_guard ''files''
       (case om_find info ''files'' of
          Some v \<Rightarrow>
            rbind (get_list B v) (\<lambda>l.
              on_storage (\<lambda>st.
                rbind (rfold (\<lambda>f st. rbind (parse_file_entry_v1 B f) (\<lambda>e. st_add_file_move e st)) l st)
                  (\<lambda>st. Inr (st_set_file_mode mode_multi st))) m)
        | None \<Rightarrow>
            on_storage (\<lambda>st.
              rbind (rbind (root_dict B data) (\<lambda>dict. dict_at dict ''info'')) (\<lambda>v.
              rbind (parse_file_entry_v1 B v) (\<lambda>e.
              rbind (st_add_file_move e st) (\<lambda>st. Inr (st_set_file_mode mode_single st))))) m))"

text \<open>
  The stack of frames keeps the entries of each dictionary that are still to be visited, the top
  first; \<open>comps\<close> holds the names on the way down under a root component.
\<close>

definition tree_path :: "string list \<Rightarrow> path" where
  "tree_path comps = relative_path (fold (\<lambda>c p. path_slash p (path_of_string c)) comps [])"

partial_function (option) tree_loop ::
    "'b bencode \<Rightarrow> 'b omap list \<Rightarrow> string list \<Rightarrow> file_entry list \<Rightarrow> file_entry list result option" where
  "tree_loop B frames comps out =
     (case frames of
        [] \<Rightarrow> Some (Inr out)
      | items # rest \<Rightarrow>
          (case items of
             [] \<Rightarrow> tree_loop B rest (butlast comps) out
           | (key, v) # items' \<Rightarrow>
               (case bc_dict B v of
                  None \<Rightarrow> Some (Inl Bad_Access)
                | Some value \<Rightarrow>
                    if key = ''''
                    then (case parse_file_entry_v2 B v (tree_path comps) of
                            Inl e \<Rightarrow> Some (Inl e)
                          | Inr entry \<Rightarrow> tree_loop B (items' # rest) comps (out @ [entry]))
                    else tree_loop B (value # items' # rest) (comps @ [key]) out)))"

definition parse_file_tree_entries :: "'b bencode \<Rightarrow> 'b \<Rightarrow> file_entry list result" where
  "parse_file_tree_entries B data =
     rbind (info_dict B data) (\<lambda>info.
     rbind (rbind (dict_at info ''file tree'') (get_dict B)) (\<lambda>file_tree.
       case tree_loop B [file_tree] [''/''] [] of Some r \<Rightarrow> r | None \<Rightarrow> Inl Diverges))"

definition parse_file_tree_v2 :: "'b bencode \<Rightarrow> 'b \<Rightarrow> 'b metafile \<Rightarrow> 'b metafile result" where
  "parse_file_tree_v2 B data m =
     rbind (parse_file_tree_entries B data) (\<lambda>results.
       on_storage (rfold st_add_file_move results) m)"

definition set_entry_root :: "file_entry \<Rightarrow> file_storage \<Rightarrow> file_storage result" where
  "set_entry_root v2_entry st =
     (let it = find_index (\<lambda>f. fe_path v2_entry = fe_path f) (st_files st) in
      if 0 < fe_file_size v2_entry
      then rbind (fe_get_pieces_root v2_entry) (\<lambda>h.
             if it = length (st_files st) then Inl Undefined
             else Inr (st\<lparr>st_files := (st_files st)[it := fe_set_pieces_root h (st_files st ! it)]\<rparr>))
      else Inr st)"

definition parse_file_list_and_tree_hybrid :: "'b bencode \<Rightarrow> 'b \<Rightarrow> 'b metafile \<Rightarrow> 'b metafile result" where
  "parse_file_list_and_tree_hybrid B data m =
     rbind (parse_file_list_v1 B data m) (\<lambda>m.
     rbind (parse_file_tree_entries B data) (\<lambda>v2_entries.
       on_storage (rfold set_entry_root v2_entries) m))"

section \<open>Pieces\<close>

definition parse_pieces_v1 :: "'b bencode \<Rightarrow> 'b \<Rightarrow> 'b metafile \<Rightarrow> 'b metafile result" where
  "parse_pieces_v1 B data m =
     rbind (info_dict B data) (\<lambda>info.
       case om_find info ''pieces'' of
         None \<Rightarrow> Inl (Parse_Error ''info'')
       | Some v \<Rightarrow>
           rbind (get_string B v) (\<lambda>piece_string.
             on_storage (\<lambda>st.
               rfold (\<lambda>idx st.
                        rbind (hash_of_view (size_bytes sha1) (take 20 (drop (20 * idx) piece_string)))
                          (\<lambda>p. st_set_piece_hash idx p st))
                 [0..<length piece_string div 20] (st_allocate_pieces st)) m))"

definition parse_piece_size :: "'b bencode \<Rightarrow> 'b \<Rightarrow> 'b metafile \<Rightarrow> 'b metafile result" where
  "parse_piece_size B data m =
     rbind (info_dict B data) (\<lambda>info.
       case om_find info ''piece length'' of
         None \<Rightarrow> Inl (Parse_Error ''info'')
       | Some v \<Rightarrow> rbind (get_integer B v) (\<lambda>i. on_storage (st_set_piece_size (size_of_integer i)) m))"

text \<open>The hashes of a layer: 32 bytes each, and a shorter rest is refused by the constructor.\<close>

definition parse_layer :: "string \<Rightarrow> hash list result" where
  "parse_layer s =
     rfold (\<lambda>i layers. rbind (hash_of_view (size_bytes sha256) (take 32 (drop (32 * i) s)))
                         (\<lambda>h. Inr (layers @ [h])))
       [0..<ceil_div (length s) 32] []"

definition set_entry_layer :: "'b bencode \<Rightarrow> 'b omap \<Rightarrow> nat \<Rightarrow> file_storage \<Rightarrow> file_storage result" where
  "set_entry_layer B layers_dict i st =
     (let f = st_files st ! i in
      if fe_file_size f < st_piece_size st \<or> fe_is_padding_file f then Inr st
      else rbind (fe_get_pieces_root f) (\<lambda>root.
             case om_find layers_dict (hash_view root) of
               None \<Rightarrow> Inr st
             | Some v \<Rightarrow>
                 rbind (get_string B v) (\<lambda>layer_string.
                 rbind (parse_layer layer_string) (\<lambda>layers.
                   Inr (st\<lparr>st_files := (st_files st)[i := fe_set_piece_layer layers f]\<rparr>)))))"

definition parse_piece_layers_v2 :: "'b bencode \<Rightarrow> 'b \<Rightarrow> 'b metafile \<Rightarrow> 'b metafile result" where
  "parse_piece_layers_v2 B data m =
     rbind (root_dict B data) (\<lambda>dict.
       case om_find dict ''piece layers'' of
         None \<Rightarrow> Inl (Parse_Error ''piece layers'')
       | Some v \<Rightarrow>
           rbind (throw_if (\<not> holds_dict B v) (Parse_Error ''piece layers'')) (\<lambda>_.
           rbind (get_dict B v) (\<lambda>layers_dict.
             on_storage (\<lambda>st. rfold (set_entry_layer B layers_dict) [0..<length (st_files st)] st) m)))"

section \<open>The whole metafile\<close>

definition parse_protocol :: "'b bencode \<Rightarrow> 'b \<Rightarrow> protocol result" where
  "parse_protocol B data =
     rbind (info_dict B data) (\<lambda>info.
     access_guard ''meta version''
       (case om_find info ''meta version'' of
          Some v \<Rightarrow> rbind (get_integer B v) (\<lambda>meta_version.
            Inr (if meta_version = 1 then protocol_v1 else if meta_version = 2 then protocol_v2 else protocol_v1))
        | None \<Rightarrow> Inr protocol_v1))"

definition check_if_hybrid :: "'b bencode \<Rightarrow> 'b \<Rightarrow> bool result" where
  "check_if_hybrid B data =
     rbind (info_dict B data) (\<lambda>info.
       if om_find info ''pieces'' \<noteq> None
       then rbind (rbind (dict_at info ''pieces'') (get_string B)) (\<lambda>s. Inr (s \<noteq> []))
       else Inr False)"

definition common_steps :: "'b bencode \<Rightarrow> 'b \<Rightarrow> ('b metafile \<Rightarrow> 'b metafile result) list" where
  "common_steps B data =
     [parse_announce B data, parse_private B data, parse_comment B data, parse_created_by B data,
      parse_creation_date B data, parse_collections B data, parse_http_seeds B data,
      parse_web_seeds B data, parse_dht_nodes B data, parse_similar_torrents B data, parse_name B data]"

definition v1_steps :: "'b bencode \<Rightarrow> 'b \<Rightarrow> ('b metafile \<Rightarrow> 'b metafile result) list" where
  "v1_steps B data =
     [parse_file_list_v1 B data, parse_piece_size B data, parse_pieces_v1 B data, parse_source B data,
      parse_other_info_fields B data]"

definition v2_steps :: "'b bencode \<Rightarrow> 'b \<Rightarrow> ('b metafile \<Rightarrow> 'b metafile result) list" where
  "v2_steps B data = [parse_piece_size B data, parse_source B data, parse_other_info_fields B data]"

definition parse_metafile :: "'b bencode \<Rightarrow> 'b \<Rightarrow> 'b metafile result" where
  "parse_metafile B data =
     rbind (parse_protocol B data) (\<lambda>protocol.
       let steps = rfold (\<lambda>step. step) in
       if protocol = protocol_v1 then steps (common_steps B data @ v1_steps B data) mf_empty
       else if protocol = protocol_v2 then
         rbind (steps (common_steps B data @ v2_steps B data) mf_empty) (\<lambda>m.
         rbind (check_if_hybrid B data) (\<lambda>hybrid.
           if hybrid
           then steps [parse_file_list_and_tree_hybrid B data, parse_piece_layers_v2 B data,
                       parse_pieces_v1 B data] m
           else steps [parse_file_tree_v2 B data, parse_piece_layers_v2 B data] m))
       else Inl (Parse_Error ''''))"

text \<open>\<open>decode\<close> is the decoder of the bencode library.\<close>

definition read_metafile :: "'b bencode \<Rightarrow> (string \<Rightarrow> 'b result) \<Rightarrow> string \<Rightarrow> 'b metafile result" where
  "read_metafile B decode buffer = rbind (decode buffer) (parse_metafile B)"

definition read_metafile_bytes :: "'b bencode \<Rightarrow> (string \<Rightarrow> 'b result) \<Rightarrow> byte list \<Rightarrow> 'b metafile result" where
  "read_metafile_bytes B decode buffer = rbind (decode (string_of_bytes buffer)) (parse_metafile B)"

definition read_metafile_stream :: "'b bencode \<Rightarrow> (string \<Rightarrow> 'b result) \<Rightarrow> string \<Rightarrow> 'b metafile result" where
  "read_metafile_stream B decode is = rbind (decode is) (parse_metafile B)"

text \<open>A file that cannot be opened reads as the empty text.\<close>

definition load_metafile :: "'b bencode \<Rightarrow> (string \<Rightarrow> 'b result) \<Rightarrow> string option \<Rightarrow> 'b metafile result" where
  "load_metafile B decode file =
     read_metafile B decode (case file of Some content \<Rightarrow> content | None \<Rightarrow> [])"

lemma tree_loop_simps:
  "tree_loop B [] comps out = Some (Inr out)"
  "tree_loop B ([] # rest) comps out = tree_loop B rest (butlast comps) out"
  "tree_loop B (((key, v) # items) # rest) comps out =
     (case bc_dict B v of
        None \<Rightarrow> Some (Inl Bad_Access)
      | Some value \<Rightarrow>
          if key = ''''
          then (case parse_file_entry_v2 B v (tree_path comps) of
                  Inl e \<Rightarrow> Some (Inl e)
                | Inr entry \<Rightarrow> tree_loop B (items # rest) comps (out @ [entry]))
          else tree_loop B (value # items # rest) (comps @ [key]) out)"
  by (subst tree_loop.simps, simp)+

end
