(* ===== verification/Metafile_Round_Trip.thy ===== *)
theory Metafile_Round_Trip
  imports Metafile_Serialization Metafile_Parsing
begin

text \<open>
  Writing and reading together: what \<open>parse_metafile\<close> finds in the value \<open>make_bvalue_v1\<close> made. One
  group of lemmas gives the lookups in the dictionaries the writer builds, one gives what each
  reading function does with such a lookup, and the properties put them together.
\<close>

section \<open>Lookups\<close>

declare om_insert_or_assign.simps [simp del]

lemma find_Cons [simp]: "om_find ((k, v) # d) k' = (if k' = k then Some v else om_find d k')"
  by (simp add: om_find_def)

lemma find_put [simp]: "om_find (put k v d) k' = (if k' = k then Some v else om_find d k')"
  by (simp add: om_find_assign)

lemma find_put_if [simp]:
  "om_find (put_if c k v d) k = (if c then Some v else om_find d k)"
  "k' \<noteq> k \<Longrightarrow> om_find (put_if c k v d) k' = om_find d k'"
  by (simp_all add: put_if_def)

lemma ok_put_if [simp]: "om_ok d \<Longrightarrow> om_ok (put_if c k v d)"
  by (simp add: put_if_def om_ok_assign)

lemma ok_Nil [simp]: "om_ok []"
  by (simp add: om_ok_def)

lemma ok_put [simp]: "om_ok d \<Longrightarrow> om_ok (put k v d)"
  by (rule om_ok_assign)

lemma ok_emplace [simp]: "om_ok d \<Longrightarrow> om_ok (om_emplace k v d)"
  by (rule om.invar_emplace)

lemma om_ok_distinct: "om_ok d \<Longrightarrow> distinct (map fst d)"
  by (auto simp: om_ok_def strict_sorted_iff)

lemma find_puts: "om_find (fold (\<lambda>(k, v). put k (f v)) kvs d) k =
    (case map_of (rev (map (\<lambda>(k, v). (k, f v)) kvs)) k of Some w \<Rightarrow> Some w | None \<Rightarrow> om_find d k)"
proof -
  have "fold (\<lambda>(k, v). put k (f v)) kvs d = fold (\<lambda>e. put (fst e) (snd e)) (map (\<lambda>(k, v). (k, f v)) kvs) d"
    by (induction kvs arbitrary: d) auto
  then show ?thesis
    using om.find_assigns [of "map (\<lambda>(k, v). (k, f v)) kvs" d] by (simp add: map_add_def)
qed

lemma ok_puts: "om_ok d \<Longrightarrow> om_ok (fold (\<lambda>(k, v). put k (f v)) kvs d)"
  by (induction kvs arbitrary: d) (auto intro: om_ok_assign)

lemma find_puts_ok:
  assumes "om_ok kvs"
  shows "om_find (fold (\<lambda>(k, v). put k (f v)) kvs d) k =
    (case om_find kvs k of Some v \<Rightarrow> Some (f v) | None \<Rightarrow> om_find d k)"
proof -
  let ?xs = "map (\<lambda>(k, v). (k, f v)) kvs"
  have "distinct (map fst ?xs)"
    using om_ok_distinct [OF assms] by (simp add: comp_def case_prod_beta)
  then have "map_of (rev ?xs) = map_of ?xs"
    by (metis distinct_rev map_of_inject_set rev_map set_rev)
  moreover have "map_of ?xs k = map_option f (map_of kvs k)" by (simp add: map_of_map)
  ultimately show ?thesis
    unfolding find_puts om_find_def [of kvs] by (simp split: option.splits)
qed

text \<open>Two ordered maps with the same lookups are equal, and filtering by key keeps the order.\<close>

lemma om_eqI: "om_ok a \<Longrightarrow> om_ok b \<Longrightarrow> (\<And>k. om_find a k = om_find b k) \<Longrightarrow> a = b"
  by (rule om.items_determined) auto

lemma om_ok_filter: "om_ok d \<Longrightarrow> om_ok (filter P d)"
  unfolding om_ok_def by (induction d) auto

lemma find_filter_key: "om_find (filter (\<lambda>(k, v). P k) d) k = (if P k then om_find d k else None)"
  by (induction d) (auto simp: om_find_def)

text \<open>Copying the entries of a map that pass a test into an empty map keeps exactly those.\<close>

lemma fold_put_filter:
  assumes "om_ok d"
  shows "fold (\<lambda>(k, v) m. if P k then m else put k v m) d [] = filter (\<lambda>(k, v). \<not> P k) d"
proof -
  have "fold (\<lambda>(k, v) m. if P k then m else put k v m) d m = fold (\<lambda>(k, v). put k v) (filter (\<lambda>(k, v). \<not> P k) d) m" for m
    by (induction d arbitrary: m) auto
  also have "fold (\<lambda>(k, v). put k v) (filter (\<lambda>(k, v). \<not> P k) d) [] = filter (\<lambda>(k, v). \<not> P k) d"
  proof (rule om_eqI)
    let ?xs = "filter (\<lambda>(k, v). \<not> P k) d"
    show "om_ok ?xs" by (rule om_ok_filter [OF assms])
    show "om_ok (fold (\<lambda>(k, v). put k v) ?xs [])" by (rule ok_puts) simp
    show "om_find (fold (\<lambda>(k, v). put k v) ?xs []) k = om_find ?xs k" for k
      using find_puts_ok [OF om_ok_filter [OF assms], of "\<lambda>v. v" _ "[]" k] by (simp split: option.splits)
  qed
  finally show ?thesis .
qed

section \<open>Paths, attributes, checksums\<close>

definition name_ok :: "string \<Rightarrow> bool" where
  "name_ok c \<longleftrightarrow> c \<noteq> [] \<and> CHR ''/'' \<notin> set c"

definition path_ok :: "path \<Rightarrow> bool" where
  "path_ok p \<longleftrightarrow> p \<noteq> [] \<and> list_all name_ok p"

lemma split_on_none: "c \<notin> set w \<Longrightarrow> split_on c w = [w]"
  by (induction w) auto

lemma path_of_name: "name_ok c \<Longrightarrow> path_of_string c = [c]"
  by (auto simp: path_of_string_def name_ok_def split_on_none)
    (metis last_in_set list.set_sel(1))+

lemma slash_name:
  assumes "name_ok c" "list_all name_ok p"
  shows "path_slash p [c] = p @ [c]"
proof -
  have "\<not> is_absolute [c]" using assms(1) by (auto simp: is_absolute_def name_ok_def)
  moreover have "p \<noteq> [] \<Longrightarrow> last p \<noteq> ''''"
    using assms(2) by (cases p rule: rev_cases) (auto simp: name_ok_def)
  ultimately show ?thesis by (auto simp: path_slash_def)
qed

lemma parse_path_value:
  assumes "bencode_laws B" "list_all name_ok p"
  shows "parse_path B (path_value B p) = Inr p"
proof -
  have "rfold (\<lambda>c p. rbind (bc_as_string B c) (\<lambda>s. Inr (path_slash p (path_of_string s))))
      (map (bc_of_string B) q) p0 = Inr (p0 @ q)" if "list_all name_ok p0" "list_all name_ok q" for p0 q
    using that
  proof (induction q arbitrary: p0)
    case (Cons c q)
    then show ?case
      using Cons.IH [of "p0 @ [c]"]
      by (simp add: bencode_simps [OF assms(1)] path_of_name slash_name)
  qed simp
  from this [of "[]" p] assms show ?thesis
    by (simp add: parse_path_def path_value_def bencode_simps [OF assms(1)])
qed


lemma attributes_read:
  "enum_and a known_attributes = a \<Longrightarrow> make_file_attributes (attributes_to_string a) = Inr a"
  by (simp add: attributes_round_trip)

text \<open>Reading the checksums of a file entry back from its dictionary.\<close>

definition hash_names_only :: "checksum omap \<Rightarrow> bool" where
  "hash_names_only cs \<longleftrightarrow> list_all (\<lambda>(k, c). is_hash_function_name k) cs"

lemma find_checksum:
  assumes "checksums_ok cs" "om_find cs k = Some c"
  shows "make_checksum k (checksum_value c) = Inr c" "checksum_name c = k"
proof -
  have "(k, c) \<in> set cs" using assms(2) by (simp add: om_find_def map_of_SomeD)
  then have "checksum_name c = k" "checksum_ok c" using assms(1) by (auto simp: checksums_ok_def)
  then show "make_checksum k (checksum_value c) = Inr c" "checksum_name c = k"
    using make_checksum_of_ok [of c] by auto
qed

lemma find_hash_name: "hash_names_only cs \<Longrightarrow> om_find cs k = Some c \<Longrightarrow> is_hash_function_name k"
  by (auto simp: hash_names_only_def om_find_def list_all_iff dest!: map_of_SomeD)

lemma add_checksums_loop:
  assumes "bencode_laws B" "checksums_ok cs"
    and "\<forall>(k, v) \<in> set fd. is_hash_function_name k \<longrightarrow>
      (\<exists>c. om_find cs k = Some c \<and> v = bc_of_bytes B (checksum_value c))"
    and "om_ok (fe_checksums e)" "\<forall>k c. om_find (fe_checksums e) k = Some c \<longrightarrow> om_find cs k = Some c"
  shows "\<exists>m. add_checksums B fd e = Inr (e\<lparr>fe_checksums := m\<rparr>) \<and> om_ok m \<and>
    (\<forall>k. om_find m k = (if is_hash_function_name k \<and> k \<in> fst ` set fd then om_find cs k
       else om_find (fe_checksums e) k))"
  using assms(3-5)
proof (induction fd arbitrary: e)
  case Nil
  then show ?case by (intro exI [of _ "fe_checksums e"]) (simp add: add_checksums_def)
next
  case (Cons kv fd)
  obtain k v where kv: "kv = (k, v)" by force
  have rest: "\<forall>(k, v) \<in> set fd. is_hash_function_name k \<longrightarrow>
      (\<exists>c. om_find cs k = Some c \<and> v = bc_of_bytes B (checksum_value c))"
    using Cons.prems(1) by auto
  show ?case
  proof (cases "is_hash_function_name k")
    case True
    then obtain c where c: "om_find cs k = Some c" "v = bc_of_bytes B (checksum_value c)"
      using Cons.prems(1) kv by auto
    let ?e = "fe_add_checksum c e"
    have find: "om_find (fe_checksums ?e) = (om_find (fe_checksums e))(k \<mapsto> c)"
      using Cons.prems(3) c(1) find_checksum(2) [OF assms(2) c(1)]
      by (auto simp: fe_add_checksum_def om.find_emplace fun_eq_iff split: option.splits)
    have "om_ok (fe_checksums ?e)"
      using Cons.prems(2) by (simp add: fe_add_checksum_def om.invar_emplace)
    moreover have "\<forall>k' c'. om_find (fe_checksums ?e) k' = Some c' \<longrightarrow> om_find cs k' = Some c'"
      using Cons.prems(3) c(1) by (auto simp: find)
    ultimately obtain m where m: "add_checksums B fd ?e = Inr (?e\<lparr>fe_checksums := m\<rparr>)" "om_ok m"
        "\<forall>k. om_find m k = (if is_hash_function_name k \<and> k \<in> fst ` set fd then om_find cs k
          else om_find (fe_checksums ?e) k)"
      using Cons.IH [OF rest, of ?e] by blast
    have "add_checksums B (kv # fd) e = Inr (e\<lparr>fe_checksums := m\<rparr>)"
      using True kv c m(1) find_checksum(1) [OF assms(2) c(1)]
      by (simp add: add_checksums_def bencode_simps [OF assms(1)] fe_add_checksum_def)
    moreover have "\<forall>k'. om_find m k' = (if is_hash_function_name k' \<and> k' \<in> fst ` set (kv # fd) then om_find cs k'
          else om_find (fe_checksums e) k')"
      using m(3) kv True c(1) by (auto simp: find)
    ultimately show ?thesis using m(2) by blast
  next
    case False
    have "add_checksums B (kv # fd) e = add_checksums B fd e"
      using False kv by (simp add: add_checksums_def)
    moreover obtain m where "add_checksums B fd e = Inr (e\<lparr>fe_checksums := m\<rparr>)" "om_ok m"
        "\<forall>k. om_find m k = (if is_hash_function_name k \<and> k \<in> fst ` set fd then om_find cs k
          else om_find (fe_checksums e) k)"
      using Cons.IH [OF rest Cons.prems(2,3)] by blast
    ultimately show ?thesis
      using False kv by (intro exI [of _ m]) auto
  qed
qed

lemma add_checksums_read:
  assumes "bencode_laws B" "checksums_ok cs" "hash_names_only cs" "om_ok fd" "fe_checksums e = []"
    and find: "\<And>k. is_hash_function_name k \<Longrightarrow>
      om_find fd k = map_option (\<lambda>c. bc_of_bytes B (checksum_value c)) (om_find cs k)"
  shows "add_checksums B fd e = Inr (e\<lparr>fe_checksums := cs\<rparr>)"
proof -
  have mem: "om_find fd k = Some v" if "(k, v) \<in> set fd" for k v
    using that om_ok_distinct [OF assms(4)] by (simp add: om_find_def)
  have keys: "k \<in> fst ` set fd \<longleftrightarrow> om_find fd k \<noteq> None" for k
    by (simp add: om_find_def map_of_eq_None_iff)
  have "\<forall>(k, v) \<in> set fd. is_hash_function_name k \<longrightarrow>
      (\<exists>c. om_find cs k = Some c \<and> v = bc_of_bytes B (checksum_value c))"
    using mem find by fastforce
  from add_checksums_loop [OF assms(1,2) this, of e] assms(5)
  obtain m where m: "add_checksums B fd e = Inr (e\<lparr>fe_checksums := m\<rparr>)" "om_ok m"
      "\<forall>k. om_find m k = (if is_hash_function_name k \<and> k \<in> fst ` set fd then om_find cs k else None)"
    by auto
  have "m = cs"
  proof (rule om_eqI [OF m(2)])
    show "om_ok cs" using assms(2) by (simp add: checksums_ok_def)
    show "om_find m k = om_find cs k" for k
      using m(3) find keys find_hash_name [OF assms(3)]
      by (cases "om_find cs k") auto
  qed
  with m(1) show ?thesis by simp
qed


section \<open>File entries\<close>

text \<open>
  The entries that survive: no link (the reader cannot read one), no modification time, only
  named attributes, only checksums of known functions, an ordinary relative path.
\<close>

definition file_plain :: "file_entry \<Rightarrow> bool" where
  "file_plain e \<longleftrightarrow> checksums_ok (fe_checksums e) \<and> hash_names_only (fe_checksums e) \<and>
     path_ok (fe_path e) \<and> fe_file_size e < size_bound \<and> \<not> fe_is_symlink e \<and>
     fe_symlink_path e = None \<and> fe_last_modified_time e = None \<and>
     (case fe_attributes e of Some a \<Rightarrow> enum_and a known_attributes = a | None \<Rightarrow> True)"

definition no_v2 :: "file_entry \<Rightarrow> bool" where
  "no_v2 e \<longleftrightarrow> \<not> fe_has_v2_data e \<and> fe_pieces_root e = hash_zero 32 \<and> fe_piece_layer e = []"

lemma names_not_hashes [simp]:
  "\<not> is_hash_function_name ''attr''" "\<not> is_hash_function_name ''length''"
  "\<not> is_hash_function_name ''path''" "\<not> is_hash_function_name ''name''"
  "\<not> is_hash_function_name ''symlink''" "\<not> is_hash_function_name ''pieces root''"
  "\<not> is_hash_function_name ''symlink path''" "\<not> is_hash_function_name ''piece length''"
  "\<not> is_hash_function_name ''pieces''" "\<not> is_hash_function_name ''files''"
  "\<not> is_hash_function_name ''private''" "\<not> is_hash_function_name ''source''"
  by (simp_all add: is_hash_function_name_def supported_hash_functions_def)

lemma find_put_checksums:
  assumes "checksums_ok (fe_checksums e)" "hash_names_only (fe_checksums e)"
  shows "om_find (put_checksums B e d) k =
    (case om_find (fe_checksums e) k of Some c \<Rightarrow> Some (bc_of_bytes B (checksum_value c)) | None \<Rightarrow> om_find d k)"
    "\<not> is_hash_function_name k \<Longrightarrow> om_find (put_checksums B e d) k = om_find d k"
proof -
  have "om_ok (fe_checksums e)" using assms(1) by (simp add: checksums_ok_def)
  from find_puts_ok [OF this, of "\<lambda>c. bc_of_bytes B (checksum_value c)" d]
  show *: "om_find (put_checksums B e d) k =
    (case om_find (fe_checksums e) k of Some c \<Rightarrow> Some (bc_of_bytes B (checksum_value c)) | None \<Rightarrow> om_find d k)" for k
    by (simp add: put_checksums_def)
  show "om_find (put_checksums B e d) k = om_find d k" if "\<not> is_hash_function_name k"
    using * [of k] find_hash_name [OF assms(2), of k] that by (auto split: option.splits)
qed

lemma ok_put_checksums: "om_ok d \<Longrightarrow> om_ok (put_checksums B e d)"
  by (simp add: put_checksums_def ok_puts)

lemma parse_size_value:
  assumes "bencode_laws B" "om_find fd ''length'' = Some (size_value B n)" "n < size_bound"
  shows "parse_file_size B fd = Inr n"
  using assms by (simp add: parse_file_size_def size_value_def bencode_simps)

lemma parse_attributes_value:
  assumes "bencode_laws B" "bc_dict B v = Some fd"
    "om_find fd ''attr'' = (case fe_attributes e of Some a \<Rightarrow> Some (attributes_value B a) | None \<Rightarrow> None)"
    "case fe_attributes e of Some a \<Rightarrow> enum_and a known_attributes = a | None \<Rightarrow> True"
  shows "parse_file_attributes B v = Inr (fe_attributes e)"
  using assms
  by (cases "fe_attributes e")
    (auto simp: parse_file_attributes_def root_dict_def holds_dict_def get_dict_def attributes_value_def
      bencode_simps attributes_read)

lemma fe_make_plain:
  assumes "file_plain e"
  shows "fe_make (fe_path e) (fe_file_size e) (fe_attributes e) None =
    Inr (e\<lparr>fe_checksums := [], fe_has_v2_data := False, fe_pieces_root := hash_zero 32, fe_piece_layer := []\<rparr>)"
  using assms
  by (simp add: fe_make_def Let_def fe_check_invariants_def fe_is_symlink_def fe_has_attribute_def file_plain_def)

lemma root_dict_of: "bc_dict B v = Some d \<Longrightarrow> root_dict B v = Inr d"
  by (simp add: root_dict_def holds_dict_def get_dict_def)

lemma parse_file_entry_read:
  assumes B: "bencode_laws B" and e: "file_plain e" and "no_v2 e"
  shows "\<exists>v. file_info_v1 B e = Inr v \<and> parse_file_entry_v1 B v = Inr e"
proof -
  define base where "base = put_attributes B e
    (put ''path'' (path_value B (fe_path e)) (put ''length'' (size_value B (fe_file_size e)) []))"
  define fd where "fd = put_checksums B e base"
  have cs: "checksums_ok (fe_checksums e)" "hash_names_only (fe_checksums e)"
    using e by (simp_all add: file_plain_def)
  have base: "om_find base k =
      (if k = ''path'' then Some (path_value B (fe_path e))
       else if k = ''length'' then Some (size_value B (fe_file_size e))
       else if k = ''attr'' then (case fe_attributes e of Some a \<Rightarrow> Some (attributes_value B a) | None \<Rightarrow> None)
       else None)" for k
    by (simp add: base_def put_attributes_def split: option.splits)
  have "om_ok base" by (simp add: base_def put_attributes_def split: option.splits)
  then have ok: "om_ok fd" by (simp add: fd_def ok_put_checksums)
  have info: "file_info_v1 B e = Inr (bc_of_dict B fd)"
    using e by (simp add: file_info_v1_def put_symlink_def file_plain_def fd_def base_def)
  have dict: "bc_dict B (bc_of_dict B fd) = Some fd" by (simp add: bencode_simps [OF B])
  note find = find_put_checksums(2) [OF cs, of _ B base, folded fd_def, unfolded base]
  have "parse_file_attributes B (bc_of_dict B fd) = Inr (fe_attributes e)"
    using e by (intro parse_attributes_value [OF B dict]) (simp_all add: find file_plain_def)
  moreover have "parse_file_size B fd = Inr (fe_file_size e)"
    using e by (intro parse_size_value [OF B]) (simp_all add: find file_plain_def)
  moreover have "parse_path B (path_value B (fe_path e)) = Inr (fe_path e)"
    using e by (intro parse_path_value [OF B]) (simp add: file_plain_def path_ok_def)
  moreover have "add_checksums B fd (e\<lparr>fe_checksums := []\<rparr>) = Inr (e\<lparr>fe_checksums := []\<rparr>\<lparr>fe_checksums := fe_checksums e\<rparr>)"
  proof (rule add_checksums_read [OF B cs ok])
    show "om_find fd k = map_option (\<lambda>c. bc_of_bytes B (checksum_value c)) (om_find (fe_checksums e) k)"
      if "is_hash_function_name k" for k
    proof -
      have "k \<noteq> ''path''" "k \<noteq> ''length''" "k \<noteq> ''attr''" using that by auto
      then show ?thesis
        using find_put_checksums(1) [OF cs, of B base k] by (simp add: fd_def base split: option.splits)
    qed
  qed simp
  moreover have "e\<lparr>fe_checksums := [], fe_has_v2_data := False, fe_pieces_root := hash_zero 32, fe_piece_layer := []\<rparr>
      = e\<lparr>fe_checksums := []\<rparr>"
    using \<open>no_v2 e\<close> by (cases e) (simp add: no_v2_def)
  ultimately have "parse_file_entry_v1 B (bc_of_dict B fd) = Inr e"
    using fe_make_plain [OF e]
    by (simp add: parse_file_entry_v1_def root_dict_of [OF dict] find parse_symlink_def)
  with info show ?thesis by blast
qed


lemma file_plain_move: "file_plain e \<Longrightarrow> st_add_file_move e st = Inr (st_push e st)"
  by (simp add: st_add_file_move_def fe_move_id fe_ok_def file_plain_def)

lemma file_list_read:
  assumes "bencode_laws B" "list_all file_plain es" "list_all no_v2 es"
  shows "\<exists>vs. file_list_value B es = Inr (bc_of_list B vs) \<and>
    (\<forall>st. rfold (\<lambda>f st. rbind (parse_file_entry_v1 B f) (\<lambda>e. st_add_file_move e st)) vs st
      = Inr (fold st_push es st))"
proof -
  have "\<exists>vs. rfold (\<lambda>file out. rbind (file_info_v1 B file) (\<lambda>v. Inr (out @ [v]))) es out = Inr (out @ vs) \<and>
      (\<forall>st. rfold (\<lambda>f st. rbind (parse_file_entry_v1 B f) (\<lambda>e. st_add_file_move e st)) vs st
        = Inr (fold st_push es st))" for out
    using assms(2,3)
  proof (induction es arbitrary: out)
    case (Cons e es)
    obtain v where v: "file_info_v1 B e = Inr v" "parse_file_entry_v1 B v = Inr e"
      using parse_file_entry_read [OF assms(1)] Cons.prems by auto
    obtain vs where vs: "rfold (\<lambda>file out. rbind (file_info_v1 B file) (\<lambda>v. Inr (out @ [v]))) es (out @ [v])
          = Inr ((out @ [v]) @ vs)"
        "\<forall>st. rfold (\<lambda>f st. rbind (parse_file_entry_v1 B f) (\<lambda>e. st_add_file_move e st)) vs st
          = Inr (fold st_push es st)"
      using Cons.IH [of "out @ [v]"] Cons.prems by auto
    show ?case
      using v vs file_plain_move [of e] Cons.prems by (intro exI [of _ "v # vs"]) simp
  qed simp
  from this [of "[]"] show ?thesis by (auto simp: file_list_value_def)
qed

section \<open>Trackers\<close>

definition level_value :: "'b bencode \<Rightarrow> string list \<Rightarrow> 'b" where
  "level_value B us = bc_of_list B (map (bc_of_string B) us)"

definition announce_step ::
    "'b bencode \<Rightarrow> announce_url \<Rightarrow> 'b list \<times> 'b list \<times> nat \<Rightarrow> 'b list \<times> 'b list \<times> nat" where
  "announce_step B a s =
     (let (tiers, level, current_tier) = s;
          (tiers, level, current_tier) =
            (if current_tier \<noteq> au_tier a then (tiers @ [bc_of_list B level], [], current_tier + 1)
             else (tiers, level, current_tier))
      in (tiers, level @ [bc_of_string B (au_url a)], current_tier))"

lemma announce_list_value_step:
  "announce_list_value B xs = (if xs = [] then bc_of_list B []
     else let (tiers, level, _) = fold (announce_step B) xs ([], [], 0)
          in bc_of_list B (tiers @ [bc_of_list B level]))"
proof -
  have "announce_step B = (\<lambda>a (tiers, level, current_tier).
      let (tiers, level, current_tier) =
            (if current_tier \<noteq> au_tier a then (tiers @ [bc_of_list B level], [], current_tier + 1)
             else (tiers, level, current_tier))
      in (tiers, level @ [bc_of_string B (au_url a)], current_tier))"
    by (auto simp: fun_eq_iff announce_step_def)
  then show ?thesis by (simp add: announce_list_value_def)
qed

lemma announce_level:
  "fold (announce_step B) (map (\<lambda>u. Announce_Url u k) us) (tiers, level, k)
    = (tiers, level @ map (bc_of_string B) us, k)"
  by (induction us arbitrary: level) (simp_all add: announce_step_def)

lemma announce_levels:
  assumes "tiers_ok n"
  shows "\<exists>t l j. fold (announce_step B) (flatten_from (Suc k) n) (tiers, level, k) = (t, l, j) \<and>
    t @ [bc_of_list B l] = tiers @ [bc_of_list B level] @ map (level_value B) n"
  using assms
proof (induction n arbitrary: tiers level k)
  case (Cons us n)
  then obtain u us' where us: "us = u # us'" by (cases us) (auto simp: tiers_ok_def)
  have "fold (announce_step B) (map (\<lambda>u. Announce_Url u (Suc k)) us) (tiers, level, k)
      = (tiers @ [bc_of_list B level], map (bc_of_string B) us, Suc k)"
    using announce_level [of B "Suc k" us' "tiers @ [bc_of_list B level]" "[bc_of_string B u]"]
    by (simp add: us announce_step_def)
  moreover have "tiers_ok n" using Cons.prems by (simp add: tiers_ok_def)
  ultimately show ?case
    using Cons.IH [of "Suc k" "tiers @ [bc_of_list B level]" "map (bc_of_string B) us"]
    by (auto simp: level_value_def)
qed simp

lemma announce_list_value_nested:
  assumes "announce_ok xs"
  shows "announce_list_value B xs = bc_of_list B (map (level_value B) (as_nested_vector xs))"
proof -
  note n = flatten_as_nested [OF assms]
  show ?thesis
  proof (cases "as_nested_vector xs")
    case Nil
    with n have "xs = []" by (metis flatten_from.simps(1))
    then show ?thesis by (simp add: announce_list_value_def as_nested_vector_def tier_count_def)
  next
    case (Cons us rest)
    then have us: "us \<noteq> []" "tiers_ok rest" using n(2) by (auto simp: tiers_ok_def)
    have xs: "xs = map (\<lambda>u. Announce_Url u 0) us @ flatten_from 1 rest" using n(1) Cons by simp
    have "fold (announce_step B) xs ([], [], 0)
        = fold (announce_step B) (flatten_from (Suc 0) rest) ([], map (bc_of_string B) us, 0)"
      using announce_level [of B 0 us "[]" "[]"] by (simp add: xs)
    moreover have "xs \<noteq> []" using xs us by simp
    ultimately show ?thesis
      using announce_levels [OF us(2), of B 0 "[]" "map (bc_of_string B) us"] Cons
      by (auto simp: announce_list_value_step level_value_def)
  qed
qed

lemma set_announce_insert: "announce_insert a xs = Inr ys \<Longrightarrow> set ys = insert a (set xs)"
proof -
  assume "announce_insert a xs = Inr ys"
  then obtain i where "ys = take i xs @ a # drop i xs"
    by (auto simp: announce_insert_def insert_at_def result_simps Let_def)
  moreover have "set (take i xs) \<union> set (drop i xs) = set xs"
    by (metis append_take_drop_id set_append)
  ultimately show ?thesis by auto
qed

lemma add_trackers_fresh:
  assumes "distinct (map au_url as)" "au_url ` set as \<inter> au_url ` set (mf_trackers m) = {}"
  shows "rfold mf_add_tracker as m =
    rbind (rfold announce_insert as (mf_trackers m)) (\<lambda>xs. Inr (m\<lparr>mf_trackers := xs\<rparr>))"
  using assms
proof (induction as arbitrary: m)
  case (Cons a as)
  have "add_tracker_to a (mf_trackers m) = announce_insert a (mf_trackers m)"
    using Cons.prems(2) by (intro add_tracker_fresh) auto
  moreover have "rfold mf_add_tracker as (m\<lparr>mf_trackers := ys\<rparr>) =
      rbind (rfold announce_insert as ys) (\<lambda>xs. Inr (m\<lparr>mf_trackers := xs\<rparr>))"
    if "announce_insert a (mf_trackers m) = Inr ys" for ys
    using Cons.IH [of "m\<lparr>mf_trackers := ys\<rparr>"] Cons.prems set_announce_insert [OF that] by auto
  moreover have "mf_add_tracker a m = rbind (add_tracker_to a (mf_trackers m)) (\<lambda>xs. Inr (m\<lparr>mf_trackers := xs\<rparr>))"
    by (rule mf_add_tracker_def)
  ultimately show ?case
    by (cases "announce_insert a (mf_trackers m)") simp_all
qed simp

lemma rfold_map: "rfold f (map g xs) s = rfold (\<lambda>x. f (g x)) xs s"
proof (induction xs arbitrary: s)
  case (Cons x xs)
  then show ?case by (cases "f (g x) s") simp_all
qed simp

lemma parse_levels:
  assumes "bencode_laws B"
  shows "rfold (\<lambda>(tier, e) m. rbind (get_list B e) (\<lambda>level.
           rfold (\<lambda>a m. rbind (get_string B a) (\<lambda>s. mf_add_tracker (Announce_Url s tier) m)) level m))
         (enumerate k (map (level_value B) n)) m = rfold mf_add_tracker (flatten_from k n) m"
proof (induction n arbitrary: k m)
  case (Cons us n)
  have "rfold (\<lambda>a m. rbind (get_string B a) (\<lambda>s. mf_add_tracker (Announce_Url s k) m)) (map (bc_of_string B) us) m
      = rfold mf_add_tracker (map (\<lambda>u. Announce_Url u k) us) m"
    by (simp add: rfold_map bencode_simps [OF assms])
  with Cons show ?case
    by (cases "rfold mf_add_tracker (map (\<lambda>u. Announce_Url u k) us) m")
      (simp_all add: level_value_def bencode_simps [OF assms] rfold_append)
qed simp

lemma parse_announce_list_read:
  assumes "bencode_laws B" "trackers_ok xs" "mf_trackers m = []"
  shows "parse_announce_list B (announce_list_value B xs) m = Inr (m\<lparr>mf_trackers := xs\<rparr>)"
proof -
  have ok: "announce_ok xs" "distinct (map au_url xs)" using assms(2) by (simp_all add: trackers_ok_def)
  let ?n = "as_nested_vector xs"
  note n = flatten_as_nested [OF ok(1)]
  obtain s' where s': "rfold announce_insert xs [] = Inr s'" "announce_ok s'" "as_nested_vector s' = map sort ?n"
    using al.load_levels [of "[]" ?n] n
    by (auto simp: announce_ok_def as_nested_vector_def tier_count_def tiers_ok_def)
  have "map sort ?n = ?n" using n(2) by (auto simp: tiers_ok_def intro: map_idI sorted_sort_id)
  then have "s' = xs" using s'(2,3) n(1) flatten_as_nested(1) by metis
  then show ?thesis
    using s'(1) ok(2) assms(3) add_trackers_fresh [of xs m] parse_levels [OF assms(1), of 0 ?n m] n(1)
    by (simp add: parse_announce_list_def announce_list_value_nested [OF ok(1)] bencode_simps [OF assms(1)])
qed


section \<open>Metafiles that survive\<close>

definition similar_plain :: "info_hash \<Rightarrow> bool" where
  "similar_plain k \<longleftrightarrow> (\<exists>h. k = info_hash_v1_only h \<and> length h = 20 \<or> k = info_hash_v2_only h \<and> length h = 32)"

text \<open>Keys of the info dictionary that another field uses, or that the reader takes for one.\<close>

definition free_key :: "string \<Rightarrow> bool" where
  "free_key k \<longleftrightarrow> k \<notin> set known_info_keys \<and> \<not> is_hash_function_name k \<and>
     k \<notin> {''cross_seed_entry'', ''collections'', ''similar'', ''attr'', ''path'', ''symlink'', ''pieces root''}"

definition writable :: "'b metafile \<Rightarrow> bool" where
  "writable m \<longleftrightarrow> trackers_ok (mf_trackers m) \<and>
     distinct (mf_http_seeds m) \<and> distinct (mf_web_seeds m) \<and> distinct (mf_dht_nodes m) \<and>
     mf_creation_seconds m < size_bound \<and> int64 (mf_creation_date m * 10 ^ 9) \<and>
     Ball (mf_similar_torrents m) similar_plain \<and>
     om_ok (mf_other_info_fields m) \<and> (\<forall>k. om_find (mf_other_info_fields m) k \<noteq> None \<longrightarrow> free_key k)"

section \<open>The common fields\<close>

definition optional_entry :: "bool \<Rightarrow> 'a \<Rightarrow> 'a option" where
  "optional_entry c v = (if c then Some v else None)"

lemma similar_list_run:
  assumes "list_all similar_plain ks"
  shows "\<exists>hs. similar_list_value B ks = Inr (bc_of_list B (map (hash_value B) hs)) \<and>
    list_all2 (\<lambda>k h. k = info_hash_v1_only h \<and> length h = 20 \<or> k = info_hash_v2_only h \<and> length h = 32) ks hs"
proof -
  have "\<exists>hs. rfold (\<lambda>k out. rbind (similar_values B k) (\<lambda>vs. Inr (out @ vs))) ks out
        = Inr (out @ map (hash_value B) hs) \<and>
      list_all2 (\<lambda>k h. k = info_hash_v1_only h \<and> length h = 20 \<or> k = info_hash_v2_only h \<and> length h = 32) ks hs" for out
    using assms
  proof (induction ks arbitrary: out)
    case (Cons k ks)
    then obtain h where h: "k = info_hash_v1_only h \<and> length h = 20 \<or> k = info_hash_v2_only h \<and> length h = 32"
      by (auto simp: similar_plain_def)
    then have "similar_values B k = Inr [hash_value B h]"
      by (auto simp: similar_values_def info_hash_v1_only_def info_hash_v2_only_def deref_def)
    moreover obtain hs where "rfold (\<lambda>k out. rbind (similar_values B k) (\<lambda>vs. Inr (out @ vs))) ks (out @ [hash_value B h])
          = Inr ((out @ [hash_value B h]) @ map (hash_value B) hs)"
        "list_all2 (\<lambda>k h. k = info_hash_v1_only h \<and> length h = 20 \<or> k = info_hash_v2_only h \<and> length h = 32) ks hs"
      using Cons.IH [of "out @ [hash_value B h]"] Cons.prems by auto
    ultimately show ?case using h by (intro exI [of _ "h # hs"]) simp
  qed simp
  from this [of "[]"] show ?thesis by (auto simp: similar_list_value_def)
qed

text \<open>What the reader finds under each key the common part may write.\<close>

definition common_lookups :: "'b bencode \<Rightarrow> platform \<Rightarrow> 'b metafile \<Rightarrow> 'b \<Rightarrow> 'b omap \<Rightarrow> bool" where
  "common_lookups B P m similar d \<longleftrightarrow>
     om_find d ''announce'' = optional_entry (mf_trackers m \<noteq> []) (bc_of_string B (au_url (mf_trackers m ! 0))) \<and>
     om_find d ''announce-list'' = optional_entry (mf_trackers m \<noteq> []) (announce_list_value B (mf_trackers m)) \<and>
     om_find d ''comment'' = optional_entry (mf_comment m \<noteq> []) (bc_of_string B (mf_comment m)) \<and>
     om_find d ''created by'' = optional_entry (mf_created_by m \<noteq> []) (bc_of_string B (mf_created_by m)) \<and>
     om_find d ''creation date'' = optional_entry (mf_creation_date m \<noteq> 0) (bc_of_integer B (mf_creation_date m)) \<and>
     om_find d ''collections'' = optional_entry (mf_collections m \<noteq> {})
       (bc_of_list B (map (bc_of_string B) (pf_string_order P (mf_collections m)))) \<and>
     om_find d ''httpseeds'' = optional_entry (mf_http_seeds m \<noteq> []) (bc_of_list B (map (bc_of_string B) (mf_http_seeds m))) \<and>
     om_find d ''similar'' = optional_entry (mf_similar_torrents m \<noteq> {}) similar \<and>
     om_find d ''url-list'' = optional_entry (mf_web_seeds m \<noteq> []) (bc_of_list B (map (bc_of_string B) (mf_web_seeds m))) \<and>
     om_find d ''nodes'' = optional_entry (mf_dht_nodes m \<noteq> []) (bc_of_list B (map (dht_node_value B) (mf_dht_nodes m)))"

lemma common_lookupsD:
  assumes "common_lookups B P m similar d"
  shows "om_find d ''announce'' = optional_entry (mf_trackers m \<noteq> []) (bc_of_string B (au_url (mf_trackers m ! 0)))"
    "om_find d ''announce-list'' = optional_entry (mf_trackers m \<noteq> []) (announce_list_value B (mf_trackers m))"
    "om_find d ''comment'' = optional_entry (mf_comment m \<noteq> []) (bc_of_string B (mf_comment m))"
    "om_find d ''created by'' = optional_entry (mf_created_by m \<noteq> []) (bc_of_string B (mf_created_by m))"
    "om_find d ''creation date'' = optional_entry (mf_creation_date m \<noteq> 0) (bc_of_integer B (mf_creation_date m))"
    "om_find d ''collections'' = optional_entry (mf_collections m \<noteq> {})
       (bc_of_list B (map (bc_of_string B) (pf_string_order P (mf_collections m))))"
    "om_find d ''httpseeds'' = optional_entry (mf_http_seeds m \<noteq> []) (bc_of_list B (map (bc_of_string B) (mf_http_seeds m)))"
    "om_find d ''similar'' = optional_entry (mf_similar_torrents m \<noteq> {}) similar"
    "om_find d ''url-list'' = optional_entry (mf_web_seeds m \<noteq> []) (bc_of_list B (map (bc_of_string B) (mf_web_seeds m)))"
    "om_find d ''nodes'' = optional_entry (mf_dht_nodes m \<noteq> []) (bc_of_list B (map (dht_node_value B) (mf_dht_nodes m)))"
  using assms by (simp_all add: common_lookups_def)

lemma common_run:
  assumes "mf_similar_torrents m \<noteq> {} \<Longrightarrow> similar_list_value B (pf_hash_order P (mf_similar_torrents m)) = Inr similar"
  shows "\<exists>d. make_bvalue_common B P m = Inr d \<and> om_ok d \<and> common_lookups B P m similar d"
proof -
  show ?thesis
    using assms
    by (cases "mf_similar_torrents m = {}")
      (simp_all add: make_bvalue_common_def Let_def common_lookups_def optional_entry_def om.find_emplace
        cong: if_cong split del: if_split)
qed


subsection \<open>Reading them\<close>

lemma optional_entry_simps [simp]:
  "optional_entry True v = Some v" "optional_entry False v = None"
  by (simp_all add: optional_entry_def)

lemma parse_key_optional:
  assumes "om_find D key = optional_entry c v" "c \<Longrightarrow> rbind (get v) (\<lambda>x. store x m) = Inr m'" "\<not> c \<Longrightarrow> m = m'"
  shows "parse_key D key get store m = Inr m'"
  using assms by (cases c) (simp_all add: parse_key_def)

lemma add_strings_read:
  assumes "bencode_laws B"
  shows "rbind (get_list B (bc_of_list B (map (bc_of_string B) xs)))
      (\<lambda>l. add_each (get_string B) (\<lambda>s m. Inr (f s m)) l m) = Inr (fold f xs m)"
proof -
  have "rfold (\<lambda>s m. Inr (f s m)) xs m = Inr (fold f xs m)" by (rule rfold_total) simp
  then show ?thesis by (simp add: add_each_def rfold_map bencode_simps [OF assms])
qed

lemma add_unique_fresh: "x \<notin> set xs \<Longrightarrow> add_unique x xs = xs @ [x]"
  by (simp add: add_unique_def find_index_missing)

lemma fold_add_unique: "distinct ys \<Longrightarrow> set ys \<inter> set xs = {} \<Longrightarrow> fold add_unique ys xs = xs @ ys"
  by (induction ys arbitrary: xs) (auto simp: add_unique_fresh)

lemma fold_add_http: "fold mf_add_http_seed ys m = m\<lparr>mf_http_seeds := fold add_unique ys (mf_http_seeds m)\<rparr>"
  by (induction ys arbitrary: m) (simp_all add: mf_add_http_seed_def)

lemma fold_add_web: "fold mf_add_web_seed ys m = m\<lparr>mf_web_seeds := fold add_unique ys (mf_web_seeds m)\<rparr>"
  by (induction ys arbitrary: m) (simp_all add: mf_add_web_seed_def)

lemma fold_add_node: "fold mf_add_dht_node ys m = m\<lparr>mf_dht_nodes := fold add_unique ys (mf_dht_nodes m)\<rparr>"
  by (induction ys arbitrary: m) (simp_all add: mf_add_dht_node_def)

lemma fold_add_collection: "fold mf_add_collection ys m = m\<lparr>mf_collections := mf_collections m \<union> set ys\<rparr>"
  by (induction ys arbitrary: m) (simp_all add: mf_add_collection_def)

lemma fold_add_similar: "fold mf_add_similar_torrent ys m = m\<lparr>mf_similar_torrents := mf_similar_torrents m \<union> set ys\<rparr>"
  by (induction ys arbitrary: m) (simp_all add: mf_add_similar_torrent_def)

text \<open>A value whose dictionary and info dictionary hold the common fields of a metafile.\<close>

definition torrent_of ::
    "'b bencode \<Rightarrow> platform \<Rightarrow> 'b metafile \<Rightarrow> 'b \<Rightarrow> 'b \<Rightarrow> 'b omap \<Rightarrow> 'b omap \<Rightarrow> bool" where
  "torrent_of B P m similar data D I \<longleftrightarrow>
     bencode_laws B \<and> platform_ok P m \<and> writable m \<and> bc_dict B data = Some D \<and>
     (\<exists>iv. om_find D ''info'' = Some iv \<and> bc_dict B iv = Some I) \<and> common_lookups B P m similar D \<and>
     (mf_similar_torrents m \<noteq> {} \<longrightarrow>
       similar_list_value B (pf_hash_order P (mf_similar_torrents m)) = Inr similar)"

lemma torrent_ofD:
  assumes "torrent_of B P m similar data D I"
  shows "bencode_laws B" "platform_ok P m" "writable m" "common_lookups B P m similar D"
    "root_dict B data = Inr D" "info_dict B data = Inr I" "rbind (dict_at D ''info'') (get_dict B) = Inr I"
  using assms by (auto simp: torrent_of_def root_dict_of info_dict_def dict_at_def get_dict_def)

lemma announce_read:
  assumes t: "torrent_of B P m similar data D I" and "mf_trackers m0 = []"
  shows "parse_announce B data m0 = Inr (m0\<lparr>mf_trackers := mf_trackers m\<rparr>)"
proof (cases "mf_trackers m = []")
  case True
  then show ?thesis
    using torrent_ofD(4) [OF t] assms(2) by (simp add: parse_announce_def torrent_ofD(5) [OF t] common_lookups_def)
next
  case False
  have ok: "trackers_ok (mf_trackers m)" using torrent_ofD(3) [OF t] by (simp add: writable_def)
  have list: "parse_announce_list B (announce_list_value B (mf_trackers m)) m0 = Inr (m0\<lparr>mf_trackers := mf_trackers m\<rparr>)"
    by (rule parse_announce_list_read [OF torrent_ofD(1) [OF t] ok assms(2)])
  have "announce_ok (mf_trackers m)" using ok by (simp add: trackers_ok_def)
  from announce_lookup(2) [OF this, of "au_url (mf_trackers m ! 0)"]
  have "announce_contains_url (mf_trackers m) (au_url (mf_trackers m ! 0))"
    using False by force
  then show ?thesis
    using torrent_ofD(4) [OF t] False list
    by (simp add: parse_announce_def torrent_ofD(5) [OF t] common_lookups_def bencode_simps [OF torrent_ofD(1) [OF t]] add_first_announce_def)
qed

lemma comment_read:
  assumes t: "torrent_of B P m similar data D I" and "mf_comment m0 = []"
  shows "parse_comment B data m0 = Inr (m0\<lparr>mf_comment := mf_comment m\<rparr>)"
  using assms(2) unfolding parse_comment_def torrent_ofD(5) [OF t] rbind.simps
  by (intro parse_key_optional [OF common_lookupsD(3) [OF torrent_ofD(4) [OF t]]])
    (simp_all add: bencode_simps [OF torrent_ofD(1) [OF t]] mf_set_comment_def)

lemma created_by_read:
  assumes t: "torrent_of B P m similar data D I" and "mf_created_by m0 = []"
  shows "parse_created_by B data m0 = Inr (m0\<lparr>mf_created_by := mf_created_by m\<rparr>)"
  using assms(2) unfolding parse_created_by_def torrent_ofD(5) [OF t] rbind.simps
  by (intro parse_key_optional [OF common_lookupsD(4) [OF torrent_ofD(4) [OF t]]])
    (simp_all add: bencode_simps [OF torrent_ofD(1) [OF t]] mf_set_created_by_def)

lemma creation_date_read:
  assumes t: "torrent_of B P m similar data D I" and "mf_creation_seconds m0 = 0"
  shows "parse_creation_date B data m0 = Inr (m0\<lparr>mf_creation_seconds := mf_creation_seconds m\<rparr>)"
proof -
  have small: "mf_creation_seconds m < size_bound" "int64 (mf_creation_date m * 10 ^ 9)" "int64 (mf_creation_date m)"
    using torrent_ofD(3) [OF t] by (simp_all add: writable_def mf_creation_date_def)
  have "mf_creation_seconds m = 0" if "mf_creation_date m = 0"
    using size_of_integer_of_size [OF small(1)] that by (simp add: mf_creation_date_def size_of_integer_def)
  then show ?thesis
    using assms(2) small unfolding parse_creation_date_def torrent_ofD(5) [OF t] rbind.simps
    by (intro parse_key_optional [OF common_lookupsD(5) [OF torrent_ofD(4) [OF t]]])
      (simp_all add: bencode_simps [OF torrent_ofD(1) [OF t]] mf_set_creation_date_def, simp add: mf_creation_date_def)
qed

lemma http_seeds_read:
  assumes t: "torrent_of B P m similar data D I" and "mf_http_seeds m0 = []"
  shows "parse_http_seeds B data m0 = Inr (m0\<lparr>mf_http_seeds := mf_http_seeds m\<rparr>)"
  using torrent_ofD(3) [OF t] assms(2) unfolding parse_http_seeds_def torrent_ofD(5) [OF t] rbind.simps
  by (intro parse_key_optional [OF common_lookupsD(7) [OF torrent_ofD(4) [OF t]]])
    (simp_all add: add_strings_read [OF torrent_ofD(1) [OF t]] fold_add_http fold_add_unique writable_def)

lemma web_seeds_read:
  assumes t: "torrent_of B P m similar data D I" and "mf_web_seeds m0 = []"
  shows "parse_web_seeds B data m0 = Inr (m0\<lparr>mf_web_seeds := mf_web_seeds m\<rparr>)"
  using torrent_ofD(3) [OF t] assms(2) unfolding parse_web_seeds_def torrent_ofD(5) [OF t] rbind.simps
  by (intro parse_key_optional [OF common_lookupsD(9) [OF torrent_ofD(4) [OF t]]])
    (simp_all add: add_strings_read [OF torrent_ofD(1) [OF t]] fold_add_web fold_add_unique writable_def)

lemma add_nodes_run: "rfold (\<lambda>n m. Inr (mf_add_dht_node n m)) ns m = Inr (fold mf_add_dht_node ns m)"
  by (rule rfold_total) simp

lemma dht_nodes_read:
  assumes t: "torrent_of B P m similar data D I" and "mf_dht_nodes m0 = []"
  shows "parse_dht_nodes B data m0 = Inr (m0\<lparr>mf_dht_nodes := mf_dht_nodes m\<rparr>)"
proof -
  have "dht_node_make (dn_url n) (word_of_int (uint (dn_port n))) = n" for n
    by (simp add: dht_node_make_def)
  then have node: "rbind (get_list B (dht_node_value B n)) (\<lambda>tuple. rbind (expects (length tuple = 2)) (\<lambda>_.
      rbind (get_string B (tuple ! 0)) (\<lambda>url. rbind (get_integer B (tuple ! 1)) (\<lambda>port.
        Inr (mf_add_dht_node_url url (word_of_int port) m1))))) = Inr (mf_add_dht_node n m1)" for n m1
    by (simp add: dht_node_value_def bencode_simps [OF torrent_ofD(1) [OF t]] mf_add_dht_node_url_def)
  show ?thesis
    using torrent_ofD(3) [OF t] assms(2) unfolding parse_dht_nodes_def torrent_ofD(5) [OF t] rbind.simps
    by (intro parse_key_optional [OF common_lookupsD(10) [OF torrent_ofD(4) [OF t]]])
      (simp_all add: add_each_def rfold_map node [unfolded One_nat_def] bencode_simps [OF torrent_ofD(1) [OF t]]
        add_nodes_run fold_add_node fold_add_unique writable_def)
qed


lemma collections_read:
  assumes t: "torrent_of B P m similar data D I" and "mf_collections m0 = {}" "om_find I ''collections'' = None"
  shows "parse_collections B data m0 = Inr (m0\<lparr>mf_collections := mf_collections m\<rparr>)"
proof -
  have "set (pf_string_order P (mf_collections m)) = mf_collections m"
    using torrent_ofD(2,3) [OF t] by (simp add: platform_ok_def writable_def)
  then have "parse_key D ''collections'' (get_list B)
      (add_each (get_string B) (\<lambda>s m. Inr (mf_add_collection s m))) m0 = Inr (m0\<lparr>mf_collections := mf_collections m\<rparr>)"
    using assms(2)
    by (intro parse_key_optional [OF common_lookupsD(6) [OF torrent_ofD(4) [OF t]]])
      (simp_all add: add_strings_read [OF torrent_ofD(1) [OF t]] fold_add_collection)
  then show ?thesis
    unfolding parse_collections_def torrent_ofD(5) [OF t] rbind.simps torrent_ofD(7) [OF t] Let_def
    using assms(3) by (simp add: parse_key_def [of I])
qed

lemma add_infohash_read:
  assumes "k = info_hash_v1_only h \<and> length h = 20 \<or> k = info_hash_v2_only h \<and> length h = 32"
  shows "add_infohash (hash_view h) m = Inr (mf_add_similar_torrent k m)"
  using assms
  by (auto simp: add_infohash_def info_hash_of_data_def hash_view_def hash_of_view_def
      info_hash_v1_only_def info_hash_v2_only_def)

lemma add_infohashes_read:
  assumes "list_all2 (\<lambda>k h. k = info_hash_v1_only h \<and> length h = 20 \<or> k = info_hash_v2_only h \<and> length h = 32) ks hs"
  shows "rfold (\<lambda>h m. add_infohash (hash_view h) m) hs m = Inr (fold mf_add_similar_torrent ks m)"
  using assms
proof (induction ks hs arbitrary: m rule: list_all2_induct)
  case (Cons k ks h hs)
  then show ?case by (simp add: add_infohash_read)
qed simp

lemma similar_read:
  assumes t: "torrent_of B P m similar data D I" and "mf_similar_torrents m0 = {}" "om_find I ''similar'' = None"
  shows "parse_similar_torrents B data m0 = Inr (m0\<lparr>mf_similar_torrents := mf_similar_torrents m\<rparr>)"
proof -
  let ?ks = "pf_hash_order P (mf_similar_torrents m)"
  have ks: "set ?ks = mf_similar_torrents m"
    using torrent_ofD(2,3) [OF t] by (simp add: platform_ok_def writable_def)
  then have "list_all similar_plain ?ks"
    using torrent_ofD(3) [OF t] by (simp add: writable_def list_all_iff)
  from similar_list_run [OF this, of B] obtain hs
    where hs: "similar_list_value B ?ks = Inr (bc_of_list B (map (hash_value B) hs))"
      "list_all2 (\<lambda>k h. k = info_hash_v1_only h \<and> length h = 20 \<or> k = info_hash_v2_only h \<and> length h = 32) ?ks hs"
    by blast
  note add_infohashes_read [OF hs(2), of m0]
  then have *: "add_each (get_string B) add_infohash (map (hash_value B) hs) m0 = Inr (m0\<lparr>mf_similar_torrents := mf_similar_torrents m\<rparr>)"
    using assms(2) ks
    by (simp add: add_each_def rfold_map hash_value_def bencode_simps [OF torrent_ofD(1) [OF t]] fold_add_similar)
  have "similar = bc_of_list B (map (hash_value B) hs)" if "mf_similar_torrents m \<noteq> {}"
    using t hs(1) that by (simp add: torrent_of_def)
  then have "parse_key D ''similar'' (get_list B) (add_each (get_string B) add_infohash) m0
      = Inr (m0\<lparr>mf_similar_torrents := mf_similar_torrents m\<rparr>)"
    using assms(2) *
    by (intro parse_key_optional [OF common_lookupsD(8) [OF torrent_ofD(4) [OF t]]])
      (simp_all add: bencode_simps [OF torrent_ofD(1) [OF t]])
  then show ?thesis
    unfolding parse_similar_torrents_def torrent_ofD(5) [OF t] rbind.simps torrent_ofD(7) [OF t] Let_def
    using assms(3) by (simp add: parse_key_def [of I])
qed

section \<open>The info dictionary\<close>

lemma private_read:
  assumes t: "torrent_of B P m similar data D I" and "\<not> mf_private m0"
    "om_find I ''private'' = optional_entry (mf_private m) (bc_of_integer B 1)"
  shows "parse_private B data m0 = Inr (m0\<lparr>mf_private := mf_private m\<rparr>)"
  using assms(2) unfolding parse_private_def torrent_ofD(6) [OF t] rbind.simps
  by (intro parse_key_optional [OF assms(3)])
    (simp_all add: bencode_simps [OF torrent_ofD(1) [OF t]] mf_set_private_def)

lemma source_read:
  assumes t: "torrent_of B P m similar data D I" and "mf_source m0 = []"
    "om_find I ''source'' = optional_entry (mf_source m \<noteq> []) (bc_of_string B (mf_source m))"
  shows "parse_source B data m0 = Inr (m0\<lparr>mf_source := mf_source m\<rparr>)"
  using assms(2) unfolding parse_source_def torrent_ofD(6) [OF t] rbind.simps
  by (intro parse_key_optional [OF assms(3)])
    (simp_all add: bencode_simps [OF torrent_ofD(1) [OF t]] mf_set_source_def)

lemma name_read:
  assumes t: "torrent_of B P m similar data D I" and "om_find I ''name'' = Some (bc_of_string B s)"
  shows "parse_name B data m0 = Inr (m0\<lparr>mf_name := s\<rparr>)"
  unfolding parse_name_def torrent_ofD(6) [OF t] rbind.simps
  using assms(2) by (simp add: parse_key_def bencode_simps [OF torrent_ofD(1) [OF t]] mf_set_name_def)

text \<open>
  The fields the reader does not know are those the metafile was given, and the hash of the
  trackers when cross seeding was on.
\<close>

definition other_fields_read :: "'b bencode \<Rightarrow> platform \<Rightarrow> 'b metafile \<Rightarrow> 'b omap" where
  "other_fields_read B P m =
     put_if (mf_cross_seeding m) ''cross_seed_entry'' (bc_of_string B (make_cross_seed_hash P (mf_trackers m)))
       (mf_other_info_fields m)"

lemma other_fields_fold:
  "fold (\<lambda>(k, v) m. if k \<in> S then m else m\<lparr>mf_other_info_fields := put k v (mf_other_info_fields m)\<rparr>) d m
    = m\<lparr>mf_other_info_fields := fold (\<lambda>(k, v) o'. if k \<in> S then o' else put k v o') d (mf_other_info_fields m)\<rparr>"
  by (induction d arbitrary: m) auto

lemma tail_find:
  assumes "writable m"
  shows "om_find (put_info_tail B P m d) k =
    (if mf_cross_seeding m \<and> k = ''cross_seed_entry'' then Some (bc_of_string B (make_cross_seed_hash P (mf_trackers m)))
     else case om_find (mf_other_info_fields m) k of Some v \<Rightarrow> Some v
     | None \<Rightarrow>
       if mf_source m \<noteq> [] \<and> k = ''source'' then Some (bc_of_string B (mf_source m))
       else if mf_private m \<and> k = ''private'' then Some (bc_of_integer B 1)
       else om_find d k)"
proof -
  have "om_ok (mf_other_info_fields m)" using assms by (simp add: writable_def)
  from find_puts_ok [OF this, of "\<lambda>v. v"] show ?thesis
    by (cases "om_find (mf_other_info_fields m) k") (auto simp: put_info_tail_def Let_def put_if_def)
qed

lemma ok_tail: "om_ok d \<Longrightarrow> om_ok (put_info_tail B P m d)"
  by (simp add: put_info_tail_def Let_def ok_puts [where f = "\<lambda>v. v"])

lemma not_free [simp]:
  assumes "writable m" "\<not> free_key k"
  shows "om_find (mf_other_info_fields m) k = None"
  using assms by (auto simp: writable_def)

lemma other_fields_parsed:
  assumes t: "torrent_of B P m similar data D I" and "mf_other_info_fields m0 = []"
    and I: "I = put_info_tail B P m d" "om_ok d" "\<And>k. om_find d k \<noteq> None \<Longrightarrow> k \<in> set known_info_keys"
  shows "parse_other_info_fields B data m0 = Inr (m0\<lparr>mf_other_info_fields := other_fields_read B P m\<rparr>)"
proof -
  have w: "writable m" by (rule torrent_ofD(3) [OF t])
  have ok: "om_ok I" using I ok_tail by blast
  have "filter (\<lambda>(k, v). k \<notin> set known_info_keys) I = other_fields_read B P m"
  proof (rule om_eqI)
    show "om_ok (filter (\<lambda>(k, v). k \<notin> set known_info_keys) I)" by (rule om_ok_filter [OF ok])
    show "om_ok (other_fields_read B P m)"
      using w by (simp add: other_fields_read_def writable_def)
    fix k
    show "om_find (filter (\<lambda>(k, v). k \<notin> set known_info_keys) I) k = om_find (other_fields_read B P m) k"
    proof (cases "k \<in> set known_info_keys")
      case True
      then have "k \<noteq> ''cross_seed_entry''" "\<not> free_key k" by (auto simp: known_info_keys_def free_key_def)
      then show ?thesis
        using True w by (simp add: find_filter_key other_fields_read_def)
    next
      case False
      then have "om_find d k = None" using I(3) by blast
      moreover have "k \<noteq> ''source''" "k \<noteq> ''private''"
        using False by (auto simp: known_info_keys_def)
      ultimately show ?thesis
        using False by (simp add: find_filter_key I(1) tail_find [OF w] other_fields_read_def put_if_def
            split: option.splits)
    qed
  qed
  then show ?thesis
    using fold_put_filter [OF ok, of "\<lambda>k. k \<in> set known_info_keys"] assms(2)
    by (simp add: parse_other_info_fields_def torrent_ofD(6) [OF t] other_fields_fold)
qed


lemma common_steps_read:
  assumes t: "torrent_of B P m similar data D I"
    and "om_find I ''private'' = optional_entry (mf_private m) (bc_of_integer B 1)"
    and "om_find I ''name'' = Some (bc_of_string B s)"
    and "om_find I ''collections'' = None" "om_find I ''similar'' = None"
  shows "rfold (\<lambda>step. step) (common_steps B data) mf_empty =
    Inr (mf_empty\<lparr>mf_trackers := mf_trackers m, mf_http_seeds := mf_http_seeds m,
      mf_web_seeds := mf_web_seeds m, mf_dht_nodes := mf_dht_nodes m, mf_name := s,
      mf_comment := mf_comment m, mf_creation_seconds := mf_creation_seconds m,
      mf_created_by := mf_created_by m, mf_private := mf_private m,
      mf_similar_torrents := mf_similar_torrents m, mf_collections := mf_collections m\<rparr>)"
  by (simp add: common_steps_def mf_empty_def announce_read [OF t] private_read [OF t _ assms(2)]
      comment_read [OF t] created_by_read [OF t] creation_date_read [OF t]
      collections_read [OF t _ assms(4)] http_seeds_read [OF t] web_seeds_read [OF t]
      dht_nodes_read [OF t] similar_read [OF t _ assms(5)] name_read [OF t assms(3)])

section \<open>Pieces\<close>

lemma concat_slice:
  "\<forall>x \<in> set xs. length x = n \<Longrightarrow> i < length xs \<Longrightarrow> take n (drop (n * i) (concat xs)) = xs ! i"
proof (induction xs arbitrary: i)
  case (Cons x xs)
  then show ?case by (cases i) simp_all
qed simp

lemma length_concat_slices: "\<forall>x \<in> set xs. length x = n \<Longrightarrow> length (concat xs) = n * length xs"
  by (induction xs) simp_all

lemma set_pieces_run:
  assumes "length ps = st_piece_count st" "length (st_pieces st) = st_piece_count st" "k \<le> length ps"
  shows "rfold (\<lambda>i. st_set_piece_hash i (ps ! i)) [0..<k] st = Inr (st\<lparr>st_pieces := take k ps @ drop k (st_pieces st)\<rparr>)"
  using assms(3)
proof (induction k)
  case (Suc k)
  have "st_piece_count (st\<lparr>st_pieces := xs\<rparr>) = st_piece_count st" for xs
    by (simp add: st_piece_count_def)
  moreover have "(take k ps @ drop k (st_pieces st))[k := ps ! k] = take (Suc k) ps @ drop (Suc k) (st_pieces st)"
    using Suc.prems assms(1,2)
    by (simp add: list_update_append take_Suc_conv_app_nth flip: Cons_nth_drop_Suc)
  ultimately show ?case
    using Suc assms(1,2) by (simp add: rfold_append st_set_piece_hash_def)
qed simp

lemma parse_pieces_read:
  assumes t: "torrent_of B P m similar data D I"
    and I: "om_find I ''pieces'' = Some (bc_of_string B (concat (map hash_view ps)))"
    and ps: "list_all (\<lambda>h. length h = 20) ps" "length ps = st_piece_count (mf_storage m0)"
  shows "parse_pieces_v1 B data m0 = Inr (m0\<lparr>mf_storage := (mf_storage m0)\<lparr>st_pieces := ps\<rparr>\<rparr>)"
proof -
  let ?s = "concat (map hash_view ps)" and ?st = "st_allocate_pieces (mf_storage m0)"
  have all: "\<forall>x \<in> set (map hash_view ps). length x = 20"
    using ps(1) by (auto simp: list_all_iff hash_view_def)
  have len: "length ?s div 20 = length ps"
    using length_concat_slices [OF all] by simp
  have step: "rbind (hash_of_view (size_bytes sha1) (take 20 (drop (20 * i) ?s))) (\<lambda>p. st_set_piece_hash i p st)
      = st_set_piece_hash i (ps ! i) st" if "i < length ps" for i st
    using that concat_slice [OF all, of i] ps(1)
    by (simp add: hash_of_view_def list_all_length hash_view_def)
  have "rfold (\<lambda>i st. rbind (hash_of_view (size_bytes sha1) (take 20 (drop (20 * i) ?s)))
      (\<lambda>p. st_set_piece_hash i p st)) [0..<length ps] ?st = rfold (\<lambda>i. st_set_piece_hash i (ps ! i)) [0..<length ps] ?st"
    by (rule rfold_cong) (auto simp: step simp del: digest_sizes)
  also have "\<dots> = Inr (?st\<lparr>st_pieces := take (length ps) ps @ drop (length ps) (st_pieces ?st)\<rparr>)"
    using ps(2) by (intro set_pieces_run) (simp_all add: st_allocate_pieces_def st_piece_count_def)
  finally show ?thesis
    using I ps(2)
    by (simp add: parse_pieces_v1_def torrent_ofD(6) [OF t] bencode_simps [OF torrent_ofD(1) [OF t]]
        len on_storage_def st_allocate_pieces_def)
qed

lemma parse_piece_size_read:
  assumes t: "torrent_of B P m similar data D I"
    and I: "om_find I ''piece length'' = Some (size_value B n)"
    and n: "KiB 16 \<le> n" "has_single_bit n" "n < size_bound"
  shows "parse_piece_size B data m0 = Inr (m0\<lparr>mf_storage := (mf_storage m0)\<lparr>st_piece_size := n\<rparr>\<rparr>)"
  using I n
  by (simp add: parse_piece_size_def torrent_ofD(6) [OF t] size_value_def bencode_simps [OF torrent_ofD(1) [OF t]]
      on_storage_def st_set_piece_size_def)

section \<open>The v1 torrent\<close>

text \<open>The file list of a torrent in either mode, as it is read.\<close>

definition single_entry :: "file_entry \<Rightarrow> file_entry" where
  "single_entry e =
     \<lparr>fe_path = [path_filename (fe_path e)], fe_file_size = fe_file_size e, fe_checksums = [],
      fe_has_v2_data = False, fe_pieces_root = hash_zero 32, fe_piece_layer = [], fe_attributes = None,
      fe_symlink_path = None, fe_last_modified_time = None\<rparr>"

definition files_read :: "file_storage \<Rightarrow> file_entry list" where
  "files_read st =
     (if st_get_file_mode st = mode_single then [single_entry (hd (st_files st))] else st_files st)"

definition name_written :: "'b metafile \<Rightarrow> string" where
  "name_written m =
     (if st_get_file_mode (mf_storage m) = mode_single then path_filename (fe_path (hd (st_files (mf_storage m))))
      else if mf_name m = [] then path_filename (st_root_directory (mf_storage m)) else mf_name m)"

definition storage_read :: "file_storage \<Rightarrow> file_storage" where
  "storage_read st =
     (fold st_push (files_read st) (st_new False))\<lparr>st_file_mode := st_get_file_mode st,
       st_piece_size := st_piece_size st, st_pieces := st_pieces st\<rparr>"

definition v1_storage_ok :: "file_storage \<Rightarrow> bool" where
  "v1_storage_ok st \<longleftrightarrow> list_all file_plain (st_files st) \<and> list_all no_v2 (st_files st) \<and>
     st_get_file_mode st \<noteq> mode_empty \<and>
     KiB 16 \<le> st_piece_size st \<and> has_single_bit (st_piece_size st) \<and> st_piece_size st < size_bound \<and>
     list_all (\<lambda>h. length h = 20) (st_pieces st) \<and> length (st_pieces st) = st_piece_count (storage_read st)"

text \<open>What reading a v1 torrent gives for the metafile it was written from.\<close>

definition v1_read_back :: "'b bencode \<Rightarrow> platform \<Rightarrow> 'b metafile \<Rightarrow> 'b metafile" where
  "v1_read_back B P m =
     m\<lparr>mf_protocol := protocol_none, mf_name := name_written m, mf_storage := storage_read (mf_storage m),
       mf_cross_seeding := False, mf_other_info_fields := other_fields_read B P m\<rparr>"

lemma path_ok_filename: "path_ok p \<Longrightarrow> name_ok (path_filename p)"
  by (cases p rule: rev_cases) (auto simp: path_ok_def path_filename_def name_ok_def)

lemma single_entry_read:
  assumes t: "torrent_of B P m similar data D I" and I: "om_ok I" "bc_dict B iv = Some I"
    and find: "om_find I ''path'' = None" "om_find I ''name'' = Some (bc_of_string B (path_filename (fe_path e)))"
      "om_find I ''length'' = Some (size_value B (fe_file_size e))" "om_find I ''attr'' = None"
      "om_find I ''symlink'' = None" "\<And>k. is_hash_function_name k \<Longrightarrow> om_find I k = None"
    and e: "file_plain e"
  shows "parse_file_entry_v1 B iv = Inr (single_entry e)"
proof -
  have B: "bencode_laws B" by (rule torrent_ofD(1) [OF t])
  have "path_of_string (path_filename (fe_path e)) = [path_filename (fe_path e)]"
    using e by (intro path_of_name path_ok_filename) (simp add: file_plain_def)
  moreover have "parse_file_size B I = Inr (fe_file_size e)"
    using e by (intro parse_size_value [OF B find(3)]) (simp add: file_plain_def)
  moreover have "add_checksums B I (single_entry e) = Inr ((single_entry e)\<lparr>fe_checksums := []\<rparr>)"
    using find(6) by (intro add_checksums_read [OF B _ _ I(1)])
      (simp_all add: checksums_ok_def hash_names_only_def single_entry_def)
  moreover have "(single_entry e)\<lparr>fe_checksums := []\<rparr> = single_entry e" by (simp add: single_entry_def)
  moreover have "fe_make [path_filename (fe_path e)] (fe_file_size e) None None = Inr (single_entry e)"
    by (simp add: fe_make_def Let_def fe_check_invariants_def fe_is_symlink_def fe_has_attribute_def single_entry_def)
  ultimately show ?thesis
    using find
    by (simp add: parse_file_entry_v1_def root_dict_of [OF I(2)] bencode_simps [OF B] parse_file_attributes_def
        parse_symlink_def)
qed


lemma writable_find:
  assumes "writable m" "\<not> free_key k" "k \<noteq> ''cross_seed_entry''"
  shows "om_find (put_info_tail B P m d) k =
    (if k = ''source'' then (if mf_source m \<noteq> [] then Some (bc_of_string B (mf_source m)) else om_find d k)
     else if k = ''private'' then (if mf_private m then Some (bc_of_integer B 1) else om_find d k)
     else om_find d k)"
  using assms by (simp add: tail_find)

lemma not_free_keys [simp]:
  "\<not> free_key ''name''" "\<not> free_key ''length''" "\<not> free_key ''files''" "\<not> free_key ''piece length''"
  "\<not> free_key ''pieces''" "\<not> free_key ''private''" "\<not> free_key ''source''" "\<not> free_key ''collections''"
  "\<not> free_key ''similar''" "\<not> free_key ''attr''" "\<not> free_key ''path''" "\<not> free_key ''symlink''"
  "\<not> free_key ''meta version''" "\<not> free_key ''file tree''" "\<not> free_key ''pieces root''"
  by (simp_all add: free_key_def known_info_keys_def)

lemma common_lookups_put:
  assumes "common_lookups B P m similar d"
  shows "common_lookups B P m similar (put ''info'' v d)" "common_lookups B P m similar (put ''piece layers'' v d)"
  using assms by (simp_all only: common_lookups_def find_put) simp_all

lemma torrent_of_dict:
  assumes "bencode_laws B" "platform_ok P m" "writable m"
  shows "\<exists>d similar. make_bvalue_common B P m = Inr d \<and> om_ok d \<and>
    (\<forall>I v. torrent_of B P m similar (bc_of_dict B (put ''info'' (bc_of_dict B I) d)) (put ''info'' (bc_of_dict B I) d) I \<and>
      torrent_of B P m similar (bc_of_dict B (put ''piece layers'' v (put ''info'' (bc_of_dict B I) d)))
        (put ''piece layers'' v (put ''info'' (bc_of_dict B I) d)) I)"
proof -
  have "set (pf_hash_order P (mf_similar_torrents m)) = mf_similar_torrents m"
    using assms(2,3) by (simp add: platform_ok_def writable_def)
  then have "list_all similar_plain (pf_hash_order P (mf_similar_torrents m))"
    using assms(3) by (simp add: writable_def list_all_iff)
  from similar_list_run [OF this, of B] obtain similar
    where similar: "similar_list_value B (pf_hash_order P (mf_similar_torrents m)) = Inr similar" by blast
  from common_run [of m B P similar, OF similar] obtain d
    where d: "make_bvalue_common B P m = Inr d" "om_ok d" "common_lookups B P m similar d" by blast
  have "common_lookups B P m similar (put ''info'' w d)"
    "common_lookups B P m similar (put ''piece layers'' v (put ''info'' w d))" for w v
    using d(3) by (simp_all add: common_lookups_put)
  then show ?thesis
    using assms d(1,2) similar
    by (intro exI [of _ d] exI [of _ similar]) (simp add: torrent_of_def bencode_laws_simps)
qed

lemma fold_push_more:
  "st_index_valid (fold st_push es (st_new False)) = False"
  "st_root_directory (fold st_push es (st_new False)) = []"
  "st_pieces (fold st_push es (st_new False)) = []"
proof -
  have "st_index_valid (fold st_push es st) = (st_index_valid st \<and> es = []) \<and>
      st_root_directory (fold st_push es st) = st_root_directory st \<and>
      st_pieces (fold st_push es st) = st_pieces st" for st
    by (induction es arbitrary: st) (simp_all add: st_push_def)
  from this [of "st_new False"] show "st_index_valid (fold st_push es (st_new False)) = False"
    "st_root_directory (fold st_push es (st_new False)) = []" "st_pieces (fold st_push es (st_new False)) = []"
    by (simp_all add: st_new_def)
qed

lemma file_list_parsed:
  assumes t: "torrent_of B P m similar data D I"
    and "(\<exists>vs. om_find I ''files'' = Some (bc_of_list B vs) \<and> mode = mode_multi \<and>
           (\<forall>st. rfold (\<lambda>f st. rbind (parse_file_entry_v1 B f) (\<lambda>e. st_add_file_move e st)) vs st
              = Inr (fold st_push es st))) \<or>
         om_find I ''files'' = None \<and> mode = mode_single \<and>
         (\<forall>iv. bc_dict B iv = Some I \<longrightarrow> (\<exists>e. es = [e] \<and> fe_ok e \<and> parse_file_entry_v1 B iv = Inr e))"
  shows "parse_file_list_v1 B data m0 =
    Inr (m0\<lparr>mf_storage := (fold st_push es (mf_storage m0))\<lparr>st_file_mode := mode\<rparr>\<rparr>)"
  using assms(2)
proof
  assume "\<exists>vs. om_find I ''files'' = Some (bc_of_list B vs) \<and> mode = mode_multi \<and>
           (\<forall>st. rfold (\<lambda>f st. rbind (parse_file_entry_v1 B f) (\<lambda>e. st_add_file_move e st)) vs st
              = Inr (fold st_push es st))"
  then show ?thesis
    by (auto simp: parse_file_list_v1_def torrent_ofD(6) [OF t] bencode_simps [OF torrent_ofD(1) [OF t]]
        on_storage_def st_set_file_mode_def)
next
  assume single: "om_find I ''files'' = None \<and> mode = mode_single \<and>
         (\<forall>iv. bc_dict B iv = Some I \<longrightarrow> (\<exists>e. es = [e] \<and> fe_ok e \<and> parse_file_entry_v1 B iv = Inr e))"
  obtain iv where iv: "om_find D ''info'' = Some iv" "bc_dict B iv = Some I"
    using t by (auto simp: torrent_of_def)
  then obtain e where e: "es = [e]" "fe_ok e" "parse_file_entry_v1 B iv = Inr e" using single by blast
  then show ?thesis
    using single iv
    by (simp add: parse_file_list_v1_def torrent_ofD(5,6) [OF t] dict_at_def on_storage_def st_set_file_mode_def
        st_add_file_move_def fe_move_id)
qed

lemma v1_info_value:
  assumes B: "bencode_laws B" and w: "writable m" and st: "v1_storage_ok (mf_storage m)"
  shows "\<exists>d. make_bvalue_infodict_v1 B P m = Inr (bc_of_dict B (put_info_tail B P m d)) \<and> om_ok d \<and>
    (\<forall>k. om_find d k \<noteq> None \<longrightarrow> k \<in> set known_info_keys - {''private'', ''source'', ''meta version'', ''file tree''}) \<and>
    om_find d ''name'' = Some (bc_of_string B (name_written m)) \<and>
    om_find d ''piece length'' = Some (size_value B (st_piece_size (mf_storage m))) \<and>
    om_find d ''pieces'' = Some (bc_of_string B (concat (map hash_view (st_pieces (mf_storage m))))) \<and>
    (if st_get_file_mode (mf_storage m) = mode_single
     then om_find d ''files'' = None \<and>
       om_find d ''length'' = Some (size_value B (fe_file_size (hd (st_files (mf_storage m)))))
     else \<exists>vs. om_find d ''files'' = Some (bc_of_list B vs) \<and>
       (\<forall>st. rfold (\<lambda>f st. rbind (parse_file_entry_v1 B f) (\<lambda>e. st_add_file_move e st)) vs st
         = Inr (fold st_push (st_files (mf_storage m)) st)))"
proof -
  let ?st = "mf_storage m"
  have files: "list_all file_plain (st_files ?st)" "list_all no_v2 (st_files ?st)"
    using st by (simp_all add: v1_storage_ok_def)
  show ?thesis
  proof (cases "st_get_file_mode ?st")
    case mode_empty
    with st show ?thesis by (simp add: v1_storage_ok_def)
  next
    case mode_single
    then have "0 < length (st_files ?st)" by (auto simp: st_get_file_mode_def st_file_count_def split: if_splits)
    then have "st_at ?st 0 = Inr (hd (st_files ?st))" by (simp add: st_at_def hd_conv_nth)
    then show ?thesis
      using mode_single
      by (intro exI [of _ "put_pieces B ?st (put ''piece length'' (size_value B (st_piece_size ?st))
            (put_single_file B (hd (st_files ?st)) []))"])
        (auto simp: make_bvalue_infodict_v1_def Let_def put_pieces_def put_single_file_def name_written_def
          make_v1_pieces_string_def known_info_keys_def)
  next
    case mode_multi
    obtain vs where vs: "file_list_value B (st_files ?st) = Inr (bc_of_list B vs)"
        "\<forall>st. rfold (\<lambda>f st. rbind (parse_file_entry_v1 B f) (\<lambda>e. st_add_file_move e st)) vs st
          = Inr (fold st_push (st_files ?st) st)"
      using file_list_read [OF B files] by blast
    then show ?thesis
      using mode_multi
      by (intro exI [of _ "put_pieces B ?st (put ''piece length'' (size_value B (st_piece_size ?st))
            (put_name B m (put ''files'' (bc_of_list B vs) [])))"])
        (auto simp: make_bvalue_infodict_v1_def Let_def put_pieces_def put_name_def name_written_def
          make_v1_pieces_string_def known_info_keys_def)
  qed
qed


lemma v1_steps_read:
  assumes t: "torrent_of B P m similar data D (put_info_tail B P m d)" and w: "writable m"
    and st: "v1_storage_ok (mf_storage m)" and ok: "om_ok d"
    and keys: "\<forall>k. om_find d k \<noteq> None \<longrightarrow> k \<in> set known_info_keys - {''private'', ''source'', ''meta version'', ''file tree''}"
    and find: "om_find d ''name'' = Some (bc_of_string B (name_written m))"
      "om_find d ''piece length'' = Some (size_value B (st_piece_size (mf_storage m)))"
      "om_find d ''pieces'' = Some (bc_of_string B (concat (map hash_view (st_pieces (mf_storage m)))))"
      "if st_get_file_mode (mf_storage m) = mode_single
       then om_find d ''files'' = None \<and>
         om_find d ''length'' = Some (size_value B (fe_file_size (hd (st_files (mf_storage m)))))
       else \<exists>vs. om_find d ''files'' = Some (bc_of_list B vs) \<and>
         (\<forall>st. rfold (\<lambda>f st. rbind (parse_file_entry_v1 B f) (\<lambda>e. st_add_file_move e st)) vs st
           = Inr (fold st_push (st_files (mf_storage m)) st))"
  shows "parse_metafile B data = Inr (v1_read_back B P m)"
proof -
  let ?st = "mf_storage m" and ?I = "put_info_tail B P m d"
  define es where "es = files_read ?st"
  define mode where "mode = st_get_file_mode ?st"
  have none: "om_find d k = None"
    if "k \<in> {''private'', ''source'', ''meta version'', ''file tree'', ''collections'', ''similar'', ''attr'', ''path'',
      ''symlink''} \<or> is_hash_function_name k" for k
    using keys that by (auto simp: known_info_keys_def is_hash_function_name_def supported_hash_functions_def)
  note I = writable_find [OF w, of _ B P d]
  have hash_none: "om_find ?I k = None" if "is_hash_function_name k" for k
  proof -
    have "k \<noteq> ''source''" "k \<noteq> ''private''" "k \<noteq> ''cross_seed_entry''" "\<not> free_key k"
      using that by (auto simp: free_key_def is_hash_function_name_def supported_hash_functions_def)
    with that show ?thesis by (simp add: I none)
  qed
  have list: "(\<exists>vs. om_find ?I ''files'' = Some (bc_of_list B vs) \<and> mode = mode_multi \<and>
           (\<forall>st. rfold (\<lambda>f st. rbind (parse_file_entry_v1 B f) (\<lambda>e. st_add_file_move e st)) vs st
              = Inr (fold st_push es st))) \<or>
         om_find ?I ''files'' = None \<and> mode = mode_single \<and>
         (\<forall>iv. bc_dict B iv = Some ?I \<longrightarrow> (\<exists>e. es = [e] \<and> fe_ok e \<and> parse_file_entry_v1 B iv = Inr e))"
  proof (cases "mode = mode_single")
    case True
    let ?e = "hd (st_files ?st)"
    have "st_files ?st \<noteq> []"
      using True by (auto simp: mode_def st_get_file_mode_def st_file_count_def split: if_splits)
    then have plain: "file_plain ?e" using st by (simp add: v1_storage_ok_def list_all_iff)
    have "parse_file_entry_v1 B iv = Inr (single_entry ?e)" if "bc_dict B iv = Some ?I" for iv
    proof (rule single_entry_read [OF t ok_tail [OF ok] that])
      show "file_plain ?e" by (rule plain)
    qed (use True find hash_none none in \<open>simp_all add: I mode_def name_written_def\<close>)
    then show ?thesis
      using True find(4)
      by (simp add: I es_def files_read_def mode_def fe_ok_def single_entry_def fe_is_symlink_def
          fe_has_attribute_def checksums_ok_def)
  next
    case False
    then have "mode = mode_multi" using st by (cases mode) (simp_all add: mode_def v1_storage_ok_def)
    with find(4) False show ?thesis by (simp add: I es_def files_read_def mode_def)
  qed
  have priv: "om_find ?I ''private'' = optional_entry (mf_private m) (bc_of_integer B 1)"
    and src: "om_find ?I ''source'' = optional_entry (mf_source m \<noteq> []) (bc_of_string B (mf_source m))"
    by (simp_all add: I none optional_entry_def)
  have protocol: "parse_protocol B data = Inr protocol_v1"
    by (simp add: parse_protocol_def torrent_ofD(6) [OF t] I none)
  have count: "length (st_pieces ?st) = st_piece_count
      ((fold st_push es (st_new False))\<lparr>st_file_mode := mode, st_piece_size := st_piece_size ?st\<rparr>)"
    using st by (simp add: v1_storage_ok_def storage_read_def es_def mode_def st_piece_count_def)
  define m1 :: "'a metafile" where "m1 = mf_empty\<lparr>mf_trackers := mf_trackers m, mf_http_seeds := mf_http_seeds m,
      mf_web_seeds := mf_web_seeds m, mf_dht_nodes := mf_dht_nodes m, mf_name := name_written m,
      mf_comment := mf_comment m, mf_creation_seconds := mf_creation_seconds m,
      mf_created_by := mf_created_by m, mf_private := mf_private m,
      mf_similar_torrents := mf_similar_torrents m, mf_collections := mf_collections m\<rparr>"
  have common: "rfold (\<lambda>step. step) (common_steps B data) mf_empty = Inr m1"
    unfolding m1_def using find(1) by (intro common_steps_read [OF t priv]) (simp_all add: I none)
  have m1: "mf_storage m1 = st_new False" "mf_source m1 = []" "mf_other_info_fields m1 = []"
    by (simp_all add: m1_def mf_empty_def)
  define sr where "sr = (fold st_push es (st_new False))\<lparr>st_file_mode := mode, st_piece_size := st_piece_size ?st\<rparr>"
  let ?s1 = "(fold st_push es (st_new False))\<lparr>st_file_mode := mode\<rparr>"
  have files: "parse_file_list_v1 B data m1 = Inr (m1\<lparr>mf_storage := ?s1\<rparr>)"
    using m1 by (simp add: file_list_parsed [OF t list])
  have piece_size: "parse_piece_size B data (m1\<lparr>mf_storage := ?s1\<rparr>) = Inr (m1\<lparr>mf_storage := sr\<rparr>)"
    using find(2) st by (simp add: parse_piece_size_read [OF t] I v1_storage_ok_def sr_def)
  have pieces: "parse_pieces_v1 B data (m1\<lparr>mf_storage := sr\<rparr>) = Inr (m1\<lparr>mf_storage := storage_read ?st\<rparr>)"
    using find(3) st count
    by (subst parse_pieces_read [OF t, of "st_pieces ?st"])
      (simp_all add: I v1_storage_ok_def sr_def storage_read_def es_def mode_def)
  have other: "parse_other_info_fields B data m' = Inr (m'\<lparr>mf_other_info_fields := other_fields_read B P m\<rparr>)"
    if "mf_other_info_fields m' = []" for m'
    using keys by (intro other_fields_parsed [OF t that refl ok]) auto
  have "rfold (\<lambda>step. step) (v1_steps B data) m1 = Inr (v1_read_back B P m)"
    using m1
    by (simp add: v1_steps_def files piece_size pieces source_read [OF t _ src] other)
      (simp add: v1_read_back_def m1_def mf_empty_def)
  then show ?thesis
    by (simp add: parse_metafile_def protocol Let_def rfold_append common)
qed


lemma v1_round_trip_run:
  assumes "bencode_laws B" "platform_ok P m" "writable m" "v1_storage_ok (mf_storage m)"
  shows "\<exists>v. make_bvalue_v1 B P m = Inr v \<and> parse_metafile B v = Inr (v1_read_back B P m)"
proof -
  obtain d similar where d: "make_bvalue_common B P m = Inr d"
      and t: "\<forall>I v. torrent_of B P m similar (bc_of_dict B (put ''info'' (bc_of_dict B I) d)) (put ''info'' (bc_of_dict B I) d) I \<and>
        torrent_of B P m similar (bc_of_dict B (put ''piece layers'' v (put ''info'' (bc_of_dict B I) d)))
          (put ''piece layers'' v (put ''info'' (bc_of_dict B I) d)) I"
    using torrent_of_dict [OF assms(1-3)] by blast
  obtain e where e: "make_bvalue_infodict_v1 B P m = Inr (bc_of_dict B (put_info_tail B P m e))" "om_ok e"
      "\<forall>k. om_find e k \<noteq> None \<longrightarrow> k \<in> set known_info_keys - {''private'', ''source'', ''meta version'', ''file tree''}"
      "om_find e ''name'' = Some (bc_of_string B (name_written m))"
      "om_find e ''piece length'' = Some (size_value B (st_piece_size (mf_storage m)))"
      "om_find e ''pieces'' = Some (bc_of_string B (concat (map hash_view (st_pieces (mf_storage m)))))"
      "if st_get_file_mode (mf_storage m) = mode_single
       then om_find e ''files'' = None \<and>
         om_find e ''length'' = Some (size_value B (fe_file_size (hd (st_files (mf_storage m)))))
       else \<exists>vs. om_find e ''files'' = Some (bc_of_list B vs) \<and>
         (\<forall>st. rfold (\<lambda>f st. rbind (parse_file_entry_v1 B f) (\<lambda>e. st_add_file_move e st)) vs st
           = Inr (fold st_push (st_files (mf_storage m)) st))"
    using v1_info_value [OF assms(1,3,4), of P] by (elim exE conjE) (rule that)
  have "torrent_of B P m similar (bc_of_dict B (put ''info'' (bc_of_dict B (put_info_tail B P m e)) d))
      (put ''info'' (bc_of_dict B (put_info_tail B P m e)) d) (put_info_tail B P m e)"
    using t by blast
  from v1_steps_read [OF this assms(3,4) e(2-7)] show ?thesis
    by (simp add: make_bvalue_v1_def d e(1))
qed

text \<open>
  C1: Reading the bencode value a v1 metafile is written as gives the metafile back: trackers, seeds,
  nodes, texts, date, private flag, collections and related torrents are the same, the files keep
  path, size, attributes and checksums, and the pieces and their size are restored. The exceptions
  are stated by \<open>v1_read_back\<close>: a single file keeps only its name and size, the root directory is
  lost, and the switch for cross seeding comes back as an unknown field.
\<close>

theorem metafile_v1_round_trip:
  assumes "bencode_laws B" "platform_ok P m" "writable m" "v1_storage_ok (mf_storage m)"
  shows "rbind (make_bvalue_v1 B P m) (parse_metafile B) = Inr (v1_read_back B P m)"
  using v1_round_trip_run [OF assms] by auto

subsection \<open>A sample\<close>

definition sample_file :: file_entry where
  "sample_file = \<lparr>fe_path = [''d'', ''a''], fe_file_size = 5,
     fe_checksums = [(''md5'', Basic_Checksum md5 (replicate 16 7))], fe_has_v2_data = False,
     fe_pieces_root = hash_zero 32, fe_piece_layer = [], fe_attributes = Some attribute_executable,
     fe_symlink_path = None, fe_last_modified_time = None\<rparr>"

definition sample_similar :: info_hash where
  "sample_similar = info_hash_v1_only (replicate 20 1)"

definition sample_torrent :: "sample_value metafile" where
  "sample_torrent = mf_empty\<lparr>
     mf_storage := (st_new False)\<lparr>st_total_file_size := 5, st_piece_size := 16384,
       st_file_mode := mode_multi, st_files := [sample_file], st_pieces := [replicate 20 3]\<rparr>,
     mf_trackers := [Announce_Url ''a'' 0, Announce_Url ''b'' 1], mf_web_seeds := [''w''],
     mf_dht_nodes := [\<lparr>dn_url = ''n'', dn_port = 80\<rparr>], mf_name := ''t'', mf_comment := ''c'',
     mf_creation_seconds := 1000, mf_private := True, mf_cross_seeding := True,
     mf_other_info_fields := [(''x'', Sample_Integer 7)],
     mf_similar_torrents := {sample_similar}, mf_collections := {''k''}\<rparr>"

definition sample_platform :: platform where
  "sample_platform = \<lparr>pf_decimal = (\<lambda>_. ''0''), pf_hash_size = of_nat, pf_hash_string = (\<lambda>s. of_nat (length s)),
     pf_md5 = (\<lambda>_. replicate 16 0), pf_sha1 = (\<lambda>_. replicate 20 0), pf_sha256 = (\<lambda>_. replicate 32 0),
     pf_string_order = (\<lambda>S. if S = {''k''} then [''k''] else []),
     pf_hash_order = (\<lambda>S. if S = {sample_similar} then [sample_similar] else [])\<rparr>"

lemma sample_file_plain: "file_plain sample_file \<and> no_v2 sample_file"
  by (simp add: file_plain_def no_v2_def sample_file_def checksums_ok_def hash_names_only_def om_ok_def
      supported_hash_functions_def is_hash_function_name_def path_ok_def name_ok_def size_bound_def
      fe_is_symlink_def fe_has_attribute_def has_flag_def enum_and_def attribute_defs known_attributes_def)

lemma sample_writable: "writable sample_torrent" "platform_ok sample_platform sample_torrent"
proof -
  have "trackers_ok [Announce_Url ''a'' 0, Announce_Url ''b'' 1]"
    using announce_ok_flatten [of "[[''a''], [''b'']]"] by (simp add: trackers_ok_def tiers_ok_def)
  moreover have "similar_plain sample_similar" by (auto simp: similar_plain_def sample_similar_def)
  moreover have "free_key ''x''"
    by (simp add: free_key_def known_info_keys_def is_hash_function_name_def supported_hash_functions_def)
  ultimately show "writable sample_torrent"
    by (simp add: writable_def sample_torrent_def mf_empty_def size_bound_def int64_def mf_creation_date_def
        integer_of_size_def om_ok_def)
  show "platform_ok sample_platform sample_torrent"
    by (simp add: platform_ok_def sample_platform_def sample_torrent_def)
qed

lemma sample_storage_ok: "v1_storage_ok (mf_storage sample_torrent)"
  using sample_file_plain single_bit_16K
  by (simp add: v1_storage_ok_def sample_torrent_def storage_read_def files_read_def st_get_file_mode_def
      st_file_count_def KiB_def size_mul_def size_bound_def st_piece_count_def st_push_def st_new_def
      sample_file_def size_add_def size_sub_def)

theorem metafile_v1_round_trip_witness:
  "\<exists>m. rbind (make_bvalue_v1 sample_lib sample_platform sample_torrent) (parse_metafile sample_lib) = Inr m \<and>
     mf_trackers m = [Announce_Url ''a'' 0, Announce_Url ''b'' 1] \<and> mf_private m \<and>
     st_files (mf_storage m) = [sample_file] \<and> mf_similar_torrents m = {sample_similar} \<and>
     \<not> mf_cross_seeding m \<and> om_find (mf_other_info_fields m) ''cross_seed_entry'' \<noteq> None"
  using metafile_v1_round_trip [OF sample_laws sample_writable(2,1) sample_storage_ok]
  by (simp add: v1_read_back_def storage_read_def files_read_def fold_push st_new_def other_fields_read_def)
    (simp add: sample_torrent_def st_get_file_mode_def st_file_count_def)

end
