(* ===== verification/Metafile_Tree.thy ===== *)
theory Metafile_Tree
  imports Metafile_Round_Trip
begin

text \<open>
  The file tree of a v2 torrent. The writer walks down nested dictionaries, the reader traverses
  them with an explicit stack: the traversal ends on every value of finite depth, a tree is read in
  the order of its paths, and the leaves of the tree the writer builds are the files.
\<close>

section \<open>The traversal ends\<close>

text \<open>
  Values are finite: the values of a dictionary are less deep than the dictionary. The bencode
  library builds values from a finite text, so a depth exists for all of them.
\<close>

definition depth_of :: "'b bencode \<Rightarrow> ('b \<Rightarrow> nat) \<Rightarrow> bool" where
  "depth_of B depth \<longleftrightarrow> (\<forall>v d. bc_dict B v = Some d \<longrightarrow> (\<forall>(k, w) \<in> set d. depth w < depth v))"

text \<open>A dictionary is left after finitely many steps, with its entries or with an error.\<close>

definition dict_done :: "'b bencode \<Rightarrow> 'b omap \<Rightarrow> string list \<Rightarrow> bool" where
  "dict_done B items comps \<longleftrightarrow>
     (\<exists>e. \<forall>rest out. tree_loop B (items # rest) comps out = Some (Inl e)) \<or>
     (\<exists>es. \<forall>rest out. tree_loop B (items # rest) comps out = tree_loop B rest (butlast comps) (out @ es))"

lemma dict_done_leave:
  "(\<And>rest out. tree_loop B (items # rest) comps out = tree_loop B rest (butlast comps) (out @ es)) \<Longrightarrow>
    dict_done B items comps"
  unfolding dict_done_def by (rule disjI2, rule exI [of _ es]) simp

lemma dict_done_error:
  "(\<And>rest out. tree_loop B (items # rest) comps out = Some (Inl e)) \<Longrightarrow> dict_done B items comps"
  unfolding dict_done_def by (rule disjI1, rule exI [of _ e]) simp

lemma dict_done_step:
  assumes "\<And>rest out. tree_loop B (items' # rest) comps out = tree_loop B (items # rest) comps (out @ es)"
    and "dict_done B items comps"
  shows "dict_done B items' comps"
  using assms(2) unfolding dict_done_def [of B items]
proof (elim disjE exE)
  fix e
  assume "\<forall>rest out. tree_loop B (items # rest) comps out = Some (Inl e)"
  then show ?thesis by (intro dict_done_error [of B _ _ e]) (simp add: assms(1))
next
  fix es'
  assume "\<forall>rest out. tree_loop B (items # rest) comps out = tree_loop B rest (butlast comps) (out @ es')"
  then show ?thesis by (intro dict_done_leave [of B _ _ "es @ es'"]) (simp add: assms(1))
qed

lemma tree_loop_leaves_dict:
  assumes "depth_of B depth" "\<forall>(k, v) \<in> set items. depth v < n"
  shows "dict_done B items comps"
  using assms(2)
proof (induction n arbitrary: items comps)
  case (0 items comps)
  then have "items = []" by (cases items) auto
  then show ?case by (intro dict_done_leave [of B _ _ "[]"]) (simp add: tree_loop_simps)
next
  case (Suc n items comps)
  show ?case
    using Suc.prems
  proof (induction items)
    case Nil
    then show ?case by (intro dict_done_leave [of B _ _ "[]"]) (simp add: tree_loop_simps)
  next
    case (Cons kv items)
    obtain k v where kv: "kv = (k, v)" by force
    have items: "dict_done B items comps" by (rule Cons.IH) (use Cons.prems in simp)
    show ?case
    proof (cases "bc_dict B v")
      case None
      then show ?thesis by (intro dict_done_error) (simp add: kv tree_loop_simps)
    next
      case (Some d)
      show ?thesis
      proof (cases "k = []")
        case True
        show ?thesis
        proof (cases "parse_file_entry_v2 B v (tree_path comps)")
          case (Inl e)
          then show ?thesis using True Some by (intro dict_done_error) (simp add: kv tree_loop_simps)
        next
          case (Inr entry)
          then show ?thesis
            using True Some by (intro dict_done_step [OF _ items, of _ "[entry]"]) (simp add: kv tree_loop_simps)
        qed
      next
        case False
        have "\<forall>(k, w) \<in> set d. depth w < n"
          using assms(1) Some Cons.prems unfolding depth_of_def kv by fastforce
        from Suc.IH [OF this, of "comps @ [k]"] show ?thesis
          unfolding dict_done_def [of B d]
        proof (elim disjE exE)
          fix e
          assume "\<forall>rest out. tree_loop B (d # rest) (comps @ [k]) out = Some (Inl e)"
          then show ?thesis using Some False by (intro dict_done_error) (simp add: kv tree_loop_simps)
        next
          fix es
          assume "\<forall>rest out. tree_loop B (d # rest) (comps @ [k]) out
            = tree_loop B rest (butlast (comps @ [k])) (out @ es)"
          then show ?thesis
            using Some False by (intro dict_done_step [OF _ items, of _ es]) (simp add: kv tree_loop_simps)
        qed
      qed
    qed
  qed
qed

lemma depths_bounded: "\<forall>(k, v) \<in> set items. f v < Suc (sum_list (map (\<lambda>e. f (snd e)) items))" for f :: "'b \<Rightarrow> nat"
  by (induction items) auto

lemma tree_loop_ends:
  assumes "depth_of B depth"
  shows "\<exists>r. tree_loop B frames comps out = Some r"
proof (induction frames arbitrary: comps out)
  case (Cons items frames)
  have "dict_done B items comps"
    using tree_loop_leaves_dict [OF assms depths_bounded] .
  then show ?case
    using Cons.IH unfolding dict_done_def by metis
qed (simp add: tree_loop_simps)

section \<open>A tree and its leaves\<close>

text \<open>
  The leaves of a tree of at most the given depth, with their paths; the value at a path; and the
  trees the writer builds: every entry is a dictionary, the one under the empty name a leaf.
\<close>

primrec tree_items :: "nat \<Rightarrow> 'b bencode \<Rightarrow> 'b omap \<Rightarrow> (path \<times> 'b) list" where
  "tree_items 0 B d = []"
| "tree_items (Suc n) B d =
     concat (map (\<lambda>(k, v). if k = [] then [([], v)]
                   else map (\<lambda>(p, w). (k # p, w)) (tree_items n B (the (bc_dict B v)))) d)"

fun tree_lookup :: "'b bencode \<Rightarrow> 'b omap \<Rightarrow> path \<Rightarrow> 'b option" where
  "tree_lookup B d [] = om_find d []"
| "tree_lookup B d (c # p) =
     (case om_find d c of Some v \<Rightarrow> tree_lookup B (the (bc_dict B v)) p | None \<Rightarrow> None)"

primrec tree_ok :: "nat \<Rightarrow> 'b bencode \<Rightarrow> 'b omap \<Rightarrow> bool" where
  "tree_ok 0 B d \<longleftrightarrow> d = []"
| "tree_ok (Suc n) B d \<longleftrightarrow> om_ok d \<and>
     (\<forall>(k, v) \<in> set d. bc_dict B v \<noteq> None \<and> (k \<noteq> [] \<longrightarrow> tree_ok n B (the (bc_dict B v))))"

definition names_ok :: "path \<Rightarrow> bool" where
  "names_ok p \<longleftrightarrow> list_all (\<lambda>c. c \<noteq> []) p"

lemma names_ok_simps [simp]: "names_ok []" "names_ok (c # p) \<longleftrightarrow> c \<noteq> [] \<and> names_ok p"
  by (simp_all add: names_ok_def)

lemma tree_ok_Nil [simp]: "tree_ok n B []"
  by (cases n) simp_all

lemma om_find_member: "om_find d k = Some v \<Longrightarrow> (k, v) \<in> set d"
  by (simp add: om_find_def map_of_SomeD)

lemma member_put: "(k', v') \<in> set (put k v d) \<Longrightarrow> (k', v') = (k, v) \<or> (k', v') \<in> set d"
  by (induction k v d rule: om_insert_or_assign.induct) (auto simp: om_insert_or_assign.simps split: if_splits)

lemma tree_ok_put:
  assumes "tree_ok (Suc n) B d" "bc_dict B v = Some d'" "k \<noteq> [] \<Longrightarrow> tree_ok n B d'"
  shows "tree_ok (Suc n) B (put k v d)"
  using assms by (auto dest!: member_put)

lemma tree_insert_run:
  assumes B: "bencode_laws B" and info: "bc_dict B info \<noteq> None"
    and "tree_ok n B d" "length p < n" "names_ok p"
  shows "\<exists>d'. tree_insert B p info d = Inr d' \<and> tree_ok n B d' \<and>
    (\<forall>q. names_ok q \<longrightarrow> tree_lookup B d' q = (if q = p then Some info else tree_lookup B d q))"
  using assms(3-5)
proof (induction p arbitrary: n d)
  case Nil
  then obtain m where n: "n = Suc m" by (cases n) auto
  have "tree_ok n B (put [] info d)"
    using Nil.prems info unfolding n by (auto intro!: tree_ok_put simp del: tree_ok.simps)
  moreover have "tree_lookup B (put [] info d) q = (if q = [] then Some info else tree_lookup B d q)"
    if "names_ok q" for q
    using that by (cases q) simp_all
  ultimately show ?case by simp
next
  case (Cons c p)
  then obtain m where n: "n = Suc m" by (cases n) auto
  define sub where "sub = (case om_find d c of Some v \<Rightarrow> the (bc_dict B v) | None \<Rightarrow> [])"
  have "tree_ok m B sub"
    using Cons.prems(1,3) unfolding n sub_def by (auto split: option.splits dest!: om_find_member)
  from Cons.IH [OF this] Cons.prems n obtain sub'
    where sub': "tree_insert B p info sub = Inr sub'" "tree_ok m B sub'"
      "\<forall>q. names_ok q \<longrightarrow> tree_lookup B sub' q = (if q = p then Some info else tree_lookup B sub q)"
    by auto
  have run: "tree_insert B (c # p) info d = Inr (put c (bc_of_dict B sub') d)"
    using sub'(1) Cons.prems(1) unfolding n sub_def
    by (fastforce split: option.splits dest!: om_find_member simp: get_dict_def)
  have "tree_ok n B (put c (bc_of_dict B sub') d)"
    using Cons.prems(1) sub'(2) unfolding n
    by (intro tree_ok_put) (simp_all add: bencode_simps [OF B])
  moreover have "tree_lookup B (put c (bc_of_dict B sub') d) q = (if q = c # p then Some info else tree_lookup B d q)"
    if q: "names_ok q" for q
  proof (cases q)
    case Nil
    then show ?thesis using Cons.prems(3) by auto
  next
    case (Cons c' q')
    have "tree_lookup B [] r = None" for r by (cases r) simp_all
    then show ?thesis
      using Cons q sub'(3) by (auto simp: bencode_simps [OF B] sub_def split: option.splits)
  qed
  ultimately show ?case using run by blast
qed

text \<open>The leaves come in the order of their paths, and are what the lookup finds.\<close>

lemma map_of_prefix:
  "map_of (map (\<lambda>(p, w). (k # p, w)) xs) q = (case q of [] \<Rightarrow> None | c # p \<Rightarrow> if c = k then map_of xs p else None)"
  by (induction xs) (auto split: list.splits)

lemma tree_items_lookup:
  "tree_ok n B d \<Longrightarrow> names_ok q \<Longrightarrow> map_of (tree_items n B d) q = tree_lookup B d q"
proof (induction n arbitrary: d q)
  case 0
  then show ?case by (cases q) simp_all
next
  case (Suc n)
  let ?f = "\<lambda>(k, v). if k = [] then [([], v)] else map (\<lambda>(p, w). (k # p, w)) (tree_items n B (the (bc_dict B v)))"
  have "map_of (concat (map ?f d)) q = tree_lookup B d q"
    using Suc.prems
  proof (induction d)
    case Nil
    then show ?case by (cases q) simp_all
  next
    case (Cons kv d)
    obtain k v where kv: "kv = (k, v)" by force
    have d: "tree_ok (Suc n) B d" using Cons.prems(1) by (auto simp: om_ok_def)
    have fresh: "om_find d k = None"
      using Cons.prems(1) om_ok_distinct [of "kv # d"] kv by (auto simp: om_find_def map_of_eq_None_iff)
    have rest: "map_of (concat (map ?f d)) q = tree_lookup B d q"
      by (rule Cons.IH [OF d Cons.prems(2)])
    show ?case
    proof (cases q)
      case Nil
      then show ?thesis using rest fresh by (auto simp: kv map_add_def map_of_prefix)
    next
      case (Cons c p)
      have "map_of (tree_items n B (the (bc_dict B v))) p = tree_lookup B (the (bc_dict B v)) p" if "k \<noteq> []"
        using Suc.IH Cons.prems that Cons kv by auto
      then show ?thesis
        using rest fresh Cons Cons.prems(2)
        by (auto simp: kv map_add_def map_of_prefix split: option.splits)
    qed
  qed
  then show ?case by simp
qed

lemma tree_items_sorted:
  "tree_ok n B d \<Longrightarrow> sorted_wrt (<) (map fst (tree_items n B d)) \<and> (\<forall>(p, v) \<in> set (tree_items n B d). names_ok p \<and> bc_dict B v \<noteq> None)"
proof (induction n arbitrary: d)
  case (Suc n)
  let ?f = "\<lambda>(k, v). if k = [] then [([], v)] else map (\<lambda>(p, w). (k # p, w)) (tree_items n B (the (bc_dict B v)))"
  have "sorted_wrt (<) (map fst (concat (map ?f d))) \<and>
      (\<forall>(p, v) \<in> set (concat (map ?f d)). names_ok p \<and> bc_dict B v \<noteq> None)"
    using Suc.prems
  proof (induction d)
    case (Cons kv d)
    obtain k v where kv: "kv = (k, v)" by force
    have d: "tree_ok (Suc n) B d" using Cons.prems by (auto simp: om_ok_def)
    have above: "k < k'" if "(k', v') \<in> set d" for k' v'
      using Cons.prems that by (auto simp: kv om_ok_def)
    then have first: "\<exists>k' q. p = k' # q \<and> k < k'" if "(p, w) \<in> set (concat (map ?f d))" for p w
      using that by (fastforce split: if_splits)
    have head: "sorted_wrt (<) (map fst (?f kv)) \<and> (\<forall>(p, v) \<in> set (?f kv). names_ok p \<and> bc_dict B v \<noteq> None)"
    proof (cases "k = []")
      case True
      then show ?thesis using Cons.prems by (auto simp: kv)
    next
      case False
      then have "tree_ok n B (the (bc_dict B v))" using Cons.prems by (auto simp: kv)
      from Suc.IH [OF this] False show ?thesis
        by (auto simp: kv sorted_wrt_map case_prod_beta comp_def)
    qed
    have "p < p'" if "(p, w) \<in> set (?f kv)" "(p', w') \<in> set (concat (map ?f d))" for p w p' w'
      using that(1) first [OF that(2)] by (auto simp: kv split: if_splits)
    then show ?case
      using head Cons.IH [OF d] by (fastforce simp: sorted_wrt_append)
  qed simp
  then show ?case by simp
qed simp

section \<open>The traversal visits the leaves in order\<close>

definition read_leaf ::
    "'b bencode \<Rightarrow> string list \<Rightarrow> path \<times> 'b \<Rightarrow> file_entry list \<Rightarrow> file_entry list result" where
  "read_leaf B comps leaf out =
     rbind (parse_file_entry_v2 B (snd leaf) (tree_path (comps @ fst leaf))) (\<lambda>e. Inr (out @ [e]))"

lemma read_leaf_prefix:
  "rfold (read_leaf B comps) (map (\<lambda>(p, w). (k # p, w)) xs) out = rfold (read_leaf B (comps @ [k])) xs out"
proof -
  have "(\<lambda>x. read_leaf B comps (k # fst x, snd x)) = read_leaf B (comps @ [k])"
    by (simp add: fun_eq_iff read_leaf_def)
  then show ?thesis by (simp add: rfold_map case_prod_beta)
qed

lemma tree_loop_items:
  "tree_ok n B d \<Longrightarrow> tree_loop B (d # rest) comps out =
    (case rfold (read_leaf B comps) (tree_items n B d) out of
       Inl e \<Rightarrow> Some (Inl e) | Inr out' \<Rightarrow> tree_loop B rest (butlast comps) out')"
proof (induction n arbitrary: d rest comps out)
  case (0 d rest comps out)
  then show ?case by (simp add: tree_loop_simps)
next
  case (Suc n d rest comps out)
  let ?f = "\<lambda>(k, v). if k = [] then [([], v)] else map (\<lambda>(p, w). (k # p, w)) (tree_items n B (the (bc_dict B v)))"
  have "tree_loop B (d # rest) comps out =
    (case rfold (read_leaf B comps) (concat (map ?f d)) out of
       Inl e \<Rightarrow> Some (Inl e) | Inr out' \<Rightarrow> tree_loop B rest (butlast comps) out')"
    using Suc.prems
  proof (induction d arbitrary: out)
    case (Nil out)
    then show ?case by (simp add: tree_loop_simps)
  next
    case (Cons kv d out)
    obtain k v where kv: "kv = (k, v)" by force
    have d: "tree_ok (Suc n) B d" using Cons.prems by (auto simp: om_ok_def)
    obtain w where w: "bc_dict B v = Some w" "k \<noteq> [] \<Longrightarrow> tree_ok n B w"
      using Cons.prems kv by auto
    note rest = Cons.IH [OF d]
    show ?case
    proof (cases "k = []")
      case True
      then show ?thesis
        using w rest
        by (cases "parse_file_entry_v2 B v (tree_path comps)")
          (simp_all add: kv tree_loop_simps read_leaf_def)
    next
      case False
      have "tree_loop B (w # d # rest) (comps @ [k]) out =
          (case rfold (read_leaf B (comps @ [k])) (tree_items n B w) out of
             Inl e \<Rightarrow> Some (Inl e) | Inr out' \<Rightarrow> tree_loop B (d # rest) comps out')"
        using Suc.IH [OF w(2) [OF False], of "d # rest" "comps @ [k]" out] by (simp only: butlast_snoc)
      then show ?thesis
        using False w(1) rest
        by (cases "rfold (read_leaf B (comps @ [k])) (tree_items n B w) out")
          (simp_all add: kv tree_loop_simps rfold_append read_leaf_prefix)
    qed
  qed
  then show ?case by simp
qed

lemma tree_path_names:
  assumes "list_all name_ok p"
  shows "tree_path (''/'' # p) = p"
proof -
  have "fold (\<lambda>c q. path_slash q (path_of_string c)) p' (''/'' # q) = ''/'' # q @ p'"
    if "list_all name_ok p'" "list_all name_ok q" for p' q
    using that
  proof (induction p' arbitrary: q)
    case (Cons c p')
    have "path_slash (''/'' # q) [c] = ''/'' # (q @ [c])"
      using Cons.prems by (cases q rule: rev_cases) (auto simp: path_slash_def is_absolute_def name_ok_def)
    then show ?case
      using Cons.IH [of "q @ [c]"] Cons.prems by (simp add: path_of_name)
  qed simp
  from this [OF assms, of "[]"] show ?thesis
    by (simp add: tree_path_def relative_path_def path_slash_def is_absolute_def path_of_string_def)
qed

section \<open>The tree of a list of files\<close>

lemma assoc_sorted_unique:
  fixes xs ys :: "('k :: linorder \<times> 'v) list"
  assumes "sorted_wrt (<) (map fst xs)" "sorted_wrt (<) (map fst ys)" "map_of xs = map_of ys"
  shows "xs = ys"
proof -
  have d: "distinct (map fst xs)" "distinct (map fst ys)"
    using assms(1,2) by (auto simp: strict_sorted_iff)
  have same: "set xs = set ys"
    using assms(3) d by (simp add: map_of_inject_set)
  then have "inj_on fst (set xs \<union> set ys)" using d(1) by (simp add: distinct_map)
  then show ?thesis
    using assms(1,2) d same by (intro map_sorted_distinct_set_unique) (auto simp: strict_sorted_iff)
qed

lemma name_ok_names: "list_all name_ok p \<Longrightarrow> names_ok p"
  by (auto simp: names_ok_def list_all_iff name_ok_def)

text \<open>
  Inserting files with different paths gives a tree whose leaves are their info dictionaries,
  sorted by path.
\<close>

lemma tree_of_files:
  assumes B: "bencode_laws B" and "distinct (map fe_path es)"
    and "\<forall>e \<in> set es. list_all name_ok (fe_path e) \<and> length (fe_path e) < n"
    and info: "\<forall>e \<in> set es. info e = Inr (leaf e) \<and> bc_dict B (leaf e) \<noteq> None"
  shows "\<exists>d. rfold (\<lambda>e d. rbind (info e) (\<lambda>v. tree_insert B (fe_path e) v d)) es [] = Inr d \<and> tree_ok n B d \<and>
    tree_items n B d = map (\<lambda>e. (fe_path e, leaf e)) (sort_key fe_path es)"
proof -
  have "\<exists>d'. rfold (\<lambda>e d. rbind (info e) (\<lambda>v. tree_insert B (fe_path e) v d)) es d = Inr d' \<and> tree_ok n B d' \<and>
      (\<forall>q. names_ok q \<longrightarrow> tree_lookup B d' q =
        (case map_of (map (\<lambda>e. (fe_path e, leaf e)) es) q of Some v \<Rightarrow> Some v | None \<Rightarrow> tree_lookup B d q))"
    if "tree_ok n B d" for d
    using assms(2-4) that
  proof (induction es arbitrary: d)
    case Nil
    then show ?case by simp
  next
    case (Cons e es d)
    have e: "info e = Inr (leaf e)" "bc_dict B (leaf e) \<noteq> None" "length (fe_path e) < n" "names_ok (fe_path e)"
      using Cons.prems(2,3) name_ok_names by auto
    obtain d1 where d1: "tree_insert B (fe_path e) (leaf e) d = Inr d1" "tree_ok n B d1"
        "\<forall>q. names_ok q \<longrightarrow> tree_lookup B d1 q = (if q = fe_path e then Some (leaf e) else tree_lookup B d q)"
      using tree_insert_run [OF B e(2) Cons.prems(4) e(3,4)] by blast
    obtain d2 where d2: "rfold (\<lambda>e d. rbind (info e) (\<lambda>v. tree_insert B (fe_path e) v d)) es d1 = Inr d2" "tree_ok n B d2"
        "\<forall>q. names_ok q \<longrightarrow> tree_lookup B d2 q =
          (case map_of (map (\<lambda>e. (fe_path e, leaf e)) es) q of Some v \<Rightarrow> Some v | None \<Rightarrow> tree_lookup B d1 q)"
      using Cons.IH [OF _ _ _ d1(2)] Cons.prems by auto
    have "map_of (map (\<lambda>e. (fe_path e, leaf e)) es) (fe_path e) = None"
      using Cons.prems(1) by (auto simp: map_of_eq_None_iff comp_def)
    then have "\<forall>q. names_ok q \<longrightarrow> tree_lookup B d2 q =
        (case map_of (map (\<lambda>e. (fe_path e, leaf e)) (e # es)) q of Some v \<Rightarrow> Some v | None \<Rightarrow> tree_lookup B d q)"
      using d1(3) d2(3) by (auto split: option.splits)
    then show ?case
      using e(1) d1(1) d2(1,2) by (intro exI [of _ d2]) simp
  qed
  from this [of "[]"] obtain d where d: "rfold (\<lambda>e d. rbind (info e) (\<lambda>v. tree_insert B (fe_path e) v d)) es [] = Inr d"
      "tree_ok n B d" and find: "\<And>q. names_ok q \<Longrightarrow> tree_lookup B d q =
        (case map_of (map (\<lambda>e. (fe_path e, leaf e)) es) q of Some v \<Rightarrow> Some v | None \<Rightarrow> tree_lookup B [] q)"
    by auto
  have empty: "tree_lookup B [] q = None" for q by (cases q) simp_all
  have d3: "tree_lookup B d q = map_of (map (\<lambda>e. (fe_path e, leaf e)) es) q" if "names_ok q" for q
    using find [OF that] by (simp add: empty split: option.splits)
  let ?ys = "map (\<lambda>e. (fe_path e, leaf e)) (sort_key fe_path es)"
  have keys: "map fst ?ys = map fe_path (sort_key fe_path es)" by (simp add: comp_def)
  have "tree_items n B d = ?ys"
  proof (rule assoc_sorted_unique)
    show "sorted_wrt (<) (map fst (tree_items n B d))" using tree_items_sorted [OF d(2)] by blast
    have "distinct (map fe_path (sort_key fe_path es))"
      using assms(2) by (simp add: distinct_map)
    then show "sorted_wrt (<) (map fst ?ys)" unfolding keys by (simp add: strict_sorted_iff)
    show "map_of (tree_items n B d) = map_of ?ys"
    proof
      fix q
      show "map_of (tree_items n B d) q = map_of ?ys q"
      proof (cases "names_ok q")
        case True
        have "distinct (map fst (map (\<lambda>e. (fe_path e, leaf e)) es))" "distinct (map fst ?ys)"
          using assms(2) by (simp_all add: comp_def distinct_map)
        then have "map_of ?ys = map_of (map (\<lambda>e. (fe_path e, leaf e)) es)"
          by (simp add: map_of_inject_set)
        then show ?thesis
          using tree_items_lookup [OF d(2) True] d3 [OF True] by simp
      next
        case False
        have "q \<notin> fst ` set (tree_items n B d)"
          using False tree_items_sorted [OF d(2)] by force
        moreover have "q \<notin> fst ` set ?ys"
          using False assms(3) name_ok_names by auto
        ultimately show ?thesis by (metis map_of_eq_None_iff)
      qed
    qed
  qed
  with d(1,2) show ?thesis by blast
qed

end
