(* ===== verification/Metafile_V2.thy ===== *)
theory Metafile_V2
  imports Metafile_Tree
begin

text \<open>
  The round trip of v2 torrents: entries of the file tree, piece layers, and the
  composition of the writer with the reader.
\<close>

section \<open>Entries of the file tree\<close>

text \<open>Only a file with content has v2 data, and its root is a digest of 32 bytes.\<close>

definition v2_file_ok :: "file_entry \<Rightarrow> bool" where
  "v2_file_ok e \<longleftrightarrow> (if fe_file_size e = 0 then no_v2 e else fe_has_v2_data e \<and> length (fe_pieces_root e) = 32)"

definition tree_entry :: "bool \<Rightarrow> file_entry \<Rightarrow> file_entry" where
  "tree_entry with_checksums e =
     e\<lparr>fe_piece_layer := [], fe_checksums := (if with_checksums then fe_checksums e else [])\<rparr>"

lemma hash_of_view_view: "length h = n \<Longrightarrow> hash_of_view n (hash_view h) = Inr h"
  by (simp add: hash_of_view_def hash_view_def)

lemma tree_entry_read:
  assumes B: "bencode_laws B" and e: "file_plain e" "v2_file_ok e"
  shows "\<exists>v. file_info_v2 B with_checksums e = Inr v \<and> bc_dict B v \<noteq> None \<and>
    parse_file_entry_v2 B v (fe_path e) = Inr (tree_entry with_checksums e)"
proof -
  define base where "base = (if fe_file_size e \<noteq> 0
     then put ''pieces root'' (hash_value B (fe_pieces_root e)) else id)
       (put ''length'' (size_value B (fe_file_size e)) (put_attributes B e []))"
  define e' where "e' = e\<lparr>fe_checksums := (if with_checksums then fe_checksums e else [])\<rparr>"
  define fd where "fd = put_checksums B e' base"
  have cs: "checksums_ok (fe_checksums e')" "hash_names_only (fe_checksums e')"
    using e(1) by (simp_all add: file_plain_def e'_def checksums_ok_def hash_names_only_def)
  have base: "om_find base k =
      (if k = ''length'' then Some (size_value B (fe_file_size e))
       else if k = ''pieces root'' \<and> fe_file_size e \<noteq> 0 then Some (hash_value B (fe_pieces_root e))
       else if k = ''attr'' then (case fe_attributes e of Some a \<Rightarrow> Some (attributes_value B a) | None \<Rightarrow> None)
       else None)" for k
    by (simp add: base_def put_attributes_def split: option.splits)
  have "om_ok base" by (simp add: base_def put_attributes_def split: option.splits)
  then have ok: "om_ok fd" by (simp add: fd_def ok_put_checksums)
  have "fe_get_pieces_root e = Inr (fe_pieces_root e)" if "fe_file_size e \<noteq> 0"
    using e(2) that by (simp add: fe_get_pieces_root_def v2_file_ok_def)
  then have "file_info_v2 B with_checksums e = Inr (bc_of_dict B (if with_checksums then put_checksums B e base else base))"
    using e(1) by (simp add: file_info_v2_def Let_def put_symlink_def file_plain_def base_def)
  moreover have "(if with_checksums then put_checksums B e base else base) = fd"
    by (simp add: fd_def e'_def put_checksums_def)
  ultimately have info: "file_info_v2 B with_checksums e = Inr (bc_of_dict B fd)" by simp
  have dict: "bc_dict B (bc_of_dict B fd) = Some fd" by (simp add: bencode_simps [OF B])
  note find = find_put_checksums(2) [OF cs, of _ B base, folded fd_def, unfolded base]
  have attrs: "parse_file_attributes B (bc_of_dict B fd) = Inr (fe_attributes e)"
    using e(1) by (intro parse_attributes_value [OF B dict]) (simp_all add: find file_plain_def)
  have size: "parse_file_size B fd = Inr (fe_file_size e)"
    using e(1) by (intro parse_size_value [OF B]) (simp_all add: find file_plain_def)
  let ?r = "if fe_file_size e = 0 then None else Some (fe_pieces_root e)"
  have root: "(case om_find fd ''pieces root'' of
      None \<Rightarrow> if 0 < fe_file_size e then Inl (Parse_Error ''pieces root'') else Inr None
    | Some v \<Rightarrow> rbind (get_string B v) (\<lambda>s. rbind (hash_of_view (size_bytes sha256) s) (\<lambda>h. Inr (Some h)))) = Inr ?r"
    using e(2) by (simp add: find hash_value_def bencode_simps [OF B] hash_of_view_view v2_file_ok_def)
  let ?e1 = "case ?r of Some h \<Rightarrow> fe_set_pieces_root h
      (e\<lparr>fe_checksums := [], fe_has_v2_data := False, fe_pieces_root := hash_zero 32, fe_piece_layer := []\<rparr>)
    | None \<Rightarrow> e\<lparr>fe_checksums := [], fe_has_v2_data := False, fe_pieces_root := hash_zero 32, fe_piece_layer := []\<rparr>"
  have e1: "?e1 = e\<lparr>fe_checksums := [], fe_piece_layer := []\<rparr>"
    by (cases "fe_file_size e = 0")
      (use e(2) in \<open>auto simp: v2_file_ok_def no_v2_def fe_set_pieces_root_def intro: file_entry.equality\<close>)
  have "add_checksums B fd ?e1 = Inr (?e1\<lparr>fe_checksums := fe_checksums e'\<rparr>)"
  proof (rule add_checksums_read [OF B cs ok])
    show "fe_checksums ?e1 = []" unfolding e1 by simp
    show "om_find fd k = map_option (\<lambda>c. bc_of_bytes B (checksum_value c)) (om_find (fe_checksums e') k)"
      if "is_hash_function_name k" for k
    proof -
      have "k \<noteq> ''pieces root''" "k \<noteq> ''length''" "k \<noteq> ''attr''" using that by auto
      then show ?thesis
        using find_put_checksums(1) [OF cs, of B base k] by (simp add: fd_def base split: option.splits)
    qed
  qed
  then have checks: "add_checksums B fd ?e1 = Inr (tree_entry with_checksums e)"
    unfolding e1 by (simp add: tree_entry_def e'_def)
  have "parse_file_entry_v2 B (bc_of_dict B fd) (fe_path e) = Inr (tree_entry with_checksums e)"
    using checks unfolding parse_file_entry_v2_def root_dict_of [OF dict] rbind.simps size root attrs
    by (simp add: parse_symlink_def find fe_make_plain [OF e(1)])
  with info dict show ?thesis by blast
qed

lemma rfold_skip:
  "rfold (\<lambda>x s. if P x then Inr s else f x s) xs s = rfold f (filter (\<lambda>x. \<not> P x) xs) s"
proof (induction xs arbitrary: s)
  case (Cons x xs)
  then show ?case by (cases "f x s") auto
qed simp

lemma file_tree_read:
  assumes B: "bencode_laws B" and es: "es = filter (\<lambda>e. \<not> (hybrid \<and> fe_is_padding_file e)) files"
    and ok: "list_all file_plain es" "list_all v2_file_ok es" "distinct (map fe_path es)"
  shows "\<exists>d. file_tree_value B hybrid files = Inr (bc_of_dict B d) \<and>
    tree_loop B [d] [''/''] [] = Some (Inr (map (tree_entry (\<not> hybrid)) (sort_key fe_path es)))"
proof -
  define leaf where "leaf e = (SOME v. file_info_v2 B (\<not> hybrid) e = Inr v)" for e
  have leaf: "file_info_v2 B (\<not> hybrid) e = Inr (leaf e) \<and> bc_dict B (leaf e) \<noteq> None \<and>
      parse_file_entry_v2 B (leaf e) (fe_path e) = Inr (tree_entry (\<not> hybrid) e)" if "e \<in> set es" for e
  proof -
    obtain v where v: "file_info_v2 B (\<not> hybrid) e = Inr v" "bc_dict B v \<noteq> None"
        "parse_file_entry_v2 B v (fe_path e) = Inr (tree_entry (\<not> hybrid) e)"
      using tree_entry_read [OF B, of e "\<not> hybrid"] ok(1,2) \<open>e \<in> set es\<close> by (auto simp: list_all_iff)
    moreover have "leaf e = v" by (simp add: leaf_def v(1))
    ultimately show ?thesis by simp
  qed
  have names: "list_all name_ok (fe_path e)" if "e \<in> set es" for e
    using ok(1) that by (simp add: list_all_iff file_plain_def path_ok_def)
  let ?n = "Suc (sum_list (map (\<lambda>e. length (fe_path e)) es))"
  have "length (fe_path e) < ?n" if "e \<in> set es" for e
    using that by (induction es) auto
  then obtain d where d: "rfold (\<lambda>e d. rbind (file_info_v2 B (\<not> hybrid) e) (\<lambda>v. tree_insert B (fe_path e) v d)) es [] = Inr d"
      "tree_ok ?n B d" "tree_items ?n B d = map (\<lambda>e. (fe_path e, leaf e)) (sort_key fe_path es)"
    using tree_of_files [OF B ok(3), of ?n "file_info_v2 B (\<not> hybrid)" leaf] leaf names by blast
  have "rfold (read_leaf B [''/'']) (map (\<lambda>e. (fe_path e, leaf e)) xs) out = Inr (out @ map (tree_entry (\<not> hybrid)) xs)"
    if "set xs \<subseteq> set es" for xs out
    using that
  proof (induction xs arbitrary: out)
    case (Cons x xs)
    then have "tree_path (''/'' # fe_path x) = fe_path x" by (intro tree_path_names names) simp
    with Cons leaf [of x] show ?case by (simp add: read_leaf_def)
  qed simp
  from this [of "sort_key fe_path es" "[]"]
  have "rfold (read_leaf B [''/'']) (map (\<lambda>e. (fe_path e, leaf e)) (sort_key fe_path es)) [] =
      Inr (map (tree_entry (\<not> hybrid)) (sort_key fe_path es))" by simp
  then have "tree_loop B [d] [''/''] [] = Some (Inr (map (tree_entry (\<not> hybrid)) (sort_key fe_path es)))"
    using tree_loop_items [OF d(2), of "[]" "[''/'']" "[]"] d(3) by (simp add: tree_loop_simps)
  moreover have "file_tree_value B hybrid files = Inr (bc_of_dict B d)"
    using d(1) unfolding file_tree_value_def rfold_skip es by simp
  ultimately show ?thesis by blast
qed

section \<open>Piece layers\<close>

definition big_file :: "file_storage \<Rightarrow> file_entry \<Rightarrow> bool" where
  "big_file st e \<longleftrightarrow> st_piece_size st < fe_file_size e"

text \<open>
  Layers are written for the files of more than one piece, under their roots, and read for every
  file of at least one piece that is no padding: two such files with one root must have one layer.
\<close>

definition layers_ok :: "file_storage \<Rightarrow> bool" where
  "layers_ok st \<longleftrightarrow> (\<forall>e \<in> set (st_files st).
     list_all (\<lambda>h. length h = 32) (fe_piece_layer e) \<and>
     (big_file st e \<or> st_piece_size st \<le> fe_file_size e \<and> \<not> fe_is_padding_file e \<longrightarrow> fe_has_v2_data e) \<and>
     (fe_is_padding_file e \<or> \<not> big_file st e \<longrightarrow> fe_piece_layer e = []) \<and>
     (\<forall>e' \<in> set (st_files st). big_file st e \<and> st_piece_size st \<le> fe_file_size e' \<and> \<not> fe_is_padding_file e' \<and>
        fe_pieces_root e = fe_pieces_root e' \<longrightarrow> fe_piece_layer e = fe_piece_layer e'))"

lemma layers_okD:
  assumes "layers_ok st" "e \<in> set (st_files st)"
  shows "list_all (\<lambda>h. length h = 32) (fe_piece_layer e)"
    "fe_is_padding_file e \<or> \<not> big_file st e \<Longrightarrow> fe_piece_layer e = []"
    "e' \<in> set (st_files st) \<Longrightarrow> big_file st e \<Longrightarrow> st_piece_size st \<le> fe_file_size e' \<Longrightarrow>
      \<not> fe_is_padding_file e' \<Longrightarrow> fe_pieces_root e = fe_pieces_root e' \<Longrightarrow> fe_piece_layer e = fe_piece_layer e'"
    "big_file st e \<or> st_piece_size st \<le> fe_file_size e \<and> \<not> fe_is_padding_file e \<Longrightarrow> fe_has_v2_data e"
  using assms unfolding layers_ok_def by blast+

definition layer_string :: "file_entry \<Rightarrow> string" where
  "layer_string e = concat (map hash_view (fe_piece_layer e))"

lemma hash_view_inject: "hash_view a = hash_view b \<longleftrightarrow> a = b"
  by (metis hash_view_def bytes_string_inverse(1))

lemma layers_written:
  assumes "layers_ok st"
  shows "piece_layers_value B st = Inr (bc_of_dict B (fold (\<lambda>(k, v). put k (id v))
    (map (\<lambda>e. (hash_view (fe_pieces_root e), bc_of_string B (layer_string e))) (filter (big_file st) (st_files st))) []))"
proof -
  have "rfold (\<lambda>file layers.
                if st_piece_size st < fe_file_size file
                then rbind (fe_get_pieces_root file) (\<lambda>root.
                     rbind (make_v2_piece_layers_string file) (\<lambda>s.
                       Inr (put (hash_view root) (bc_of_string B s) layers)))
                else Inr layers) es d =
      Inr (fold (\<lambda>(k, v). put k (id v))
        (map (\<lambda>e. (hash_view (fe_pieces_root e), bc_of_string B (layer_string e))) (filter (big_file st) es)) d)"
    if "list_all (\<lambda>e. big_file st e \<longrightarrow> fe_has_v2_data e) es" for es d
    using that
    by (induction es arbitrary: d)
      (auto simp: big_file_def fe_get_pieces_root_def make_v2_piece_layers_string_def
        fe_get_piece_layer_def layer_string_def)
  moreover have "list_all (\<lambda>e. big_file st e \<longrightarrow> fe_has_v2_data e) (st_files st)"
    using layers_okD(4) [OF assms] by (auto simp: list_all_iff)
  ultimately show ?thesis by (simp add: piece_layers_value_def)
qed

lemma layers_found:
  assumes "layers_ok st" "e \<in> set (st_files st)" "st_piece_size st \<le> fe_file_size e" "\<not> fe_is_padding_file e"
    and L: "L = fold (\<lambda>(k, v). put k (id v))
      (map (\<lambda>e. (hash_view (fe_pieces_root e), bc_of_string B (layer_string e))) (filter (big_file st) (st_files st))) []"
  shows "om_find L (hash_view (fe_pieces_root e)) = Some (bc_of_string B (layer_string e)) \<or>
    om_find L (hash_view (fe_pieces_root e)) = None \<and> fe_piece_layer e = []"
proof -
  let ?kvs = "rev (map (\<lambda>e. (hash_view (fe_pieces_root e), bc_of_string B (layer_string e))) (filter (big_file st) (st_files st)))"
  have find: "om_find L k = map_of ?kvs k" for k
    unfolding L find_puts by (simp add: om_find_def split: option.splits)
  show ?thesis
  proof (cases "map_of ?kvs (hash_view (fe_pieces_root e))")
    case None
    then have "hash_view (fe_pieces_root e) \<notin> fst ` set ?kvs" by (rule map_of_eq_None_iff [THEN iffD1])
    moreover have "hash_view (fe_pieces_root e) \<in> fst ` set ?kvs" if "big_file st e"
      using assms(2) that by (auto simp: image_image)
    ultimately have "\<not> big_file st e" by blast
    then show ?thesis using None find layers_okD(2) [OF assms(1,2)] by simp
  next
    case (Some v)
    then have "(hash_view (fe_pieces_root e), v) \<in> set ?kvs" by (rule map_of_SomeD)
    then obtain e' where e': "e' \<in> set (st_files st)" "big_file st e'" "fe_pieces_root e' = fe_pieces_root e"
        "v = bc_of_string B (layer_string e')"
      by (auto simp: hash_view_inject)
    then have "fe_piece_layer e' = fe_piece_layer e"
      using assms(1-4) by (blast intro: layers_okD(3))
    then show ?thesis using Some find e'(4) by (simp add: layer_string_def)
  qed
qed

lemma parse_layer_read:
  assumes "list_all (\<lambda>h. length h = 32) hs"
  shows "parse_layer (concat (map hash_view hs)) = Inr hs"
proof -
  let ?s = "concat (map hash_view hs)"
  have all: "\<forall>x \<in> set (map hash_view hs). length x = 32"
    using assms by (auto simp: list_all_iff hash_view_def)
  have "length ?s = 32 * length hs" using length_concat_slices [OF all] by simp
  then have n: "ceil_div (length ?s) 32 = length hs" by (simp add: ceil_div_def)
  have "rfold (\<lambda>i layers. rbind (hash_of_view (size_bytes sha256) (take 32 (drop (32 * i) ?s)))
      (\<lambda>h. Inr (layers @ [h]))) [0..<k] [] = Inr (take k hs)" if "k \<le> length hs" for k
    using that
  proof (induction k)
    case (Suc k)
    have "take 32 (drop (32 * k) ?s) = hash_view (hs ! k)"
      using concat_slice [OF all, of k] Suc.prems by simp
    moreover have "length (hs ! k) = 32" using assms Suc.prems by (simp add: list_all_length)
    ultimately show ?case
      using Suc by (simp add: rfold_append hash_of_view_view take_Suc_conv_app_nth)
  qed simp
  from this [of "length hs"] show ?thesis by (simp add: parse_layer_def n)
qed

lemma layers_loop:
  assumes "length gs = length fs"
    and "\<And>st' i. st_piece_size st' = st_piece_size st \<Longrightarrow> i < length fs \<Longrightarrow> i < length (st_files st') \<Longrightarrow>
      st_files st' ! i = fs ! i \<Longrightarrow>
      set_entry_layer B L i st' = Inr (st'\<lparr>st_files := (st_files st')[i := gs ! i]\<rparr>)"
  shows "k \<le> length fs \<Longrightarrow> rfold (set_entry_layer B L) [0..<k] (st\<lparr>st_files := fs\<rparr>) =
    Inr (st\<lparr>st_files := take k gs @ drop k fs\<rparr>)"
proof (induction k)
  case (Suc k)
  let ?fs = "take k gs @ drop k fs"
  have "?fs ! k = fs ! k" "?fs[k := gs ! k] = take (Suc k) gs @ drop (Suc k) fs" "k < length ?fs"
    using Suc.prems assms(1)
    by (simp_all add: nth_append list_update_append take_Suc_conv_app_nth flip: Cons_nth_drop_Suc)
  then show ?case
    using Suc assms(2) [of "st\<lparr>st_files := ?fs\<rparr>" k] by (simp add: rfold_append)
qed simp

lemma entry_layer_read:
  assumes B: "bencode_laws B" and ok: "layers_ok st" and e: "e \<in> set (st_files st)"
    and L: "L = fold (\<lambda>(k, v). put k (id v))
      (map (\<lambda>e. (hash_view (fe_pieces_root e), bc_of_string B (layer_string e))) (filter (big_file st) (st_files st))) []"
    and st': "st_piece_size st' = st_piece_size st" "0 < st_piece_size st"
      "st_files st' ! i = e\<lparr>fe_piece_layer := []\<rparr>" "i < length (st_files st')"
  shows "set_entry_layer B L i st' = Inr (st'\<lparr>st_files := (st_files st')[i := e]\<rparr>)"
proof -
  let ?f = "e\<lparr>fe_piece_layer := []\<rparr>"
  have same: "?f = e" if "fe_piece_layer e = []"
    by (rule file_entry.equality) (simp_all add: that)
  have keep: "st'\<lparr>st_files := (st_files st')[i := e]\<rparr> = st'" if "fe_piece_layer e = []"
  proof -
    have "(st_files st')[i := e] = st_files st'"
      using same [OF that] st'(3) by (metis list_update_id)
    then show ?thesis by simp
  qed
  have pad: "fe_is_padding_file ?f = fe_is_padding_file e"
    by (simp add: fe_is_padding_file_def fe_has_attribute_def)
  show ?thesis
  proof (cases "fe_file_size e < st_piece_size st \<or> fe_is_padding_file e")
    case True
    then have "fe_piece_layer e = []" using layers_okD(2) [OF ok e] by (auto simp: big_file_def)
    then show ?thesis using True keep st' pad by (simp add: set_entry_layer_def Let_def)
  next
    case False
    then have v2: "fe_has_v2_data e" "fe_get_pieces_root ?f = Inr (fe_pieces_root e)"
      using layers_okD(4) [OF ok e] by (auto simp: fe_get_pieces_root_def)
    have "list_all (\<lambda>h. length h = 32) (fe_piece_layer e)" by (rule layers_okD(1) [OF ok e])
    note layer = parse_layer_read [OF this, folded layer_string_def]
    have set: "fe_set_piece_layer (fe_piece_layer e) ?f = e"
      by (rule file_entry.equality) (simp_all add: fe_set_piece_layer_def v2(1))
    consider "om_find L (hash_view (fe_pieces_root e)) = Some (bc_of_string B (layer_string e))"
      | "om_find L (hash_view (fe_pieces_root e)) = None" "fe_piece_layer e = []"
      using layers_found [OF ok e _ _ L] False by force
    then show ?thesis
    proof cases
      case 1
      then show ?thesis
        using False st' pad v2(2) layer set by (simp add: set_entry_layer_def Let_def bencode_simps [OF B])
    next
      case 2
      then show ?thesis using False st' pad v2(2) keep by (simp add: set_entry_layer_def Let_def)
    qed
  qed
qed

section \<open>The v2 torrent\<close>

definition v2_storage_ok :: "file_storage \<Rightarrow> bool" where
  "v2_storage_ok st \<longleftrightarrow> list_all file_plain (st_files st) \<and> list_all v2_file_ok (st_files st) \<and>
     distinct (map fe_path (st_files st)) \<and> layers_ok st \<and>
     KiB 16 \<le> st_piece_size st \<and> has_single_bit (st_piece_size st) \<and> st_piece_size st < size_bound"

text \<open>The files come back in the order of the tree; the mode is left as it was.\<close>

definition v2_storage_read :: "file_storage \<Rightarrow> file_storage" where
  "v2_storage_read st =
     (fold st_push (sort_key fe_path (st_files st)) (st_new False))\<lparr>st_piece_size := st_piece_size st\<rparr>"

definition v2_name_written :: "'b metafile \<Rightarrow> string" where
  "v2_name_written m = (if mf_name m = [] then path_filename (st_root_directory (mf_storage m)) else mf_name m)"

definition v2_read_back :: "'b bencode \<Rightarrow> platform \<Rightarrow> 'b metafile \<Rightarrow> 'b metafile" where
  "v2_read_back B P m =
     m\<lparr>mf_protocol := protocol_none, mf_name := v2_name_written m, mf_storage := v2_storage_read (mf_storage m),
       mf_cross_seeding := False, mf_other_info_fields := other_fields_read B P m\<rparr>"

lemma v2_storage_okD:
  assumes "v2_storage_ok st"
  shows "layers_ok st" "0 < st_piece_size st"
proof -
  have "KiB 16 \<le> st_piece_size st" using assms by (simp add: v2_storage_ok_def)
  then show "0 < st_piece_size st" by (simp add: KiB_def size_mul_def size_bound_def)
qed (use assms in \<open>simp add: v2_storage_ok_def\<close>)

lemma push_onto_files:
  "fold st_push es (st\<lparr>st_files := xs\<rparr>) = (fold st_push es st)\<lparr>st_files := xs @ es\<rparr>"
proof (induction es arbitrary: st xs)
  case (Cons e es)
  have "st_push e (st\<lparr>st_files := xs\<rparr>) = (st_push e st)\<lparr>st_files := xs @ [e]\<rparr>"
    by (simp add: st_push_def)
  then show ?case using Cons.IH [of "xs @ [e]" "st_push e st"] by simp
qed simp

lemma push_same_sizes:
  assumes "\<And>e. fe_file_size (g e) = fe_file_size e" "\<And>e. fe_is_padding_file (g e) = fe_is_padding_file e"
  shows "fold st_push (map g es) st = (fold st_push es st)\<lparr>st_files := st_files st @ map g es\<rparr>"
proof (induction es arbitrary: st)
  case (Cons e es)
  have "st_push (g e) st = (st_push e st)\<lparr>st_files := st_files st @ [g e]\<rparr>"
    by (simp add: st_push_def assms)
  then show ?case
    using Cons.IH [of "(st_push e st)\<lparr>st_files := st_files st @ [g e]\<rparr>"]
    by (simp add: push_onto_files)
qed simp

lemma push_tree_entries:
  "fold st_push (map (tree_entry c) es) st = (fold st_push es st)\<lparr>st_files := st_files st @ map (tree_entry c) es\<rparr>"
  by (rule push_same_sizes) (simp_all add: tree_entry_def fe_is_padding_file_def fe_has_attribute_def)

lemma tree_entry_plain: "file_plain e \<Longrightarrow> file_plain (tree_entry c e)"
  by (auto simp: file_plain_def tree_entry_def fe_is_symlink_def fe_has_attribute_def checksums_ok_def
      hash_names_only_def)

lemma add_plain_files: "list_all file_plain es \<Longrightarrow> rfold st_add_file_move es st = Inr (fold st_push es st)"
  by (rule rfold_total) (simp add: list_all_iff file_plain_move)

text \<open>Reading the layers completes the entries of the tree, whatever their order.\<close>

lemma layers_complete:
  assumes B: "bencode_laws B" and ok: "layers_ok st" and pos: "0 < st_piece_size st"
  shows "\<exists>L. piece_layers_value B st = Inr (bc_of_dict B L) \<and>
    (\<forall>es st'. set es = set (st_files st) \<and> st_piece_size st' = st_piece_size st \<longrightarrow>
      rfold (set_entry_layer B L) [0..<length es] (st'\<lparr>st_files := map (\<lambda>e. e\<lparr>fe_piece_layer := []\<rparr>) es\<rparr>) =
        Inr (st'\<lparr>st_files := es\<rparr>))"
proof -
  define L where "L = fold (\<lambda>(k, v). put k (id v))
    (map (\<lambda>e. (hash_view (fe_pieces_root e), bc_of_string B (layer_string e))) (filter (big_file st) (st_files st))) []"
  have "rfold (set_entry_layer B L) [0..<length es] (st'\<lparr>st_files := map (\<lambda>e. e\<lparr>fe_piece_layer := []\<rparr>) es\<rparr>) =
      Inr (st'\<lparr>st_files := es\<rparr>)"
    if es: "set es = set (st_files st)" "st_piece_size st' = st_piece_size st" for es st'
  proof -
    let ?fs = "map (\<lambda>e. e\<lparr>fe_piece_layer := []\<rparr>) es"
    have "set_entry_layer B L i s = Inr (s\<lparr>st_files := (st_files s)[i := es ! i]\<rparr>)"
      if "st_piece_size s = st_piece_size st'" "i < length ?fs" "i < length (st_files s)" "st_files s ! i = ?fs ! i" for s i
    proof (rule entry_layer_read [OF B ok _ L_def _ pos])
      show "es ! i \<in> set (st_files st)" unfolding es(1) [symmetric] by (rule nth_mem) (use that(2) in simp)
      show "st_piece_size s = st_piece_size st" using that(1) es(2) by simp
      show "st_files s ! i = (es ! i)\<lparr>fe_piece_layer := []\<rparr>" using that(2,4) by simp
      show "i < length (st_files s)" by (rule that(3))
    qed
    note run = layers_loop [OF length_map [symmetric] this order_refl]
    show ?thesis using run by (simp only: length_map take_all drop_all order_refl append_Nil2)
  qed
  moreover have "piece_layers_value B st = Inr (bc_of_dict B L)"
    unfolding L_def by (rule layers_written [OF ok])
  ultimately show ?thesis by blast
qed

lemma piece_layers_parsed:
  assumes t: "torrent_of B P m similar data D I" and D: "om_find D ''piece layers'' = Some (bc_of_dict B L)"
  shows "parse_piece_layers_v2 B data m0 =
    on_storage (\<lambda>st. rfold (set_entry_layer B L) [0..<length (st_files st)] st) m0"
  by (simp add: parse_piece_layers_v2_def torrent_ofD(5) [OF t] D bencode_simps [OF torrent_ofD(1) [OF t]])

lemma tree_parsed:
  assumes t: "torrent_of B P m similar data D I" and "om_find I ''file tree'' = Some (bc_of_dict B d)"
    and "tree_loop B [d] [''/''] [] = Some (Inr es)"
  shows "parse_file_tree_entries B data = Inr es"
  using assms(2,3)
  by (simp add: parse_file_tree_entries_def torrent_ofD(6) [OF t] dict_at_def get_dict_def
      bencode_simps [OF torrent_ofD(1) [OF t]])

text \<open>The steps that v2 and hybrid torrents share, up to the files.\<close>

definition head_read :: "'b bencode \<Rightarrow> platform \<Rightarrow> 'b metafile \<Rightarrow> string \<Rightarrow> 'b metafile" where
  "head_read B P m s =
     m\<lparr>mf_protocol := protocol_none, mf_name := s,
       mf_storage := (st_new False)\<lparr>st_piece_size := st_piece_size (mf_storage m)\<rparr>,
       mf_cross_seeding := False, mf_other_info_fields := other_fields_read B P m\<rparr>"

lemma head_steps_read:
  assumes t: "torrent_of B P m similar data D (put_info_tail B P m d)" and ok: "om_ok d"
    and keys: "\<And>k. om_find d k \<noteq> None \<Longrightarrow> k \<in> set known_info_keys - {''private'', ''source''}"
    and find: "om_find d ''name'' = Some (bc_of_string B s)" "om_find d ''meta version'' = Some (bc_of_integer B 2)"
      "om_find d ''piece length'' = Some (size_value B (st_piece_size (mf_storage m)))"
    and st: "KiB 16 \<le> st_piece_size (mf_storage m)" "has_single_bit (st_piece_size (mf_storage m))"
      "st_piece_size (mf_storage m) < size_bound"
  shows "parse_protocol B data = Inr protocol_v2"
    "rfold (\<lambda>step. step) (common_steps B data @ v2_steps B data) mf_empty = Inr (head_read B P m s)"
proof -
  let ?I = "put_info_tail B P m d" and ?st = "mf_storage m"
  have B: "bencode_laws B" and w: "writable m" by (rule torrent_ofD [OF t])+
  note I = writable_find [OF w, of _ B P d]
  have none: "om_find d k = None" if "k \<in> {''private'', ''source'', ''collections'', ''similar''}" for k
    by (rule ccontr) (use keys [of k] that in \<open>auto simp: known_info_keys_def\<close>)
  have priv: "om_find ?I ''private'' = optional_entry (mf_private m) (bc_of_integer B 1)"
    and src: "om_find ?I ''source'' = optional_entry (mf_source m \<noteq> []) (bc_of_string B (mf_source m))"
    by (simp_all add: I none optional_entry_def)
  show "parse_protocol B data = Inr protocol_v2"
    by (simp add: parse_protocol_def torrent_ofD(6) [OF t] I find bencode_simps [OF B])
  define m1 :: "'a metafile" where "m1 = mf_empty\<lparr>mf_trackers := mf_trackers m, mf_http_seeds := mf_http_seeds m,
      mf_web_seeds := mf_web_seeds m, mf_dht_nodes := mf_dht_nodes m, mf_name := s,
      mf_comment := mf_comment m, mf_creation_seconds := mf_creation_seconds m,
      mf_created_by := mf_created_by m, mf_private := mf_private m,
      mf_similar_torrents := mf_similar_torrents m, mf_collections := mf_collections m\<rparr>"
  have common: "rfold (\<lambda>step. step) (common_steps B data) mf_empty = Inr m1"
    unfolding m1_def by (intro common_steps_read [OF t priv]) (simp_all add: I none find)
  have m1: "mf_storage m1 = st_new False" "mf_source m1 = []" "mf_other_info_fields m1 = []"
    by (simp_all add: m1_def mf_empty_def)
  have "om_find ?I ''piece length'' = Some (size_value B (st_piece_size ?st))" by (simp add: I find)
  from parse_piece_size_read [OF t this st]
  have piece_size: "parse_piece_size B data m1 = Inr (m1\<lparr>mf_storage := (st_new False)\<lparr>st_piece_size := st_piece_size ?st\<rparr>\<rparr>)"
    by (simp add: m1(1))
  have other: "parse_other_info_fields B data m' = Inr (m'\<lparr>mf_other_info_fields := other_fields_read B P m\<rparr>)"
    if "mf_other_info_fields m' = []" for m'
    using keys by (intro other_fields_parsed [OF t that refl ok]) auto
  show "rfold (\<lambda>step. step) (common_steps B data @ v2_steps B data) mf_empty = Inr (head_read B P m s)"
    using m1 common
    by (simp add: rfold_append v2_steps_def piece_size source_read [OF t _ src] other)
      (simp add: head_read_def m1_def mf_empty_def)
qed

lemma push_onto_piece_size:
  "fold st_push es (st\<lparr>st_piece_size := n\<rparr>) = (fold st_push es st)\<lparr>st_piece_size := n\<rparr>"
proof (induction es arbitrary: st)
  case (Cons e es)
  have "st_push e (st\<lparr>st_piece_size := n\<rparr>) = (st_push e st)\<lparr>st_piece_size := n\<rparr>"
    by (simp add: st_push_def)
  then show ?case using Cons.IH [of "st_push e st"] by simp
qed simp

lemma v2_storage_read_files:
  "(fold st_push (sort_key fe_path (st_files st)) ((st_new False)\<lparr>st_piece_size := st_piece_size st\<rparr>))
     \<lparr>st_files := sort_key fe_path (st_files st)\<rparr> = v2_storage_read st"
proof -
  have same: "x\<lparr>st_files := es\<rparr> = x" if "st_files x = es" for x :: file_storage and es
    using that by auto
  show ?thesis
    unfolding push_onto_piece_size v2_storage_read_def by (rule same) (simp add: fold_push st_new_def)
qed

text \<open>Files, layers and storage, from the storage of the common steps.\<close>

lemma v2_files_read:
  assumes t: "torrent_of B P m similar data D I" and st: "v2_storage_ok st"
    and tree: "om_find I ''file tree'' = Some (bc_of_dict B tree)"
      "tree_loop B [tree] [''/''] [] = Some (Inr (map (tree_entry True) (sort_key fe_path (st_files st))))"
    and L: "om_find D ''piece layers'' = Some (bc_of_dict B L)" "piece_layers_value B st = Inr (bc_of_dict B L)"
    and m0: "mf_storage m0 = (st_new False)\<lparr>st_piece_size := st_piece_size st\<rparr>"
  shows "rfold (\<lambda>step. step) [parse_file_tree_v2 B data, parse_piece_layers_v2 B data] m0 =
    Inr (m0\<lparr>mf_storage := v2_storage_read st\<rparr>)"
proof -
  let ?es = "sort_key fe_path (st_files st)" and ?s1 = "(st_new False)\<lparr>st_piece_size := st_piece_size st\<rparr>"
  have B: "bencode_laws B" by (rule torrent_ofD [OF t])
  define s2 where "s2 = fold st_push (map (tree_entry True) ?es) ?s1"
  have "list_all file_plain (map (tree_entry True) ?es)"
    using st by (simp add: v2_storage_ok_def list_all_iff tree_entry_plain)
  then have tree_step: "parse_file_tree_v2 B data m0 = Inr (m0\<lparr>mf_storage := s2\<rparr>)"
    using tree_parsed [OF t tree] by (simp add: parse_file_tree_v2_def on_storage_def add_plain_files m0 s2_def)
  obtain L' where L': "piece_layers_value B st = Inr (bc_of_dict B L')"
      "\<And>xs st'. set xs = set (st_files st) \<Longrightarrow> st_piece_size st' = st_piece_size st \<Longrightarrow>
        rfold (set_entry_layer B L') [0..<length xs] (st'\<lparr>st_files := map (\<lambda>e. e\<lparr>fe_piece_layer := []\<rparr>) xs\<rparr>) =
          Inr (st'\<lparr>st_files := xs\<rparr>)"
    using layers_complete [OF B v2_storage_okD [OF st]] by blast
  have "bc_of_dict B L' = bc_of_dict B L" using L(2) L'(1) by simp
  then have D: "om_find D ''piece layers'' = Some (bc_of_dict B L')" by (simp add: L(1))
  have "rfold (set_entry_layer B L') [0..<length ?es]
      ((fold st_push ?es ?s1)\<lparr>st_files := map (\<lambda>e. e\<lparr>fe_piece_layer := []\<rparr>) ?es\<rparr>) = Inr (v2_storage_read st)"
    by (subst L'(2)) (simp_all add: fold_push v2_storage_read_files)
  moreover have "s2 = (fold st_push ?es ?s1)\<lparr>st_files := map (\<lambda>e. e\<lparr>fe_piece_layer := []\<rparr>) ?es\<rparr>"
    by (simp add: s2_def push_tree_entries st_new_def tree_entry_def)
  ultimately have "parse_piece_layers_v2 B data (m0\<lparr>mf_storage := s2\<rparr>) = Inr (m0\<lparr>mf_storage := v2_storage_read st\<rparr>)"
    by (simp add: piece_layers_parsed [OF t D] on_storage_def)
  with tree_step show ?thesis by simp
qed

lemma v2_round_trip_run:
  assumes B: "bencode_laws B" and P: "platform_ok P m" and w: "writable m" and st: "v2_storage_ok (mf_storage m)"
  shows "\<exists>v. make_bvalue_v2 B P m = Inr v \<and> parse_metafile B v = Inr (v2_read_back B P m)"
proof -
  let ?st = "mf_storage m"
  obtain d similar where d: "make_bvalue_common B P m = Inr d"
      and t: "\<forall>I v. torrent_of B P m similar (bc_of_dict B (put ''info'' (bc_of_dict B I) d)) (put ''info'' (bc_of_dict B I) d) I \<and>
        torrent_of B P m similar (bc_of_dict B (put ''piece layers'' v (put ''info'' (bc_of_dict B I) d)))
          (put ''piece layers'' v (put ''info'' (bc_of_dict B I) d)) I"
    using torrent_of_dict [OF B P w] by blast
  have files: "list_all file_plain (st_files ?st)" "list_all v2_file_ok (st_files ?st)"
      "distinct (map fe_path (st_files ?st))"
    using st by (simp_all add: v2_storage_ok_def)
  obtain tree where tree: "file_tree_value B False (st_files ?st) = Inr (bc_of_dict B tree)"
      "tree_loop B [tree] [''/''] [] = Some (Inr (map (tree_entry True) (sort_key fe_path (st_files ?st))))"
    using file_tree_read [OF B, of "st_files ?st" False, OF _ files] by auto
  obtain L where L: "piece_layers_value B ?st = Inr (bc_of_dict B L)"
    using layers_complete [OF B v2_storage_okD [OF st]] by blast
  define e where "e = put ''file tree'' (bc_of_dict B tree) (put ''piece length'' (size_value B (st_piece_size ?st))
    (put ''meta version'' (bc_of_integer B 2) (put_name B m [])))"
  let ?I = "put_info_tail B P m e"
  let ?D = "put ''piece layers'' (bc_of_dict B L) (put ''info'' (bc_of_dict B ?I) d)"
  let ?data = "bc_of_dict B ?D"
  have t: "torrent_of B P m similar ?data ?D ?I" using t by blast
  have e: "om_ok e" "om_find e k =
      (if k = ''file tree'' then Some (bc_of_dict B tree)
       else if k = ''piece length'' then Some (size_value B (st_piece_size ?st))
       else if k = ''meta version'' then Some (bc_of_integer B 2)
       else if k = ''name'' then Some (bc_of_string B (v2_name_written m)) else None)" for k
    by (simp_all add: e_def put_name_def v2_name_written_def)
  note I = writable_find [OF w, of _ B P e, unfolded e(2)]
  have keys: "om_find e k \<noteq> None \<Longrightarrow> k \<in> set known_info_keys - {''private'', ''source''}" for k
    by (auto simp: e(2) known_info_keys_def split: if_splits)
  have head: "parse_protocol B ?data = Inr protocol_v2"
      "rfold (\<lambda>step. step) (common_steps B ?data @ v2_steps B ?data) mf_empty = Inr (head_read B P m (v2_name_written m))"
    using st by (intro head_steps_read [OF t e(1) keys]; simp add: e(2) v2_storage_ok_def)+
  have hybrid: "check_if_hybrid B ?data = Inr False"
    by (simp add: check_if_hybrid_def torrent_ofD(6) [OF t] I)
  have "rfold (\<lambda>step. step) [parse_file_tree_v2 B ?data, parse_piece_layers_v2 B ?data]
      (head_read B P m (v2_name_written m)) =
      Inr ((head_read B P m (v2_name_written m))\<lparr>mf_storage := v2_storage_read ?st\<rparr>)"
    by (rule v2_files_read [OF t st _ tree(2) _ L]) (simp_all add: I head_read_def)
  then have "parse_metafile B ?data = Inr (v2_read_back B P m)"
    using head hybrid
    by (simp add: parse_metafile_def Let_def protocol_defs head_read_def v2_read_back_def del: rfold.simps)
  moreover have "make_bvalue_v2 B P m = Inr ?data"
    by (simp add: make_bvalue_v2_def d make_bvalue_infodict_v2_def Let_def tree(1) L e_def)
  ultimately show ?thesis by blast
qed

text \<open>
  C2: Reading the bencode value a v2 metafile is written as gives the metafile back, with its files,
  pieces roots and piece layers: the writer nests the files into dictionaries by their paths and
  the reader traverses those with an explicit stack, so the files come back sorted by path. The
  exceptions are stated by \<open>v2_read_back\<close>: the order of the files, the file mode, the root
  directory, and the switch for cross seeding.
\<close>

theorem metafile_v2_round_trip:
  assumes "bencode_laws B" "platform_ok P m" "writable m" "v2_storage_ok (mf_storage m)"
  shows "rbind (make_bvalue_v2 B P m) (parse_metafile B) = Inr (v2_read_back B P m)"
  using v2_round_trip_run [OF assms] by auto

subsection \<open>A sample\<close>

definition sample_big_file :: file_entry where
  "sample_big_file = \<lparr>fe_path = [''d'', ''b''], fe_file_size = 20000,
     fe_checksums = [(''md5'', Basic_Checksum md5 (replicate 16 7))], fe_has_v2_data = True,
     fe_pieces_root = replicate 32 1, fe_piece_layer = [replicate 32 2, replicate 32 3], fe_attributes = None,
     fe_symlink_path = None, fe_last_modified_time = None\<rparr>"

definition sample_empty_file :: file_entry where
  "sample_empty_file = \<lparr>fe_path = [''a''], fe_file_size = 0, fe_checksums = [], fe_has_v2_data = False,
     fe_pieces_root = hash_zero 32, fe_piece_layer = [], fe_attributes = Some attribute_hidden,
     fe_symlink_path = None, fe_last_modified_time = None\<rparr>"

definition sample_v2_torrent :: "sample_value metafile" where
  "sample_v2_torrent = sample_torrent\<lparr>mf_storage := (st_new False)\<lparr>st_total_file_size := 20000,
     st_piece_size := 16384, st_file_mode := mode_multi, st_files := [sample_big_file, sample_empty_file]\<rparr>\<rparr>"

lemma writable_storage [simp]:
  "writable (m\<lparr>mf_storage := st\<rparr>) = writable m" "platform_ok P (m\<lparr>mf_storage := st\<rparr>) = platform_ok P m"
  by (simp_all add: writable_def platform_ok_def mf_creation_date_def)

lemma sample_v2_writable: "writable sample_v2_torrent" "platform_ok sample_platform sample_v2_torrent"
  using sample_writable unfolding sample_v2_torrent_def by simp_all

lemma sample_v2_files:
  "file_plain sample_big_file" "v2_file_ok sample_big_file" "file_plain sample_empty_file" "v2_file_ok sample_empty_file"
  by (simp_all add: file_plain_def no_v2_def v2_file_ok_def sample_big_file_def sample_empty_file_def checksums_ok_def
      hash_names_only_def om_ok_def supported_hash_functions_def is_hash_function_name_def path_ok_def name_ok_def
      size_bound_def fe_is_symlink_def fe_has_attribute_def has_flag_def enum_and_def attribute_defs known_attributes_def)

lemma sample_v2_storage_ok: "v2_storage_ok (mf_storage sample_v2_torrent)"
proof -
  have st: "st_files (mf_storage sample_v2_torrent) = [sample_big_file, sample_empty_file]"
      "st_piece_size (mf_storage sample_v2_torrent) = 16384"
    by (simp_all add: sample_v2_torrent_def)
  have pad: "\<not> fe_is_padding_file sample_big_file" "\<not> fe_is_padding_file sample_empty_file"
    by (simp_all add: sample_big_file_def sample_empty_file_def fe_is_padding_file_def fe_has_attribute_def
        has_flag_def enum_and_def attribute_defs)
  have entries: "fe_file_size sample_big_file = 20000" "fe_file_size sample_empty_file = 0"
      "fe_piece_layer sample_big_file = [replicate 32 2, replicate 32 3]" "fe_piece_layer sample_empty_file = []"
      "fe_has_v2_data sample_big_file" "fe_path sample_big_file = [''d'', ''b'']" "fe_path sample_empty_file = [''a'']"
    by (simp_all add: sample_big_file_def sample_empty_file_def)
  have "layers_ok (mf_storage sample_v2_torrent)"
    by (simp add: layers_ok_def big_file_def st entries pad)
  then show ?thesis
    using sample_v2_files single_bit_16K
    by (simp add: v2_storage_ok_def st entries KiB_def size_mul_def size_bound_def)
qed

theorem metafile_v2_round_trip_witness:
  "\<exists>m. rbind (make_bvalue_v2 sample_lib sample_platform sample_v2_torrent) (parse_metafile sample_lib) = Inr m \<and>
     st_files (mf_storage m) = [sample_empty_file, sample_big_file] \<and> mf_private m \<and>
     mf_trackers m = [Announce_Url ''a'' 0, Announce_Url ''b'' 1]"
  using metafile_v2_round_trip [OF sample_laws sample_v2_writable(2,1) sample_v2_storage_ok]
  by (simp add: v2_read_back_def v2_storage_read_def fold_push st_new_def)
    (simp add: sample_v2_torrent_def sample_torrent_def sample_big_file_def sample_empty_file_def)

end
