(* ===== verification/Metafile_Hybrid.thy ===== *)
theory Metafile_Hybrid
  imports Metafile_V2
begin

text \<open>
  The round trip of hybrid torrents: the list of the v1 part gives the files in their order, the
  tree of the v2 part gives their roots, and both layers and pieces are read.
\<close>

section \<open>Files of a hybrid torrent\<close>

text \<open>The v1 part keeps what the v1 reader can see of a file.\<close>

definition strip :: "file_entry \<Rightarrow> file_entry" where
  "strip e = e\<lparr>fe_has_v2_data := False, fe_pieces_root := hash_zero 32, fe_piece_layer := []\<rparr>"

definition bare :: "file_entry \<Rightarrow> file_entry" where
  "bare e = e\<lparr>fe_piece_layer := []\<rparr>"

lemma strip_simps [simp]:
  "fe_path (strip e) = fe_path e" "fe_file_size (strip e) = fe_file_size e"
  "fe_is_padding_file (strip e) = fe_is_padding_file e" "no_v2 (strip e)"
  "file_plain (strip e) = file_plain e" "file_info_v1 B (strip e) = file_info_v1 B e"
  by (simp_all add: strip_def fe_is_padding_file_def fe_has_attribute_def no_v2_def file_plain_def fe_is_symlink_def
      file_info_v1_def put_symlink_def put_attributes_def put_checksums_def)

lemma bare_simps [simp]:
  "fe_path (bare e) = fe_path e" "fe_file_size (bare e) = fe_file_size e"
  "fe_is_padding_file (bare e) = fe_is_padding_file e"
  by (simp_all add: bare_def fe_is_padding_file_def fe_has_attribute_def)

lemma no_v2_strip: "no_v2 e \<Longrightarrow> strip e = e" "no_v2 e \<Longrightarrow> bare e = e"
  by (rule file_entry.equality; simp add: no_v2_def strip_def bare_def)+

lemma set_root_strip: "fe_has_v2_data e \<Longrightarrow> fe_set_pieces_root (fe_pieces_root e) (strip e) = bare e"
  by (rule file_entry.equality) (simp_all add: fe_set_pieces_root_def strip_def bare_def)

lemma file_list_stripped: "file_list_value B es = file_list_value B (map strip es)"
  by (simp add: file_list_value_def rfold_map)

lemma hybrid_list_read:
  assumes "bencode_laws B" "list_all file_plain es"
  shows "\<exists>vs. file_list_value B es = Inr (bc_of_list B vs) \<and>
    (\<forall>st. rfold (\<lambda>f st. rbind (parse_file_entry_v1 B f) (\<lambda>e. st_add_file_move e st)) vs st
      = Inr (fold st_push (map strip es) st))"
  unfolding file_list_stripped [of B es]
  by (rule file_list_read [OF assms(1)]) (use assms(2) in \<open>simp_all add: list_all_iff\<close>)

section \<open>Roots from the tree\<close>

definition rooted :: "file_entry set \<Rightarrow> file_entry \<Rightarrow> file_entry" where
  "rooted S e = (if e \<in> S then bare e else strip e)"

lemma find_index_path:
  assumes "distinct (map fe_path es)" "i < length es" "\<And>e. fe_path (g e) = fe_path e"
  shows "find_index (\<lambda>f. fe_path (es ! i) = fe_path f) (map g es) = i"
proof -
  have "fe_path (es ! i) \<noteq> fe_path (es ! j)" if "j < i" for j
    using assms(1,2) that by (auto simp: distinct_conv_nth)
  then have "takeWhile (\<lambda>f. fe_path (es ! i) \<noteq> fe_path f) (map g es) = take i (map g es)"
    using assms(2) by (intro takeWhile_eq_take_P_nth) (simp_all add: assms(3))
  then show ?thesis using assms(2) by (simp add: find_index_def)
qed

lemma set_root_step:
  assumes es: "distinct (map fe_path es)" and x: "x \<in> set es" "x \<notin> S" "v2_file_ok x"
  shows "set_entry_root (tree_entry c x) (st\<lparr>st_files := map (rooted S) es\<rparr>) =
    Inr (st\<lparr>st_files := map (rooted (insert x S)) es\<rparr>)"
proof -
  obtain i where i: "i < length es" "es ! i = x" using x(1) by (auto simp: in_set_conv_nth)
  have "find_index (\<lambda>f. fe_path x = fe_path f) (map (rooted S) es) = i"
    using find_index_path [OF es i(1), of "rooted S"] i(2) by (simp add: rooted_def)
  then have index: "find_index (\<lambda>f. fe_path (tree_entry c x) = fe_path f) (map (rooted S) es) = i"
    by (simp add: tree_entry_def)
  have "distinct es" using es by (simp add: distinct_map)
  then have here: "es ! j = x \<longleftrightarrow> j = i" if "j < length es" for j
    using i that nth_eq_iff_index_eq by blast
  have upd: "(map (rooted S) es)[i := bare x] = map (rooted (insert x S)) es"
    using here i by (intro nth_equalityI) (auto simp: nth_list_update rooted_def)
  show ?thesis
  proof (cases "fe_file_size x = 0")
    case True
    then have "no_v2 x" using x(3) by (simp add: v2_file_ok_def)
    then have "rooted (insert x S) e = rooted S e" for e
      by (auto simp: rooted_def no_v2_strip)
    then show ?thesis using True index by (simp add: set_entry_root_def Let_def tree_entry_def)
  next
    case False
    then have v2: "fe_has_v2_data x" using x(3) by (simp add: v2_file_ok_def)
    have entry: "fe_get_pieces_root (tree_entry c x) = Inr (fe_pieces_root x)" "0 < fe_file_size (tree_entry c x)"
      using v2 False by (simp_all add: fe_get_pieces_root_def tree_entry_def)
    have "map (rooted S) es ! i = strip x" using i x(2) by (simp add: rooted_def)
    then have "(map (rooted S) es)[i := fe_set_pieces_root (fe_pieces_root x) (map (rooted S) es ! i)] =
        map (rooted (insert x S)) es"
      using upd set_root_strip [OF v2] by (simp only:)
    moreover have "i \<noteq> length (map (rooted S) es)" using i(1) by simp
    moreover have "st_files (st\<lparr>st_files := fs\<rparr>) = fs" "st\<lparr>st_files := fs, st_files := gs\<rparr> = st\<lparr>st_files := gs\<rparr>" for fs gs
      by simp_all
    ultimately show ?thesis
      using entry by (simp only: set_entry_root_def Let_def index if_True if_False rbind.simps)
  qed
qed

lemma set_roots_run:
  assumes "distinct (map fe_path es)" "set xs \<subseteq> set es" "distinct xs" "set xs \<inter> S = {}" "list_all v2_file_ok xs"
  shows "rfold set_entry_root (map (tree_entry c) xs) (st\<lparr>st_files := map (rooted S) es\<rparr>) =
    Inr (st\<lparr>st_files := map (rooted (S \<union> set xs)) es\<rparr>)"
  using assms(2-5)
proof (induction xs arbitrary: S)
  case (Cons x xs)
  then show ?case
    using Cons.IH [of "insert x S"] set_root_step [OF assms(1), of x S c st] by simp
qed simp

section \<open>The hybrid torrent\<close>

definition hybrid_files_read :: "file_storage \<Rightarrow> file_entry list" where
  "hybrid_files_read st =
     (if st_get_file_mode st = mode_single
      then map (\<lambda>e. e\<lparr>fe_checksums := [], fe_attributes := None\<rparr>) (st_files st) else st_files st)"

definition hybrid_storage_read :: "file_storage \<Rightarrow> file_storage" where
  "hybrid_storage_read st =
     (fold st_push (hybrid_files_read st) (st_new False))\<lparr>st_file_mode := st_get_file_mode st,
       st_piece_size := st_piece_size st, st_pieces := st_pieces st\<rparr>"

text \<open>
  Padding files have no v2 data. A single file is named by the torrent, and keeps its name and
  size in the v1 part.
\<close>

definition hybrid_storage_ok :: "string \<Rightarrow> file_storage \<Rightarrow> bool" where
  "hybrid_storage_ok name st \<longleftrightarrow> list_all file_plain (st_files st) \<and>
     list_all (\<lambda>e. if fe_is_padding_file e then no_v2 e else v2_file_ok e) (st_files st) \<and>
     distinct (map fe_path (st_files st)) \<and> layers_ok st \<and> st_get_file_mode st \<noteq> mode_empty \<and>
     (st_get_file_mode st = mode_single \<longrightarrow>
        (\<exists>e. st_files st = [e] \<and> fe_path e = [name] \<and> \<not> fe_is_padding_file e)) \<and>
     KiB 16 \<le> st_piece_size st \<and> has_single_bit (st_piece_size st) \<and> st_piece_size st < size_bound \<and>
     list_all (\<lambda>h. length h = 20) (st_pieces st) \<and>
     length (st_pieces st) = st_piece_count (hybrid_storage_read st)"

definition hybrid_read_back :: "'b bencode \<Rightarrow> platform \<Rightarrow> 'b metafile \<Rightarrow> 'b metafile" where
  "hybrid_read_back B P m =
     m\<lparr>mf_protocol := protocol_none, mf_name := v2_name_written m, mf_storage := hybrid_storage_read (mf_storage m),
       mf_cross_seeding := False, mf_other_info_fields := other_fields_read B P m\<rparr>"

lemma hybrid_storage_okD:
  assumes "hybrid_storage_ok name st"
  shows "list_all file_plain (st_files st)" "distinct (map fe_path (st_files st))"
    "list_all v2_file_ok (filter (\<lambda>e. \<not> fe_is_padding_file e) (st_files st))"
    "st_get_file_mode st = mode_single \<Longrightarrow>
      \<exists>e. st_files st = [e] \<and> fe_path e = [name] \<and> \<not> fe_is_padding_file e \<and> file_plain e"
    "st_get_file_mode st \<noteq> mode_single \<Longrightarrow> st_get_file_mode st = mode_multi"
  using assms by (auto simp: hybrid_storage_ok_def list_all_iff split: if_splits intro: file_mode.exhaust)

lemma hybrid_info_value:
  assumes B: "bencode_laws B" and st: "hybrid_storage_ok (v2_name_written m) (mf_storage m)"
  shows "\<exists>d. make_bvalue_infodict_hybrid B P m = Inr (bc_of_dict B (put_info_tail B P m d)) \<and> om_ok d \<and>
    (\<forall>k. om_find d k \<noteq> None \<longrightarrow> k \<in> set known_info_keys - {''private'', ''source''}) \<and>
    om_find d ''name'' = Some (bc_of_string B (v2_name_written m)) \<and>
    om_find d ''meta version'' = Some (bc_of_integer B 2) \<and>
    om_find d ''piece length'' = Some (size_value B (st_piece_size (mf_storage m))) \<and>
    om_find d ''pieces'' = Some (bc_of_string B (concat (map hash_view (st_pieces (mf_storage m))))) \<and>
    (\<exists>tree. om_find d ''file tree'' = Some (bc_of_dict B tree) \<and> tree_loop B [tree] [''/''] [] =
       Some (Inr (map (tree_entry False)
         (sort_key fe_path (filter (\<lambda>e. \<not> fe_is_padding_file e) (st_files (mf_storage m))))))) \<and>
    (if st_get_file_mode (mf_storage m) = mode_single
     then om_find d ''files'' = None \<and>
       om_find d ''length'' = Some (size_value B (fe_file_size (hd (st_files (mf_storage m)))))
     else \<exists>vs. om_find d ''files'' = Some (bc_of_list B vs) \<and>
       (\<forall>st. rfold (\<lambda>f st. rbind (parse_file_entry_v1 B f) (\<lambda>e. st_add_file_move e st)) vs st
         = Inr (fold st_push (map strip (st_files (mf_storage m))) st)))"
proof -
  let ?st = "mf_storage m"
  let ?es = "filter (\<lambda>e. \<not> fe_is_padding_file e) (st_files ?st)"
  have "list_all file_plain ?es" "distinct (map fe_path ?es)"
    using hybrid_storage_okD(1,2) [OF st] by (auto simp: list_all_iff distinct_map_filter)
  then obtain tree where tree: "file_tree_value B True (st_files ?st) = Inr (bc_of_dict B tree)"
      "tree_loop B [tree] [''/''] [] = Some (Inr (map (tree_entry False) (sort_key fe_path ?es)))"
    using file_tree_read [OF B, of ?es True "st_files ?st"] hybrid_storage_okD(3) [OF st] by auto
  show ?thesis
  proof (cases "st_get_file_mode ?st = mode_single")
    case True
    then obtain e where e: "st_files ?st = [e]" using hybrid_storage_okD(4) [OF st] by blast
    show ?thesis
      using True tree
      by (intro exI [of _ "put ''meta version'' (bc_of_integer B 2) (put_pieces B ?st
            (put ''piece length'' (size_value B (st_piece_size ?st)) (put_name B m
              (put ''file tree'' (bc_of_dict B tree) (put_single_file B e [])))))"])
        (auto simp: make_bvalue_infodict_hybrid_def Let_def put_pieces_def put_single_file_def put_name_def
          v2_name_written_def make_v1_pieces_string_def known_info_keys_def st_get_def e)
  next
    case False
    then have "st_get_file_mode ?st = mode_multi" by (rule hybrid_storage_okD(5) [OF st])
    moreover obtain vs where vs: "file_list_value B (st_files ?st) = Inr (bc_of_list B vs)"
        "\<forall>st. rfold (\<lambda>f st. rbind (parse_file_entry_v1 B f) (\<lambda>e. st_add_file_move e st)) vs st
          = Inr (fold st_push (map strip (st_files ?st)) st)"
      using hybrid_list_read [OF B hybrid_storage_okD(1) [OF st]] by blast
    ultimately show ?thesis
      using tree
      by (intro exI [of _ "put ''meta version'' (bc_of_integer B 2) (put_pieces B ?st
            (put ''piece length'' (size_value B (st_piece_size ?st)) (put_name B m
              (put ''file tree'' (bc_of_dict B tree) (put ''files'' (bc_of_list B vs) [])))))"])
        (auto simp: make_bvalue_infodict_hybrid_def Let_def put_pieces_def put_name_def
          v2_name_written_def make_v1_pieces_string_def known_info_keys_def)
  qed
qed

text \<open>The v1 part gives the files, in either mode.\<close>

lemma hybrid_list_parsed:
  assumes t: "torrent_of B P m similar data D (put_info_tail B P m d)" and ok: "om_ok d"
    and keys: "\<forall>k. om_find d k \<noteq> None \<longrightarrow> k \<in> set known_info_keys - {''private'', ''source''}"
    and st: "hybrid_storage_ok name (mf_storage m)" and name: "om_find d ''name'' = Some (bc_of_string B name)"
    and files: "if st_get_file_mode (mf_storage m) = mode_single
     then om_find d ''files'' = None \<and>
       om_find d ''length'' = Some (size_value B (fe_file_size (hd (st_files (mf_storage m)))))
     else \<exists>vs. om_find d ''files'' = Some (bc_of_list B vs) \<and>
       (\<forall>st. rfold (\<lambda>f st. rbind (parse_file_entry_v1 B f) (\<lambda>e. st_add_file_move e st)) vs st
         = Inr (fold st_push (map strip (st_files (mf_storage m))) st))"
  shows "parse_file_list_v1 B data m0 = Inr (m0\<lparr>mf_storage :=
    (fold st_push (map strip (hybrid_files_read (mf_storage m))) (mf_storage m0))
      \<lparr>st_file_mode := st_get_file_mode (mf_storage m)\<rparr>\<rparr>)"
proof (rule file_list_parsed [OF t])
  let ?st = "mf_storage m" and ?I = "put_info_tail B P m d"
  note I = writable_find [OF torrent_ofD(3) [OF t], of _ B P d]
  show "(\<exists>vs. om_find ?I ''files'' = Some (bc_of_list B vs) \<and> st_get_file_mode ?st = mode_multi \<and>
           (\<forall>st. rfold (\<lambda>f st. rbind (parse_file_entry_v1 B f) (\<lambda>e. st_add_file_move e st)) vs st
              = Inr (fold st_push (map strip (hybrid_files_read ?st)) st))) \<or>
         om_find ?I ''files'' = None \<and> st_get_file_mode ?st = mode_single \<and>
         (\<forall>iv. bc_dict B iv = Some ?I \<longrightarrow>
           (\<exists>e. map strip (hybrid_files_read ?st) = [e] \<and> fe_ok e \<and> parse_file_entry_v1 B iv = Inr e))"
  proof (cases "st_get_file_mode ?st = mode_single")
    case True
    then obtain e where e: "st_files ?st = [e]" "fe_path e = [name]" "file_plain e"
      using hybrid_storage_okD(4) [OF st] by blast
    have none: "om_find d k = None"
      if "k \<in> {''private'', ''source'', ''attr'', ''path'', ''symlink''} \<or> is_hash_function_name k" for k
      by (rule ccontr) (use keys that in \<open>auto simp: known_info_keys_def is_hash_function_name_def
        supported_hash_functions_def\<close>)
    have hash_none: "om_find ?I k = None" if "is_hash_function_name k" for k
    proof -
      have "k \<noteq> ''source''" "k \<noteq> ''private''" "k \<noteq> ''cross_seed_entry''" "\<not> free_key k"
        using that by (auto simp: free_key_def is_hash_function_name_def supported_hash_functions_def)
      with that show ?thesis by (simp add: I none)
    qed
    have "path_filename [name] = name"
      using e(2,3) by (auto simp: path_filename_def file_plain_def path_ok_def name_ok_def)
    then have "parse_file_entry_v1 B iv = Inr (single_entry e)" if "bc_dict B iv = Some ?I" for iv
      using True name e(1,2) files
      by (intro single_entry_read [OF t ok_tail [OF ok] that _ _ _ _ _ hash_none e(3)]) (simp_all add: I none)
    moreover have "strip (e\<lparr>fe_checksums := [], fe_attributes := None\<rparr>) = single_entry e"
      using e(2,3) \<open>path_filename [name] = name\<close>
      by (intro file_entry.equality) (simp_all add: strip_def single_entry_def file_plain_def)
    moreover have "fe_ok (single_entry e)"
      by (simp add: fe_ok_def single_entry_def fe_is_symlink_def fe_has_attribute_def checksums_ok_def)
    ultimately show ?thesis using True files e(1) by (simp add: I hybrid_files_read_def)
  next
    case False
    then show ?thesis
      using files hybrid_storage_okD(5) [OF st] by (simp add: I hybrid_files_read_def)
  qed
qed

text \<open>Only path, size and root of a tree entry matter to the list.\<close>

lemma set_entry_root_cong:
  assumes "fe_path a = fe_path b" "fe_file_size a = fe_file_size b" "fe_has_v2_data a = fe_has_v2_data b"
    "fe_pieces_root a = fe_pieces_root b"
  shows "set_entry_root a = set_entry_root b"
proof -
  have "fe_get_pieces_root a = fe_get_pieces_root b" using assms(3,4) by (simp add: fe_get_pieces_root_def)
  then show ?thesis by (intro ext) (simp only: set_entry_root_def assms(1,2))
qed

lemma hybrid_roots_read:
  assumes st: "hybrid_storage_ok name st"
  shows "rfold set_entry_root (map (tree_entry False) (sort_key fe_path (filter (\<lambda>e. \<not> fe_is_padding_file e) (st_files st))))
      (s\<lparr>st_files := map strip (hybrid_files_read st)\<rparr>) = Inr (s\<lparr>st_files := map bare (hybrid_files_read st)\<rparr>)"
proof -
  define g :: "file_entry \<Rightarrow> file_entry" where "g = (if st_get_file_mode st = mode_single
    then \<lambda>e. e\<lparr>fe_checksums := [], fe_attributes := None\<rparr> else id)"
  let ?xs = "sort_key fe_path (filter (\<lambda>e. \<not> fe_is_padding_file e) (st_files st))"
  have es: "hybrid_files_read st = map g (st_files st)" by (simp add: hybrid_files_read_def g_def)
  have path: "fe_path (g e) = fe_path e" "v2_file_ok (g e) = v2_file_ok e" for e
    by (simp_all add: g_def v2_file_ok_def no_v2_def)
  have "set_entry_root (tree_entry False e) = set_entry_root (tree_entry False (g e))" for e
    by (rule set_entry_root_cong) (simp_all add: g_def tree_entry_def)
  then have "rfold set_entry_root (map (tree_entry False) ?xs) s' =
      rfold set_entry_root (map (tree_entry False) (map g ?xs)) s'" for s'
    by (simp add: rfold_map)
  moreover have "rfold set_entry_root (map (tree_entry False) (map g ?xs))
      (s\<lparr>st_files := map (rooted {}) (map g (st_files st))\<rparr>) =
      Inr (s\<lparr>st_files := map (rooted ({} \<union> set (map g ?xs))) (map g (st_files st))\<rparr>)"
  proof (rule set_roots_run)
    have paths: "distinct (map fe_path (st_files st))" by (rule hybrid_storage_okD(2) [OF st])
    then show "distinct (map fe_path (map g (st_files st)))" by (simp add: path comp_def)
    have "distinct (map (fe_path \<circ> g) ?xs)"
      using paths by (simp add: path comp_def distinct_map inj_on_def)
    then show "distinct (map g ?xs)" by (metis distinct_map map_map)
    show "list_all v2_file_ok (map g ?xs)"
      using hybrid_storage_okD(3) [OF st] by (simp add: path list_all_iff)
  qed auto
  moreover have "rooted {} = strip" by (simp add: rooted_def fun_eq_iff)
  moreover have "map (rooted (set (map g ?xs))) (map g (st_files st)) = map bare (map g (st_files st))"
  proof (rule map_cong [OF refl])
    fix x assume "x \<in> set (map g (st_files st))"
    then obtain e where e: "e \<in> set (st_files st)" "x = g e" by auto
    show "rooted (set (map g ?xs)) x = bare x"
    proof (cases "fe_is_padding_file e")
      case True
      then have "no_v2 x" using st e by (auto simp: hybrid_storage_ok_def list_all_iff g_def no_v2_def)
      then show ?thesis by (simp add: rooted_def no_v2_strip)
    next
      case False
      then show ?thesis using e by (simp add: rooted_def)
    qed
  qed
  ultimately show ?thesis by (simp add: es)
qed

text \<open>The layers of the files as they are read are those that were written.\<close>

lemma hybrid_layers:
  assumes "hybrid_storage_ok name st" and st': "st' = st\<lparr>st_files := hybrid_files_read st\<rparr>"
  shows "piece_layers_value B st' = piece_layers_value B st" "layers_ok st'"
proof -
  have "layers_ok st" using assms(1) by (simp add: hybrid_storage_ok_def)
  moreover have "piece_layers_value B st' = piece_layers_value B st \<and> layers_ok st'"
    if single: "st_get_file_mode st = mode_single" and ok: "layers_ok st"
  proof -
    obtain e where e: "st_files st = [e]" "\<not> fe_is_padding_file e"
      using hybrid_storage_okD(4) [OF assms(1) single] by blast
    let ?g = "e\<lparr>fe_checksums := [], fe_attributes := None\<rparr>"
    have files: "st_files st' = [?g]" "st_piece_size st' = st_piece_size st"
      using single e(1) by (simp_all add: st' hybrid_files_read_def)
    have pad: "\<not> fe_is_padding_file ?g" by (simp add: fe_is_padding_file_def fe_has_attribute_def)
    have "fe_get_pieces_root ?g = fe_get_pieces_root e" "make_v2_piece_layers_string ?g = make_v2_piece_layers_string e"
      by (simp_all add: fe_get_pieces_root_def make_v2_piece_layers_string_def fe_get_piece_layer_def)
    then have "piece_layers_value B st' = piece_layers_value B st"
      by (simp add: piece_layers_value_def files e(1))
    moreover have "layers_ok st'"
      using layers_okD(1,2,4) [OF ok, of e] e pad by (simp add: layers_ok_def files big_file_def)
    ultimately show ?thesis by blast
  qed
  moreover have "st' = st" if "st_get_file_mode st \<noteq> mode_single"
    using that by (simp add: st' hybrid_files_read_def)
  ultimately show "piece_layers_value B st' = piece_layers_value B st" "layers_ok st'"
    by (cases "st_get_file_mode st = mode_single"; simp)+
qed

lemma hybrid_storage_parsed:
  assumes t: "torrent_of B P m similar data D (put_info_tail B P m d)"
    and st: "hybrid_storage_ok name (mf_storage m)"
    and list: "parse_file_list_v1 B data m0 = Inr (m0\<lparr>mf_storage :=
      (fold st_push (map strip (hybrid_files_read (mf_storage m))) (mf_storage m0))
        \<lparr>st_file_mode := st_get_file_mode (mf_storage m)\<rparr>\<rparr>)"
    and tree: "om_find d ''file tree'' = Some (bc_of_dict B tree)" "tree_loop B [tree] [''/''] [] =
       Some (Inr (map (tree_entry False)
         (sort_key fe_path (filter (\<lambda>e. \<not> fe_is_padding_file e) (st_files (mf_storage m))))))"
    and L: "om_find D ''piece layers'' = Some (bc_of_dict B L)" "piece_layers_value B (mf_storage m) = Inr (bc_of_dict B L)"
    and pieces: "om_find d ''pieces'' = Some (bc_of_string B (concat (map hash_view (st_pieces (mf_storage m)))))"
      "list_all (\<lambda>h. length h = 20) (st_pieces (mf_storage m))"
      "length (st_pieces (mf_storage m)) = st_piece_count (hybrid_storage_read (mf_storage m))"
    and m0: "mf_storage m0 = (st_new False)\<lparr>st_piece_size := st_piece_size (mf_storage m)\<rparr>"
  shows "rfold (\<lambda>step. step) [parse_file_list_and_tree_hybrid B data, parse_piece_layers_v2 B data, parse_pieces_v1 B data] m0
    = Inr (m0\<lparr>mf_storage := hybrid_storage_read (mf_storage m)\<rparr>)"
proof -
  let ?st = "mf_storage m" and ?s0 = "(st_new False)\<lparr>st_piece_size := st_piece_size (mf_storage m)\<rparr>"
  let ?es = "hybrid_files_read ?st" and ?I = "put_info_tail B P m d"
  note I = writable_find [OF torrent_ofD(3) [OF t], of _ B P d]
  have B: "bencode_laws B" by (rule torrent_ofD [OF t])
  define s where "s = (fold st_push ?es ?s0)\<lparr>st_file_mode := st_get_file_mode ?st\<rparr>"
  have s: "st_piece_size s = st_piece_size ?st" "st_files s = ?es" by (simp_all add: s_def fold_push st_new_def)
  have same: "x\<lparr>st_files := fs\<rparr> = x" if "st_files x = fs" for x :: file_storage and fs using that by auto
  have "fold st_push (map strip ?es) ?s0 = (fold st_push ?es ?s0)\<lparr>st_files := map strip ?es\<rparr>"
    by (subst push_same_sizes) (simp_all add: st_new_def)
  then have "parse_file_list_v1 B data m0 = Inr (m0\<lparr>mf_storage := s\<lparr>st_files := map strip ?es\<rparr>\<rparr>)"
    using list by (simp add: m0 s_def)
  then have "parse_file_list_and_tree_hybrid B data m0 = Inr (m0\<lparr>mf_storage := s\<lparr>st_files := map bare ?es\<rparr>\<rparr>)"
    using tree_parsed [OF t _ tree(2)] hybrid_roots_read [OF st]
    by (simp add: parse_file_list_and_tree_hybrid_def I tree(1) on_storage_def)
  moreover have "parse_piece_layers_v2 B data (m0\<lparr>mf_storage := s\<lparr>st_files := map bare ?es\<rparr>\<rparr>) =
      Inr (m0\<lparr>mf_storage := s\<rparr>)"
  proof -
    let ?st' = "?st\<lparr>st_files := ?es\<rparr>"
    have "KiB 16 \<le> st_piece_size ?st'" using st by (simp add: hybrid_storage_ok_def)
    then have "0 < st_piece_size ?st'" by (simp add: KiB_def size_mul_def size_bound_def)
    then obtain L' where L': "piece_layers_value B ?st' = Inr (bc_of_dict B L')"
        "\<And>xs s. set xs = set (st_files ?st') \<Longrightarrow> st_piece_size s = st_piece_size ?st' \<Longrightarrow>
        rfold (set_entry_layer B L') [0..<length xs] (s\<lparr>st_files := map (\<lambda>e. e\<lparr>fe_piece_layer := []\<rparr>) xs\<rparr>) =
          Inr (s\<lparr>st_files := xs\<rparr>)"
      using layers_complete [OF B hybrid_layers(2) [OF st refl]] by blast
    have "om_find D ''piece layers'' = Some (bc_of_dict B L')"
      using L L'(1) hybrid_layers(1) [OF st refl, of B] by simp
    note parsed = piece_layers_parsed [OF t this]
    have "rfold (set_entry_layer B L') [0..<length ?es] (s\<lparr>st_files := map bare ?es\<rparr>) = Inr (s\<lparr>st_files := ?es\<rparr>)"
      unfolding bare_def [abs_def] by (rule L'(2)) (simp_all add: s)
    then show ?thesis by (simp add: parsed on_storage_def same [OF s(2)])
  qed
  moreover have "s\<lparr>st_pieces := st_pieces ?st\<rparr> = hybrid_storage_read ?st"
    by (simp add: s_def hybrid_storage_read_def push_onto_piece_size)
  moreover have "st_piece_count s = st_piece_count (hybrid_storage_read ?st)"
    by (simp add: s_def hybrid_storage_read_def push_onto_piece_size st_piece_count_def)
  ultimately show ?thesis
    using parse_pieces_read [OF t, of "st_pieces ?st" "m0\<lparr>mf_storage := s\<rparr>"] pieces by (simp add: I)
qed

lemma hybrid_round_trip_run:
  assumes B: "bencode_laws B" and P: "platform_ok P m" and w: "writable m"
    and st: "hybrid_storage_ok (v2_name_written m) (mf_storage m)"
  shows "\<exists>v. make_bvalue_hybrid B P m = Inr v \<and>
    (st_pieces (mf_storage m) \<noteq> [] \<longrightarrow> parse_metafile B v = Inr (hybrid_read_back B P m))"
proof -
  let ?st = "mf_storage m"
  obtain c similar where c: "make_bvalue_common B P m = Inr c"
      and t: "\<forall>I v. torrent_of B P m similar (bc_of_dict B (put ''info'' (bc_of_dict B I) c)) (put ''info'' (bc_of_dict B I) c) I \<and>
        torrent_of B P m similar (bc_of_dict B (put ''piece layers'' v (put ''info'' (bc_of_dict B I) c)))
          (put ''piece layers'' v (put ''info'' (bc_of_dict B I) c)) I"
    using torrent_of_dict [OF B P w] by blast
  obtain d tree where d: "make_bvalue_infodict_hybrid B P m = Inr (bc_of_dict B (put_info_tail B P m d))" "om_ok d"
      and keys: "\<forall>k. om_find d k \<noteq> None \<longrightarrow> k \<in> set known_info_keys - {''private'', ''source''}"
      and find: "om_find d ''name'' = Some (bc_of_string B (v2_name_written m))"
        "om_find d ''meta version'' = Some (bc_of_integer B 2)"
        "om_find d ''piece length'' = Some (size_value B (st_piece_size ?st))"
        "om_find d ''pieces'' = Some (bc_of_string B (concat (map hash_view (st_pieces ?st))))"
      and tree: "om_find d ''file tree'' = Some (bc_of_dict B tree)" "tree_loop B [tree] [''/''] [] =
        Some (Inr (map (tree_entry False) (sort_key fe_path (filter (\<lambda>e. \<not> fe_is_padding_file e) (st_files ?st)))))"
      and files: "if st_get_file_mode ?st = mode_single
        then om_find d ''files'' = None \<and> om_find d ''length'' = Some (size_value B (fe_file_size (hd (st_files ?st))))
        else \<exists>vs. om_find d ''files'' = Some (bc_of_list B vs) \<and>
          (\<forall>st. rfold (\<lambda>f st. rbind (parse_file_entry_v1 B f) (\<lambda>e. st_add_file_move e st)) vs st
            = Inr (fold st_push (map strip (st_files ?st)) st))"
    using hybrid_info_value [OF B st, of P] by (elim exE conjE) (rule that)
  obtain L where L: "piece_layers_value B ?st = Inr (bc_of_dict B L)"
    using layers_complete [OF B, of ?st] st
    by (auto simp: hybrid_storage_ok_def KiB_def size_mul_def size_bound_def)
  let ?I = "put_info_tail B P m d"
  let ?D = "put ''piece layers'' (bc_of_dict B L) (put ''info'' (bc_of_dict B ?I) c)"
  let ?data = "bc_of_dict B ?D" and ?m0 = "head_read B P m (v2_name_written m)"
  have t: "torrent_of B P m similar ?data ?D ?I" using t by blast
  have head: "parse_protocol B ?data = Inr protocol_v2"
      "rfold (\<lambda>step. step) (common_steps B ?data @ v2_steps B ?data) mf_empty = Inr ?m0"
    using st keys find by (intro head_steps_read [OF t d(2)]; simp add: hybrid_storage_ok_def)+
  have read: "rfold (\<lambda>step. step) [parse_file_list_and_tree_hybrid B ?data, parse_piece_layers_v2 B ?data, parse_pieces_v1 B ?data]
      ?m0 = Inr (?m0\<lparr>mf_storage := hybrid_storage_read ?st\<rparr>)"
    using st by (intro hybrid_storage_parsed [OF t st hybrid_list_parsed [OF t d(2) keys st find(1) files] tree _ L find(4)])
      (simp_all add: hybrid_storage_ok_def head_read_def)
  have "check_if_hybrid B ?data = Inr True" if "st_pieces ?st \<noteq> []"
  proof -
    have "length (hd (st_pieces ?st)) = 20" using st that by (cases "st_pieces ?st") (auto simp: hybrid_storage_ok_def)
    then have "concat (map hash_view (st_pieces ?st)) \<noteq> []" using that by (cases "st_pieces ?st") (auto simp: hash_view_def string_of_bytes_def)
    then show ?thesis
      using find(4) by (simp add: check_if_hybrid_def torrent_ofD(6) [OF t] writable_find [OF w] dict_at_def bencode_simps [OF B])
  qed
  then have "parse_metafile B ?data = Inr (hybrid_read_back B P m)" if "st_pieces ?st \<noteq> []"
    using head read that
    by (simp add: parse_metafile_def Let_def protocol_defs head_read_def hybrid_read_back_def del: rfold.simps)
  moreover have "make_bvalue_hybrid B P m = Inr ?data"
    by (simp add: make_bvalue_hybrid_def c d(1) L)
  ultimately show ?thesis by blast
qed

text \<open>
  C3: Reading the bencode value a hybrid metafile is written as gives the metafile back: the files in
  the order of the v1 list, padding files included, with the roots of the v2 tree, the piece layers
  and the v1 pieces. There must be pieces, or the reader takes the torrent for a v2 one. The
  exceptions are stated by \<open>hybrid_read_back\<close>: a single file loses its attributes and checksums, the
  root directory and the switch for cross seeding are lost.
\<close>

theorem metafile_hybrid_round_trip:
  assumes "bencode_laws B" "platform_ok P m" "writable m"
    and "hybrid_storage_ok (v2_name_written m) (mf_storage m)" "st_pieces (mf_storage m) \<noteq> []"
  shows "rbind (make_bvalue_hybrid B P m) (parse_metafile B) = Inr (hybrid_read_back B P m)"
  using hybrid_round_trip_run [OF assms(1-4)] assms(5) by auto

subsection \<open>A sample\<close>

definition sample_padding_file :: file_entry where
  "sample_padding_file = \<lparr>fe_path = [''.pad'', ''12768''], fe_file_size = 12768, fe_checksums = [],
     fe_has_v2_data = False, fe_pieces_root = hash_zero 32, fe_piece_layer = [],
     fe_attributes = Some attribute_padding_file, fe_symlink_path = None, fe_last_modified_time = None\<rparr>"

definition sample_hybrid_torrent :: "sample_value metafile" where
  "sample_hybrid_torrent = sample_torrent\<lparr>mf_storage := (st_new False)\<lparr>st_total_file_size := 32768,
     st_piece_size := 16384, st_file_mode := mode_multi,
     st_files := [sample_big_file, sample_padding_file, sample_empty_file],
     st_pieces := [replicate 20 1, replicate 20 2]\<rparr>\<rparr>"

lemma sample_padding_file_ok: "file_plain sample_padding_file" "no_v2 sample_padding_file" "fe_is_padding_file sample_padding_file"
  by (simp_all add: file_plain_def no_v2_def sample_padding_file_def checksums_ok_def fe_is_padding_file_def
      hash_names_only_def om_ok_def path_ok_def name_ok_def
      size_bound_def fe_is_symlink_def fe_has_attribute_def has_flag_def enum_and_def attribute_defs known_attributes_def)

lemma hybrid_storage_read_simps:
  "st_files (hybrid_storage_read st) = hybrid_files_read st" "st_pieces (hybrid_storage_read st) = st_pieces st"
  "st_piece_size (hybrid_storage_read st) = st_piece_size st"
  "st_total_file_size (hybrid_storage_read st) = fold (\<lambda>e s. size_add s (fe_file_size e)) (hybrid_files_read st) 0"
  by (simp_all add: hybrid_storage_read_def fold_push st_new_def)

lemma sample_hybrid_storage_ok: "hybrid_storage_ok name (mf_storage sample_hybrid_torrent)"
proof -
  let ?st = "mf_storage sample_hybrid_torrent"
  have st: "st_files ?st = [sample_big_file, sample_padding_file, sample_empty_file]"
      "st_piece_size ?st = 16384" "st_pieces ?st = [replicate 20 1, replicate 20 2]"
    by (simp_all add: sample_hybrid_torrent_def)
  have mode: "st_get_file_mode ?st = mode_multi" by (simp add: st_get_file_mode_def st_file_count_def st)
  have pad: "\<not> fe_is_padding_file sample_big_file" "\<not> fe_is_padding_file sample_empty_file"
    by (simp_all add: sample_big_file_def sample_empty_file_def fe_is_padding_file_def fe_has_attribute_def
        has_flag_def enum_and_def attribute_defs)
  have entries: "fe_file_size sample_big_file = 20000" "fe_file_size sample_empty_file = 0"
      "fe_file_size sample_padding_file = 12768" "fe_piece_layer sample_padding_file = []"
      "fe_piece_layer sample_big_file = [replicate 32 2, replicate 32 3]" "fe_piece_layer sample_empty_file = []"
      "fe_has_v2_data sample_big_file" "fe_path sample_big_file = [''d'', ''b'']" "fe_path sample_empty_file = [''a'']"
      "fe_path sample_padding_file = [''.pad'', ''12768'']"
    by (simp_all add: sample_big_file_def sample_empty_file_def sample_padding_file_def)
  have "layers_ok ?st"
    by (simp add: layers_ok_def big_file_def st entries pad)
  moreover have "st_piece_count (hybrid_storage_read ?st) = 2"
    by (simp add: st_piece_count_def hybrid_storage_read_simps hybrid_files_read_def mode st entries
        size_add_def size_sub_def size_bound_def)
  ultimately show ?thesis
    using sample_v2_files sample_padding_file_ok single_bit_16K
    by (simp add: hybrid_storage_ok_def st mode entries pad KiB_def size_mul_def size_bound_def)
qed

lemma sample_hybrid_writable: "writable sample_hybrid_torrent" "platform_ok sample_platform sample_hybrid_torrent"
  using sample_writable unfolding sample_hybrid_torrent_def by simp_all

theorem metafile_hybrid_round_trip_witness:
  "\<exists>m. rbind (make_bvalue_hybrid sample_lib sample_platform sample_hybrid_torrent) (parse_metafile sample_lib) = Inr m \<and>
     st_files (mf_storage m) = [sample_big_file, sample_padding_file, sample_empty_file] \<and>
     st_pieces (mf_storage m) = [replicate 20 1, replicate 20 2]"
proof -
  have st: "st_get_file_mode (mf_storage sample_hybrid_torrent) = mode_multi"
      "st_pieces (mf_storage sample_hybrid_torrent) = [replicate 20 1, replicate 20 2]"
      "st_files (mf_storage sample_hybrid_torrent) = [sample_big_file, sample_padding_file, sample_empty_file]"
    by (simp_all add: sample_hybrid_torrent_def st_get_file_mode_def st_file_count_def)
  from metafile_hybrid_round_trip [OF sample_laws sample_hybrid_writable(2,1) sample_hybrid_storage_ok] show ?thesis
    by (simp add: st hybrid_read_back_def hybrid_storage_read_simps hybrid_files_read_def)
qed

end
