(* ===== verification/Metafile_Wellformed.thy ===== *)
theory Metafile_Wellformed
  imports Metafile_Round_Trip
begin

text \<open>
  What the reader returns is well formed, whatever value it is given: the steps keep the fields
  of the metafile in order, and files, piece size and pieces fit together at the end.
\<close>

section \<open>Fields\<close>

definition fields_ok :: "'b metafile \<Rightarrow> bool" where
  "fields_ok m \<longleftrightarrow> trackers_ok (mf_trackers m) \<and> distinct (mf_http_seeds m) \<and> distinct (mf_web_seeds m) \<and>
     distinct (mf_dht_nodes m) \<and> Ball (mf_similar_torrents m) similar_plain \<and> om_ok (mf_other_info_fields m)"

lemma fields_ok_storage [simp]: "fields_ok (m\<lparr>mf_storage := st\<rparr>) = fields_ok m"
  by (simp add: fields_ok_def)

text \<open>A step that keeps the fields in order and does not touch the storage.\<close>

definition keeps :: "('b metafile \<Rightarrow> 'b metafile result) \<Rightarrow> bool" where
  "keeps step \<longleftrightarrow> (\<forall>m m'. fields_ok m \<and> step m = Inr m' \<longrightarrow> fields_ok m' \<and> mf_storage m' = mf_storage m)"

named_theorems keeps_rules "composing steps that keep the fields in order"

lemma keepsI:
  "(\<And>m m'. fields_ok m \<Longrightarrow> step m = Inr m' \<Longrightarrow> fields_ok m' \<and> mf_storage m' = mf_storage m) \<Longrightarrow> keeps step"
  unfolding keeps_def by blast

lemma keepsD: "keeps step \<Longrightarrow> fields_ok m \<Longrightarrow> step m = Inr m' \<Longrightarrow> fields_ok m' \<and> mf_storage m' = mf_storage m"
  unfolding keeps_def by blast

lemma keeps_return [keeps_rules]: "keeps Inr" "keeps (\<lambda>m. Inr m)"
  by (simp_all add: keeps_def)

lemma keeps_fail [keeps_rules]: "keeps (\<lambda>m. Inl e)"
  by (simp add: keeps_def)

lemma keeps_total: "(\<And>m. fields_ok m \<Longrightarrow> fields_ok (f m) \<and> mf_storage (f m) = mf_storage m) \<Longrightarrow> keeps (\<lambda>m. Inr (f m))"
  by (auto simp: keeps_def)

lemma keeps_const [keeps_rules]: "(\<And>x. keeps (g x)) \<Longrightarrow> keeps (\<lambda>m. rbind r (\<lambda>x. g x m))"
  by (cases r) (simp_all add: keeps_def)

lemma keeps_seq: "keeps f \<Longrightarrow> keeps g \<Longrightarrow> keeps (\<lambda>m. rbind (f m) g)"
proof (rule keepsI)
  fix m m' assume fg: "keeps f" "keeps g" and "fields_ok m" "rbind (f m) g = Inr m'"
  then obtain m1 where "f m = Inr m1" "g m1 = Inr m'" by (auto simp: rbind_Inr_iff)
  with fg \<open>fields_ok m\<close> show "fields_ok m' \<and> mf_storage m' = mf_storage m"
    using keepsD [of f m m1] keepsD [of g m1 m'] by simp
qed

lemma keeps_guard [keeps_rules]: "keeps f \<Longrightarrow> keeps (\<lambda>m. access_guard key (f m))"
  by (simp add: keeps_def)

lemma keeps_option [keeps_rules]:
  "(\<And>v. keeps (f v)) \<Longrightarrow> keeps g \<Longrightarrow> keeps (\<lambda>m. case x of Some v \<Rightarrow> f v m | None \<Rightarrow> g m)"
  by (cases x) simp_all

lemma keeps_if [keeps_rules]: "keeps f \<Longrightarrow> keeps g \<Longrightarrow> keeps (\<lambda>m. if c then f m else g m)"
  by (cases c) simp_all

lemma keeps_rfold [keeps_rules]:
  assumes "\<And>x. keeps (f x)"
  shows "keeps (rfold f xs)" "keeps (\<lambda>m. rfold f xs m)"
proof -
  show "keeps (rfold f xs)"
  proof (rule keepsI)
    fix m m' assume "fields_ok m" "rfold f xs m = Inr m'"
    then show "fields_ok m' \<and> mf_storage m' = mf_storage m"
    proof (induction xs arbitrary: m)
      case (Cons x xs)
      then obtain m1 where "f x m = Inr m1" "rfold f xs m1 = Inr m'" by (auto simp: rbind_Inr_iff)
      then show ?case using Cons.IH [of m1] keepsD [OF assms Cons.prems(1)] by simp
    qed simp
  qed
  then show "keeps (\<lambda>m. rfold f xs m)" .
qed

lemma keeps_key [keeps_rules]: "(\<And>x. keeps (store x)) \<Longrightarrow> keeps (\<lambda>m. parse_key dict key get store m)"
  unfolding parse_key_def by (intro keeps_rules)

lemma keeps_each [keeps_rules]: "(\<And>x. keeps (add x)) \<Longrightarrow> keeps (add_each get add vs)"
  unfolding add_each_def [abs_def] by (intro keeps_rules)

subsection \<open>Storing fields\<close>

lemma distinct_add_unique: "distinct xs \<Longrightarrow> distinct (add_unique x xs)"
proof -
  have "find_index (\<lambda>y. y = x) xs = length xs \<Longrightarrow> x \<notin> set xs"
    by (metis find_index_found(2) nat_less_le)
  then show "distinct xs \<Longrightarrow> distinct (add_unique x xs)" by (auto simp: add_unique_def)
qed

lemma keeps_stores [keeps_rules]:
  "keeps (\<lambda>m. Inr (mf_set_private c m))" "keeps (\<lambda>m. Inr (mf_set_comment s m))"
  "keeps (\<lambda>m. Inr (mf_set_created_by s m))" "keeps (\<lambda>m. Inr (mf_add_collection s m))"
  "keeps (\<lambda>m. Inr (mf_add_http_seed s m))" "keeps (\<lambda>m. Inr (mf_add_web_seed s m))"
  "keeps (\<lambda>m. Inr (mf_add_dht_node_url s p m))" "keeps (\<lambda>m. Inr (mf_set_name s m))"
  "keeps (\<lambda>m. Inr (mf_set_source s m))" "keeps (mf_set_creation_date t)"
  by (simp_all add: keeps_def fields_ok_def distinct_add_unique mf_set_private_def mf_set_comment_def
      mf_set_created_by_def mf_add_collection_def mf_add_http_seed_def mf_add_web_seed_def mf_add_dht_node_url_def
      mf_add_dht_node_def mf_set_name_def mf_set_source_def mf_set_creation_date_def)

lemma keeps_tracker [keeps_rules]: "keeps (mf_add_tracker a)"
proof (rule keepsI)
  fix m m' :: "'b metafile" assume "fields_ok m" and run: "mf_add_tracker a m = Inr m'"
  then have "trackers_ok (mf_trackers m)" by (simp add: fields_ok_def)
  from add_tracker_run [OF this, of "au_tier a" "au_url a"] run
  have "trackers_ok (mf_trackers m')" "m' = m\<lparr>mf_trackers := mf_trackers m'\<rparr>"
    by (auto split: if_splits)
  with \<open>fields_ok m\<close> show "fields_ok m' \<and> mf_storage m' = mf_storage m"
    by (metis fields_ok_def metafile.select_convs metafile.surjective metafile.update_convs(3))
qed

lemma keeps_similar [keeps_rules]: "keeps (add_infohash s)"
proof (rule keepsI)
  fix m m' :: "'b metafile" assume "fields_ok m" "add_infohash s m = Inr m'"
  moreover have "similar_plain h" if "info_hash_of_data v s = Inr h" "v = protocol_v1 \<or> v = protocol_v2" for v h
    using that
    by (auto simp: info_hash_of_data_def rbind_Inr_iff similar_plain_def info_hash_v1_only_def info_hash_v2_only_def
        dest: length_hash_of_view split: if_splits)
  ultimately show "fields_ok m' \<and> mf_storage m' = mf_storage m"
    by (auto simp: add_infohash_def rbind_Inr_iff mf_add_similar_torrent_def fields_ok_def split: if_splits)
qed

subsection \<open>The tracker of the announce key\<close>

lemma insert_distinct:
  assumes "announce_ok xs" "announce_insert a xs = Inr ys"
  shows "announce_ok ys" "mset ys = add_mset a (mset xs)"
proof -
  have "au_tier a \<le> tier_count xs" using assms(2) by (auto simp: announce_insert_def expects_def split: if_splits)
  then show "announce_ok ys" using al.ins_tiers [OF assms(1), of a] assms(2) by (auto simp: as_nested_vector_def)
  have "sorted xs" using assms(1) by (simp add: announce_ok_def)
  then show "mset ys = add_mset a (mset xs)"
    using announce_insert_insort [of xs a] assms(2) \<open>au_tier a \<le> tier_count xs\<close> by simp
qed

lemma inserts_distinct:
  assumes "announce_ok xs" "rfold announce_insert as xs = Inr ys"
  shows "announce_ok ys \<and> mset ys = mset as + mset xs"
  using assms
proof (induction as arbitrary: xs)
  case (Cons a as)
  then obtain zs where zs: "announce_insert a xs = Inr zs" "rfold announce_insert as zs = Inr ys"
    by (auto simp: rbind_Inr_iff)
  with Cons.IH [of zs] insert_distinct [OF Cons.prems(1) zs(1)] show ?case by simp
qed simp

lemma keeps_first_announce [keeps_rules]: "keeps (add_first_announce u)"
proof (rule keepsI)
  fix m m' :: "'b metafile" assume ok: "fields_ok m" and run: "add_first_announce u m = Inr m'"
  let ?xs = "mf_trackers m"
  have xs: "announce_ok ?xs" "distinct (map au_url ?xs)" using ok by (simp_all add: fields_ok_def trackers_ok_def)
  consider "m' = m" | "mf_add_tracker (Announce_Url u 0) m = Inr m'"
    | as ys where "announce_insert (Announce_Url u 0) [] = Inr as" "\<not> announce_contains_url ?xs u"
        "rfold announce_insert (map (\<lambda>t. Announce_Url (au_url t) (au_tier t + 1)) ?xs) as = Inr ys"
        "m' = m\<lparr>mf_trackers := ys\<rparr>"
  proof (cases "announce_contains_url ?xs u")
    case True
    with run that(1) show ?thesis by (simp add: add_first_announce_def Let_def)
  next
    case new: False
    show ?thesis
    proof (cases "1 \<le> tier_size ?xs 0")
      case True
      with run new obtain as ys where "announce_insert (Announce_Url u 0) [] = Inr as"
          "rfold (\<lambda>t. announce_insert (Announce_Url (au_url t) (au_tier t + 1))) ?xs as = Inr ys" "m' = m\<lparr>mf_trackers := ys\<rparr>"
        unfolding add_first_announce_def Let_def by (auto simp: rbind_Inr_iff)
      with new show ?thesis by (intro that(3)) (simp_all add: rfold_map)
    next
      case False
      with run new that(2) show ?thesis by (simp add: add_first_announce_def Let_def mf_add_tracker_url_def)
    qed
  qed
  then show "fields_ok m' \<and> mf_storage m' = mf_storage m"
  proof cases
    case 1
    then show ?thesis using ok by simp
  next
    case 2
    then show ?thesis by (rule keepsD [OF keeps_tracker ok])
  next
    case 3
    have nil: "announce_ok []" by (simp add: announce_ok_def tier_count_def)
    note as = insert_distinct [OF nil 3(1)]
    note ys = inserts_distinct [OF as(1) 3(3)]
    have "mset (map au_url ys) = image_mset au_url (mset ys)" by simp
    also have "\<dots> = add_mset u (mset (map au_url ?xs))"
      by (simp add: ys as(2) multiset.map_comp comp_def)
    finally have "mset (map au_url ys) = mset (u # map au_url ?xs)" by simp
    moreover have "u \<notin> au_url ` set ?xs" using 3(2) announce_lookup(2) [OF xs(1), of u] by force
    ultimately have "distinct (map au_url ys)"
      using xs(2) mset_eq_imp_distinct_iff [of "map au_url ys" "u # map au_url ?xs"] by simp
    then show ?thesis using ys ok 3(4) by (simp add: fields_ok_def trackers_ok_def)
  qed
qed

section \<open>The steps that do not touch the files\<close>

lemma common_steps_keep: "list_all keeps (common_steps B data)"
proof -
  note rules = keeps_rules keeps_seq
  have "keeps (parse_announce_list B v)" for v
    unfolding parse_announce_list_def [abs_def] by (intro rules) (auto intro!: rules split: prod.split)
  note rules = rules this
  have "keeps (parse_announce B data)" unfolding parse_announce_def [abs_def] by (intro rules)
  moreover have "keeps (parse_private B data)" unfolding parse_private_def [abs_def] by (intro rules)
  moreover have "keeps (parse_comment B data)" unfolding parse_comment_def [abs_def] by (intro rules)
  moreover have "keeps (parse_created_by B data)" unfolding parse_created_by_def [abs_def] by (intro rules)
  moreover have "keeps (parse_creation_date B data)" unfolding parse_creation_date_def [abs_def] by (intro rules)
  moreover have "keeps (parse_collections B data)" unfolding parse_collections_def [abs_def] Let_def by (intro rules)
  moreover have "keeps (parse_http_seeds B data)" unfolding parse_http_seeds_def [abs_def] by (intro rules)
  moreover have "keeps (parse_web_seeds B data)" unfolding parse_web_seeds_def [abs_def] by (intro rules)
  moreover have "keeps (parse_dht_nodes B data)" unfolding parse_dht_nodes_def [abs_def] by (intro rules)
  moreover have "keeps (parse_similar_torrents B data)" unfolding parse_similar_torrents_def [abs_def] Let_def by (intro rules)
  moreover have "keeps (parse_name B data)" unfolding parse_name_def [abs_def] by (intro rules)
  ultimately show ?thesis by (simp add: common_steps_def)
qed

lemma source_keeps: "keeps (parse_source B data)"
  unfolding parse_source_def [abs_def] by (intro keeps_rules)

lemma other_fields_keep: "keeps (parse_other_info_fields B data)"
proof -
  have "om_ok (fold (\<lambda>(k, v) o'. if k \<in> set known_info_keys then o' else put k v o') info d)"
    if "om_ok d" for info and d :: "'a omap"
    using that by (induction info arbitrary: d) auto
  then show ?thesis
    unfolding parse_other_info_fields_def [abs_def]
    by (intro keeps_rules keeps_total) (simp add: other_fields_fold fields_ok_def)
qed

lemma steps_keep:
  "list_all keeps steps \<Longrightarrow> fields_ok m \<Longrightarrow> rfold (\<lambda>step. step) steps m = Inr m' \<Longrightarrow>
    fields_ok m' \<and> mf_storage m' = mf_storage m"
proof (induction steps arbitrary: m)
  case (Cons step steps)
  then obtain m1 where "step m = Inr m1" "rfold (\<lambda>step. step) steps m1 = Inr m'" by (auto simp: rbind_Inr_iff)
  then show ?case using Cons.IH [of m1] Cons.prems(1) keepsD [of step m m1] Cons.prems(2) by simp
qed simp

section \<open>File entries\<close>

lemma fe_ok_add_checksum: "fe_ok e \<Longrightarrow> checksum_ok c \<Longrightarrow> fe_ok (fe_add_checksum c e)"
  by (simp add: fe_ok_def fe_add_checksum_def fe_is_symlink_def fe_has_attribute_def checksums_ok_emplace)

lemma fe_ok_v2 [simp]:
  "fe_ok (fe_set_pieces_root h e) = fe_ok e" "fe_ok (fe_set_piece_layer hs e) = fe_ok e"
  "fe_file_size (fe_set_pieces_root h e) = fe_file_size e" "fe_file_size (fe_set_piece_layer hs e) = fe_file_size e"
  by (simp_all add: fe_ok_def fe_set_pieces_root_def fe_set_piece_layer_def fe_is_symlink_def fe_has_attribute_def)

lemma add_checksums_ok:
  assumes "add_checksums B fd e = Inr e'" "fe_ok e"
  shows "fe_ok e'"
  using assms unfolding add_checksums_def
  by (rule rfold_invariant) (auto simp: rbind_Inr_iff intro!: fe_ok_add_checksum elim: make_checksum_ok split: if_splits)

lemma parse_file_entry_ok:
  "parse_file_entry_v1 B v = Inr e \<Longrightarrow> fe_ok e" "parse_file_entry_v2 B v p = Inr e \<Longrightarrow> fe_ok e"
  by (auto simp: parse_file_entry_v1_def parse_file_entry_v2_def rbind_Inr_iff split: option.splits
      dest!: fe_make_Inr elim!: add_checksums_ok)

lemma tree_loop_ok:
  assumes "tree_loop B frames comps out = Some r"
  shows "list_all fe_ok out \<longrightarrow> (\<forall>es. r = Inr es \<longrightarrow> list_all fe_ok es)"
proof (rule tree_loop.raw_induct
    [where P = "\<lambda>B frames comps out r. list_all fe_ok out \<longrightarrow> (\<forall>es. r = Inr es \<longrightarrow> list_all fe_ok es)", OF _ assms])
  fix loop and B :: "'a bencode" and frames comps out r
  assume IH: "\<And>B frames comps out r. loop B frames comps out = Some r \<Longrightarrow>
      list_all fe_ok out \<longrightarrow> (\<forall>es. r = Inr es \<longrightarrow> list_all fe_ok es)"
    and run: "(case frames of
        [] \<Rightarrow> Some (Inr out)
      | items # rest \<Rightarrow>
          (case items of
             [] \<Rightarrow> loop B rest (butlast comps) out
           | (key, v) # items' \<Rightarrow>
               (case bc_dict B v of
                  None \<Rightarrow> Some (Inl Bad_Access)
                | Some value \<Rightarrow>
                    if key = []
                    then (case parse_file_entry_v2 B v (tree_path comps) of
                            Inl e \<Rightarrow> Some (Inl e)
                          | Inr entry \<Rightarrow> loop B (items' # rest) comps (out @ [entry]))
                    else loop B (value # items' # rest) (comps @ [key]) out))) = Some r"
  show "list_all fe_ok out \<longrightarrow> (\<forall>es. r = Inr es \<longrightarrow> list_all fe_ok es)"
  proof (intro impI)
    assume out: "list_all fe_ok out"
    have go: "loop B fr cs out = Some (Inr es) \<Longrightarrow> list_all fe_ok es" for fr cs es
      using IH out by blast
    have visit: "parse_file_entry_v2 B v p = Inr e \<Longrightarrow> loop B fr cs (out @ [e]) = Some (Inr es) \<Longrightarrow> list_all fe_ok es"
      for v p e fr cs es
      using IH [of B fr cs "out @ [e]" "Inr es"] out parse_file_entry_ok(2) [of B v p e] by simp
    show "\<forall>es. r = Inr es \<longrightarrow> list_all fe_ok es"
      using run out by (auto split: list.splits option.splits if_splits sum.splits intro: go visit)
  qed
qed

section \<open>Files\<close>

text \<open>A change of the files that keeps the storage well formed, its piece size and its pieces.\<close>

definition refiles :: "file_storage \<Rightarrow> file_storage \<Rightarrow> bool" where
  "refiles st st' \<longleftrightarrow> (st_ok st \<longrightarrow> st_ok st') \<and> st_piece_size st' = st_piece_size st \<and> st_pieces st' = st_pieces st"

lemma refiles_refl [simp]: "refiles st st"
  by (simp add: refiles_def)

lemma refiles_rfold:
  assumes "rfold f xs st = Inr st'" "\<And>x s s'. x \<in> set xs \<Longrightarrow> f x s = Inr s' \<Longrightarrow> refiles s s'"
  shows "refiles st st'"
  by (rule rfold_invariant [OF assms(1), of "refiles st"]) (use assms(2) in \<open>auto simp: refiles_def\<close>)

lemma refiles_add: "fe_ok e \<Longrightarrow> st_add_file_move e st = Inr st' \<Longrightarrow> refiles st st'"
  by (auto simp: st_add_file_move_def fe_move_id refiles_def st_ok_push) (auto simp: st_push_def)

lemma refiles_mode [simp]: "refiles st (st_set_file_mode mode st)"
  by (simp add: refiles_def st_set_file_mode_def st_ok_def)

lemma refiles_update:
  assumes "i < length (st_files st)" "fe_ok (st_files st ! i) \<Longrightarrow> fe_ok e" "fe_file_size e = fe_file_size (st_files st ! i)"
  shows "refiles st (st\<lparr>st_files := (st_files st)[i := e]\<rparr>)"
proof -
  have "map fe_file_size ((st_files st)[i := e]) = map fe_file_size (st_files st)"
    using assms(1,3) by (metis list_update_id map_update nth_map)
  moreover have "list_all fe_ok ((st_files st)[i := e])" if "list_all fe_ok (st_files st)"
    using that assms(1,2) by (auto simp: list_all_length nth_list_update)
  ultimately show ?thesis by (simp add: refiles_def st_ok_def)
qed

lemma refiles_root:
  assumes "set_entry_root e st = Inr st'"
  shows "refiles st st'"
proof -
  let ?i = "find_index (\<lambda>f. fe_path e = fe_path f) (st_files st)"
  have "?i \<le> length (st_files st)" by (simp add: find_index_def length_takeWhile_le)
  then show ?thesis
    using assms by (auto simp: set_entry_root_def Let_def rbind_Inr_iff intro!: refiles_update split: if_splits)
qed

lemma refiles_layer:
  "set_entry_layer B L i st = Inr st' \<Longrightarrow> i < length (st_files st) \<Longrightarrow>
    refiles st st' \<and> length (st_files st') = length (st_files st)"
  by (auto simp: set_entry_layer_def Let_def rbind_Inr_iff intro!: refiles_update split: if_splits option.splits)

lemma refiles_layers:
  "rfold (set_entry_layer B L) [0..<length (st_files st)] st = Inr st' \<Longrightarrow> refiles st st'"
proof -
  assume run: "rfold (set_entry_layer B L) [0..<length (st_files st)] st = Inr st'"
  have "refiles st st' \<and> length (st_files st') = length (st_files st)"
    by (rule rfold_invariant [OF run]) (use refiles_layer in \<open>fastforce simp: refiles_def\<close>)+
  then show ?thesis ..
qed

text \<open>Steps that change only the storage.\<close>

lemma file_list_refiles:
  assumes "parse_file_list_v1 B data m = Inr m'"
  shows "\<exists>st'. m' = m\<lparr>mf_storage := st'\<rparr> \<and> refiles (mf_storage m) st'"
proof -
  have add: "refiles s s'" if "rbind (parse_file_entry_v1 B v) (\<lambda>e. st_add_file_move e s) = Inr s'" for v s s'
    using that by (auto simp: rbind_Inr_iff intro: refiles_add parse_file_entry_ok)
  have trans: "refiles a c" if "refiles a b" "refiles b c" for a b c
    using that by (simp add: refiles_def)
  consider l st where "rfold (\<lambda>f st. rbind (parse_file_entry_v1 B f) (\<lambda>e. st_add_file_move e st)) l (mf_storage m) = Inr st"
      "m' = m\<lparr>mf_storage := st_set_file_mode mode_multi st\<rparr>"
    | v st where "rbind (parse_file_entry_v1 B v) (\<lambda>e. st_add_file_move e (mf_storage m)) = Inr st"
      "m' = m\<lparr>mf_storage := st_set_file_mode mode_single st\<rparr>"
    using assms by (fastforce simp: parse_file_list_v1_def rbind_Inr_iff on_storage_def split: option.splits)
  then show ?thesis
  proof cases
    case 1
    then have "refiles (mf_storage m) st" using add by (intro refiles_rfold [OF 1(1)])
    then show ?thesis using 1(2) trans refiles_mode by blast
  next
    case 2
    then show ?thesis using add trans refiles_mode by blast
  qed
qed

lemma on_storage_refiles:
  assumes "on_storage f m = Inr m'" "\<And>st'. f (mf_storage m) = Inr st' \<Longrightarrow> refiles (mf_storage m) st'"
  shows "\<exists>st'. m' = m\<lparr>mf_storage := st'\<rparr> \<and> refiles (mf_storage m) st'"
  using assms by (auto simp: on_storage_def rbind_Inr_iff)

lemma tree_entries_ok: "parse_file_tree_entries B data = Inr es \<Longrightarrow> list_all fe_ok es"
proof -
  assume "parse_file_tree_entries B data = Inr es"
  then obtain d where "tree_loop B [d] [''/''] [] = Some (Inr es)"
    by (auto simp: parse_file_tree_entries_def rbind_Inr_iff split: option.splits)
  from tree_loop_ok [OF this] show ?thesis by simp
qed

lemma file_tree_refiles:
  assumes "parse_file_tree_v2 B data m = Inr m'"
  shows "\<exists>st'. m' = m\<lparr>mf_storage := st'\<rparr> \<and> refiles (mf_storage m) st'"
proof -
  obtain es where es: "parse_file_tree_entries B data = Inr es" "on_storage (rfold st_add_file_move es) m = Inr m'"
    using assms by (auto simp: parse_file_tree_v2_def rbind_Inr_iff)
  show ?thesis
  proof (rule on_storage_refiles [OF es(2)])
    fix st' assume run: "rfold st_add_file_move es (mf_storage m) = Inr st'"
    show "refiles (mf_storage m) st'"
      by (rule refiles_rfold [OF run]) (use tree_entries_ok [OF es(1)] in \<open>auto simp: list_all_iff intro: refiles_add\<close>)
  qed
qed

lemma hybrid_refiles:
  assumes "parse_file_list_and_tree_hybrid B data m = Inr m'"
  shows "\<exists>st'. m' = m\<lparr>mf_storage := st'\<rparr> \<and> refiles (mf_storage m) st'"
proof -
  obtain m1 es where m1: "parse_file_list_v1 B data m = Inr m1" "on_storage (rfold set_entry_root es) m1 = Inr m'"
    using assms by (auto simp: parse_file_list_and_tree_hybrid_def rbind_Inr_iff)
  obtain st1 where st1: "m1 = m\<lparr>mf_storage := st1\<rparr>" "refiles (mf_storage m) st1"
    using file_list_refiles [OF m1(1)] by blast
  have "\<exists>st'. m' = m1\<lparr>mf_storage := st'\<rparr> \<and> refiles (mf_storage m1) st'"
    by (rule on_storage_refiles [OF m1(2)]) (rule refiles_rfold, auto intro: refiles_root)
  with st1 show ?thesis by (auto simp: refiles_def)
qed

lemma layers_refile:
  assumes "parse_piece_layers_v2 B data m = Inr m'"
  shows "\<exists>st'. m' = m\<lparr>mf_storage := st'\<rparr> \<and> refiles (mf_storage m) st'"
proof -
  obtain L where "on_storage (\<lambda>st. rfold (set_entry_layer B L) [0..<length (st_files st)] st) m = Inr m'"
    using assms by (auto simp: parse_piece_layers_v2_def rbind_Inr_iff split: option.splits)
  then show ?thesis by (rule on_storage_refiles) (rule refiles_layers)
qed

section \<open>Pieces\<close>

lemma piece_size_read:
  "parse_piece_size B data m = Inr m' \<Longrightarrow>
    \<exists>n. m' = m\<lparr>mf_storage := (mf_storage m)\<lparr>st_piece_size := n\<rparr>\<rparr> \<and> KiB 16 \<le> n \<and> has_single_bit n"
  by (auto simp: parse_piece_size_def rbind_Inr_iff on_storage_def st_set_piece_size_def expects_def
      split: option.splits if_splits)

lemma pieces_read:
  assumes "parse_pieces_v1 B data m = Inr m'"
  shows "\<exists>ps. m' = m\<lparr>mf_storage := (mf_storage m)\<lparr>st_pieces := ps\<rparr>\<rparr> \<and> list_all (\<lambda>h. length h = 20) ps \<and>
    length ps = st_piece_count (mf_storage m)"
proof -
  let ?P = "\<lambda>st. \<exists>ps. st = (mf_storage m)\<lparr>st_pieces := ps\<rparr> \<and> list_all (\<lambda>h. length h = 20) ps \<and>
    length ps = st_piece_count (mf_storage m)"
  obtain s st where run: "rfold (\<lambda>idx st. rbind (hash_of_view (size_bytes sha1) (take 20 (drop (20 * idx) s)))
      (\<lambda>p. st_set_piece_hash idx p st)) [0..<length s div 20] (st_allocate_pieces (mf_storage m)) = Inr st"
      "m' = m\<lparr>mf_storage := st\<rparr>"
    using assms by (auto simp: parse_pieces_v1_def rbind_Inr_iff on_storage_def split: option.splits)
  have "?P st"
  proof (rule rfold_invariant [OF run(1)])
    show "?P (st_allocate_pieces (mf_storage m))"
      by (rule exI [of _ "replicate (st_piece_count (mf_storage m)) (hash_zero 20)"])
        (simp add: st_allocate_pieces_def list_all_length)
    fix idx st1 st2
    assume "?P st1" "rbind (hash_of_view (size_bytes sha1) (take 20 (drop (20 * idx) s)))
      (\<lambda>p. st_set_piece_hash idx p st1) = Inr st2"
    then obtain ps h where "st1 = (mf_storage m)\<lparr>st_pieces := ps\<rparr>" "list_all (\<lambda>h. length h = 20) ps"
        "length ps = st_piece_count (mf_storage m)" "length h = 20" "idx < length ps" "st2 = st1\<lparr>st_pieces := ps[idx := h]\<rparr>"
      by (auto simp: rbind_Inr_iff st_set_piece_hash_def expects_def dest!: length_hash_of_view split: if_splits)
    then show "?P st2" by (auto simp: list_all_length nth_list_update intro!: exI [of _ "ps[idx := h]"])
  qed
  with run(2) show ?thesis by blast
qed

section \<open>The metafile\<close>

definition metafile_ok :: "'b metafile \<Rightarrow> bool" where
  "metafile_ok m \<longleftrightarrow> fields_ok m \<and> st_ok (mf_storage m) \<and>
     KiB 16 \<le> st_piece_size (mf_storage m) \<and> has_single_bit (st_piece_size (mf_storage m)) \<and>
     list_all (\<lambda>h. length h = 20) (st_pieces (mf_storage m)) \<and>
     (st_pieces (mf_storage m) = [] \<or> length (st_pieces (mf_storage m)) = st_piece_count (mf_storage m))"

lemma count_pieces [simp]: "st_piece_count (st\<lparr>st_pieces := ps\<rparr>) = st_piece_count st"
  by (simp add: st_piece_count_def)

lemma ok_pieces [simp]: "st_ok (st\<lparr>st_pieces := ps\<rparr>) = st_ok st" "st_ok (st\<lparr>st_piece_size := n\<rparr>) = st_ok st"
  by (simp_all add: st_ok_def)

lemma start_ok: "fields_ok mf_empty" "st_ok (st_new False)" "st_pieces (st_new False) = []" "mf_storage mf_empty = st_new False"
  by (simp_all add: fields_ok_def mf_empty_def trackers_ok_def announce_ok_def tier_count_def st_ok_def st_new_def)

lemma parse_v1_ok:
  assumes "rfold (\<lambda>step. step) (common_steps B data @ v1_steps B data) mf_empty = Inr m"
  shows "metafile_ok m"
proof -
  obtain m0 m1 m2 m3 m4 where run: "rfold (\<lambda>step. step) (common_steps B data) mf_empty = Inr m0"
      "parse_file_list_v1 B data m0 = Inr m1" "parse_piece_size B data m1 = Inr m2"
      "parse_pieces_v1 B data m2 = Inr m3" "parse_source B data m3 = Inr m4" "parse_other_info_fields B data m4 = Inr m"
    using assms by (auto simp: rfold_append v1_steps_def rbind_Inr_iff)
  have m0: "fields_ok m0" "mf_storage m0 = st_new False"
    using steps_keep [OF common_steps_keep start_ok(1) run(1)] start_ok(4) by simp_all
  obtain st where st: "m1 = m0\<lparr>mf_storage := st\<rparr>" "refiles (mf_storage m0) st"
    using file_list_refiles [OF run(2)] by blast
  obtain n where n: "m2 = m1\<lparr>mf_storage := st\<lparr>st_piece_size := n\<rparr>\<rparr>" "KiB 16 \<le> n" "has_single_bit n"
    using piece_size_read [OF run(3)] st(1) by auto
  obtain ps where ps: "m3 = m2\<lparr>mf_storage := st\<lparr>st_piece_size := n, st_pieces := ps\<rparr>\<rparr>"
      "list_all (\<lambda>h. length h = 20) ps" "length ps = st_piece_count (st\<lparr>st_piece_size := n\<rparr>)"
    using pieces_read [OF run(4)] n(1) by auto
  have "fields_ok m3" using m0(1) by (simp add: ps(1) n(1) st(1))
  then have m4: "fields_ok m4" "mf_storage m4 = mf_storage m3"
    using keepsD [OF source_keeps _ run(5)] by simp_all
  then have m: "fields_ok m" "mf_storage m = mf_storage m3"
    using keepsD [OF other_fields_keep _ run(6)] by simp_all
  moreover have "st_ok st" using st(2) m0(2) start_ok(2) by (simp add: refiles_def)
  ultimately show ?thesis
    using n(2,3) ps(2,3) by (simp add: metafile_ok_def ps(1))
qed

lemma parse_v2_head_ok:
  assumes "rfold (\<lambda>step. step) (common_steps B data @ v2_steps B data) mf_empty = Inr m"
  shows "metafile_ok m" "st_pieces (mf_storage m) = []"
proof -
  obtain m0 m1 m2 where run: "rfold (\<lambda>step. step) (common_steps B data) mf_empty = Inr m0"
      "parse_piece_size B data m0 = Inr m1" "parse_source B data m1 = Inr m2" "parse_other_info_fields B data m2 = Inr m"
    using assms by (auto simp: rfold_append v2_steps_def rbind_Inr_iff)
  have m0: "fields_ok m0" "mf_storage m0 = st_new False"
    using steps_keep [OF common_steps_keep start_ok(1) run(1)] start_ok(4) by simp_all
  obtain n where n: "m1 = m0\<lparr>mf_storage := (mf_storage m0)\<lparr>st_piece_size := n\<rparr>\<rparr>" "KiB 16 \<le> n" "has_single_bit n"
    using piece_size_read [OF run(2)] by blast
  have "fields_ok m1" using m0(1) by (simp add: n(1))
  then have m2: "fields_ok m2" "mf_storage m2 = mf_storage m1"
    using keepsD [OF source_keeps _ run(3)] by simp_all
  then have m: "fields_ok m" "mf_storage m = mf_storage m1"
    using keepsD [OF other_fields_keep _ run(4)] by simp_all
  show "metafile_ok m" "st_pieces (mf_storage m) = []"
    using m n(2,3) start_ok(2,3) m0(2) by (simp_all add: metafile_ok_def n(1))
qed

lemma refiles_ok:
  assumes "metafile_ok m" "st_pieces (mf_storage m) = []" "refiles (mf_storage m) st"
  shows "metafile_ok (m\<lparr>mf_storage := st\<rparr>)" "st_pieces (mf_storage (m\<lparr>mf_storage := st\<rparr>)) = []"
  using assms by (simp_all add: metafile_ok_def refiles_def)

lemma parse_metafile_run:
  assumes "parse_metafile B data = Inr m"
  shows "metafile_ok m"
proof -
  consider "rfold (\<lambda>step. step) (common_steps B data @ v1_steps B data) mf_empty = Inr m"
    | m0 m1 m2 where "rfold (\<lambda>step. step) (common_steps B data @ v2_steps B data) mf_empty = Inr m0"
      "parse_file_list_and_tree_hybrid B data m0 = Inr m1" "parse_piece_layers_v2 B data m1 = Inr m2"
      "parse_pieces_v1 B data m2 = Inr m"
    | m0 m1 where "rfold (\<lambda>step. step) (common_steps B data @ v2_steps B data) mf_empty = Inr m0"
      "parse_file_tree_v2 B data m0 = Inr m1" "parse_piece_layers_v2 B data m1 = Inr m"
    using assms unfolding parse_metafile_def Let_def
    by (auto simp: rbind_Inr_iff split: if_splits)
  then show ?thesis
  proof cases
    case 1
    then show ?thesis by (rule parse_v1_ok)
  next
    case 2
    obtain st1 where st1: "m1 = m0\<lparr>mf_storage := st1\<rparr>" "refiles (mf_storage m0) st1"
      using hybrid_refiles [OF 2(2)] by blast
    obtain st2 where st2: "m2 = m1\<lparr>mf_storage := st2\<rparr>" "refiles (mf_storage m1) st2"
      using layers_refile [OF 2(3)] by blast
    have m1: "metafile_ok m1" "st_pieces (mf_storage m1) = []"
      using refiles_ok [OF parse_v2_head_ok [OF 2(1)] st1(2)] by (simp_all add: st1(1))
    have "metafile_ok m2" using refiles_ok(1) [OF m1 st2(2)] by (simp add: st2(1))
    with pieces_read [OF 2(4)] show ?thesis by (auto simp: metafile_ok_def)
  next
    case 3
    obtain st1 where st1: "m1 = m0\<lparr>mf_storage := st1\<rparr>" "refiles (mf_storage m0) st1"
      using file_tree_refiles [OF 3(2)] by blast
    obtain st2 where st2: "m = m1\<lparr>mf_storage := st2\<rparr>" "refiles (mf_storage m1) st2"
      using layers_refile [OF 3(3)] by blast
    have m1: "metafile_ok m1" "st_pieces (mf_storage m1) = []"
      using refiles_ok [OF parse_v2_head_ok [OF 3(1)] st1(2)] by (simp_all add: st1(1))
    then show ?thesis using refiles_ok(1) [OF m1 st2(2)] by (simp add: st2(1))
  qed
qed

text \<open>
  C8: Whatever value the reader is given, and whatever the bencode library makes of it, a metafile it
  returns is well formed: trackers in tiers without gaps and every url once, no seed or node twice,
  only digests of the right width, consistent file entries whose sizes add up to the recorded
  total, a piece size that is a power of two of at least 16 KiB, and as many pieces as that size
  demands, or none.
\<close>

theorem parse_metafile_well_formed:
  assumes "parse_metafile B data = Inr m"
  shows "metafile_ok m"
  by (rule parse_metafile_run [OF assms])

theorem parse_metafile_well_formed_witness:
  "\<exists>v m. make_bvalue_v1 sample_lib sample_platform sample_torrent = Inr v \<and>
     parse_metafile sample_lib v = Inr m \<and> metafile_ok m"
proof -
  obtain v where v: "make_bvalue_v1 sample_lib sample_platform sample_torrent = Inr v"
      "parse_metafile sample_lib v = Inr (v1_read_back sample_lib sample_platform sample_torrent)"
    using v1_round_trip_run [OF sample_laws sample_writable(2,1) sample_storage_ok] by blast
  from parse_metafile_well_formed [OF v(2)] v show ?thesis by blast
qed

end
