(* ===== verification/Metafile_Refusals.thy ===== *)
theory Metafile_Refusals
  imports Metafile_Wellformed Metafile_Tree
begin

text \<open>
  Input the reader does not survive: values that are no malformed bencode, but end in a violated
  contract or in undefined behaviour instead of a parse error; and the traversal of the file tree,
  which ends on every value of finite depth.
\<close>

section \<open>Trackers\<close>



section \<open>Links\<close>

text \<open>
  A symbolic link the writer puts into the file list cannot be read back: the target is written
  under a key the reader does not look at, so the entry it makes is a link without a target, which
  violates the contract of a file entry.
\<close>

theorem written_link_refused:
  assumes B: "bencode_laws B" and e: "fe_ok e" "fe_is_symlink e" "list_all name_ok (fe_path e)"
    and attr: "fe_attributes e = Some a" "enum_and a known_attributes = a" and cs: "hash_names_only (fe_checksums e)"
  shows "\<exists>v. file_info_v1 B e = Inr v \<and> parse_file_entry_v1 B v = Inl Contract"
proof -
  obtain target where target: "fe_symlink_path e = Some target" and size: "fe_file_size e = 0"
    using e(1,2) by (auto simp: fe_ok_def)
  have c: "checksums_ok (fe_checksums e)" using e(1) by (simp add: fe_ok_def)
  define base where "base = put ''symlink path'' (path_value B target) (put_attributes B e
    (put ''path'' (path_value B (fe_path e)) (put ''length'' (size_value B (fe_file_size e)) [])))"
  define fd where "fd = put_checksums B e base"
  have info: "file_info_v1 B e = Inr (bc_of_dict B fd)"
    using e(2) target by (simp add: file_info_v1_def put_symlink_def value_of_optional_def fd_def base_def)
  note find = find_put_checksums(2) [OF c cs, of _ B base, folded fd_def]
  have dict: "bc_dict B (bc_of_dict B fd) = Some fd" by (simp add: bencode_simps [OF B])
  have "parse_path B (path_value B (fe_path e)) = Inr (fe_path e)"
    by (rule parse_path_value [OF B e(3)])
  moreover have "parse_file_size B fd = Inr 0"
    by (rule parse_size_value [OF B]) (simp_all add: find base_def size attr(1) put_attributes_def size_bound_def)
  moreover have "parse_file_attributes B (bc_of_dict B fd) = Inr (fe_attributes e)"
    by (rule parse_attributes_value [OF B dict]) (simp_all add: find base_def put_attributes_def attr)
  moreover have "fe_make (fe_path e) 0 (fe_attributes e) None = Inl Contract"
    using e(2) by (simp add: fe_make_def Let_def fe_check_invariants_def fe_is_symlink_def fe_has_attribute_def expects_def)
  ultimately have "parse_file_entry_v1 B (bc_of_dict B fd) = Inl Contract"
    by (simp add: parse_file_entry_v1_def root_dict_of [OF dict] find base_def put_attributes_def attr parse_symlink_def)
  with info show ?thesis by blast
qed

definition sample_link :: file_entry where
  "sample_link = \<lparr>fe_path = [''l''], fe_file_size = 0, fe_checksums = [], fe_has_v2_data = False,
     fe_pieces_root = hash_zero 32, fe_piece_layer = [], fe_attributes = Some attribute_symlink,
     fe_symlink_path = Some [''t''], fe_last_modified_time = None\<rparr>"

theorem written_link_refused_witness:
  "\<exists>v. file_info_v1 sample_lib sample_link = Inr v \<and> parse_file_entry_v1 sample_lib v = Inl Contract"
proof (rule written_link_refused [OF sample_laws])
  show "fe_ok sample_link" "fe_is_symlink sample_link" "list_all name_ok (fe_path sample_link)"
    "fe_attributes sample_link = Some attribute_symlink" "hash_names_only (fe_checksums sample_link)"
    "enum_and attribute_symlink known_attributes = attribute_symlink"
    by (simp_all add: fe_ok_def sample_link_def fe_is_symlink_def fe_has_attribute_def has_flag_def checksums_ok_def
        name_ok_def hash_names_only_def enum_and_def attribute_defs known_attributes_def)
qed

text \<open>A torrent with a target under the key the reader looks at is worse: the target is stored through an empty optional.\<close>

theorem symlink_key_undefined:
  assumes "om_find fd ''symlink'' = Some v" "parse_path B v = Inr p"
  shows "parse_symlink B fd = Inl Undefined"
  using assms by (simp add: parse_symlink_def)

section \<open>Hybrid torrents\<close>

text \<open>A file of the tree that is missing in the list is looked up all the same.\<close>

theorem missing_list_entry_undefined:
  assumes "fe_path e \<notin> fe_path ` set (st_files st)" "fe_has_v2_data e" "0 < fe_file_size e"
  shows "set_entry_root e st = Inl Undefined"
proof -
  have "takeWhile (\<lambda>f. fe_path e \<noteq> fe_path f) (st_files st) = st_files st"
    using assms(1) by (auto simp: takeWhile_eq_all_conv)
  then have "find_index (\<lambda>f. fe_path e = fe_path f) (st_files st) = length (st_files st)"
    by (simp only: find_index_def)
  then show ?thesis using assms(2,3) by (simp add: set_entry_root_def Let_def fe_get_pieces_root_def)
qed

text \<open>A piece length that is no power of two violates the contract of the setter.\<close>

theorem piece_length_contract:
  assumes "info_dict B data = Inr info" "om_find info ''piece length'' = Some v" "get_integer B v = Inr i"
    and "\<not> (KiB 16 \<le> size_of_integer i \<and> has_single_bit (size_of_integer i))"
  shows "parse_piece_size B data m = Inl Contract"
  using assms by (auto simp: parse_piece_size_def on_storage_def st_set_piece_size_def expects_def)

section \<open>The file tree\<close>

text \<open>
  C34: Reading the file tree of any torrent ends: when every value the bencode library gives out has a
  finite depth, the loop over the explicit stack comes to its end, with the entries or with an
  error, and the reader never spins.
\<close>

theorem file_tree_reader_ends:
  assumes "depth_of B depth" "info_dict B data = Inr info" "om_find info ''file tree'' = Some v" "bc_dict B v = Some tree"
  shows "\<exists>r. tree_loop B [tree] [''/''] [] = Some r \<and> parse_file_tree_entries B data = r"
proof -
  obtain r where "tree_loop B [tree] [''/''] [] = Some r" using tree_loop_ends [OF assms(1)] by blast
  then show ?thesis
    using assms(2-4) by (simp add: parse_file_tree_entries_def dict_at_def get_dict_def)
qed

lemma sample_depth: "depth_of sample_lib size"
proof -
  have "size w < size (Sample_Dict d)" if "(k, w) \<in> set d" for k w d
    using that by (induction d) auto
  then show ?thesis by (auto simp: depth_of_def sample_lib_def split: sample_value.splits)
qed

theorem file_tree_reader_ends_witness:
  "\<exists>r. parse_file_tree_entries sample_lib (Sample_Dict [(''info'', Sample_Dict [(''file tree'',
     Sample_Dict [(''a'', Sample_Dict [([], Sample_Dict [(''length'', Sample_Integer 0)])])])])]) = r \<and>
     tree_loop sample_lib [[(''a'', Sample_Dict [([], Sample_Dict [(''length'', Sample_Integer 0)])])]] [''/''] [] = Some r"
proof -
  let ?tree = "[(''a'', Sample_Dict [([], Sample_Dict [(''length'', Sample_Integer 0)])])]"
  let ?data = "Sample_Dict [(''info'', Sample_Dict [(''file tree'', Sample_Dict ?tree)])]"
  have "info_dict sample_lib ?data = Inr [(''file tree'', Sample_Dict ?tree)]"
    by (simp add: info_dict_def root_dict_def holds_dict_def get_dict_def sample_lib_def dict_at_def expects_def)
  from file_tree_reader_ends [OF sample_depth this, of "Sample_Dict ?tree" ?tree] show ?thesis
    by (auto simp: sample_lib_def)
qed

end
