(* ===== verification/Magnet_Uri.thy ===== *)
theory Magnet_Uri
  imports Metafile_Round_Trip Percent_Encoding
begin

text \<open>
  Magnet links (\<^verbatim>\<open>include/dottorrent/magnet_uri.hpp\<close>, \<^verbatim>\<open>src/magnet_uri.cpp\<close>): the class, the encoder,
  the splitting of a query string, and the two ways to make a link, from a text and from a
  metafile. The member \<^verbatim>\<open>size_\<close> has no initialiser: a link made from a text starts with the
  indeterminate value \<open>indet_size\<close>; the one made from a metafile is value-initialised.
\<close>

section \<open>The class\<close>

record magnet_uri =
  mu_display_name :: string
  mu_size :: nat
  mu_topics :: "string list"
  mu_trackers :: "string list"
  mu_web_seeds :: "string list"
  mu_acceptable_sources :: "string list"
  mu_exact_source :: string
  mu_keywords :: "string set"
  mu_peer_addresses :: "string list"
  mu_manifest :: string

definition mu_new :: "nat \<Rightarrow> magnet_uri" where
  "mu_new indet_size =
     \<lparr>mu_display_name = [], mu_size = indet_size, mu_topics = [], mu_trackers = [], mu_web_seeds = [],
      mu_acceptable_sources = [], mu_exact_source = [], mu_keywords = {}, mu_peer_addresses = [], mu_manifest = []\<rparr>"

definition mu_add_topic :: "string \<Rightarrow> magnet_uri \<Rightarrow> magnet_uri" where
  "mu_add_topic topic mu = mu\<lparr>mu_topics := mu_topics mu @ [topic]\<rparr>"

definition mu_add_web_seed :: "string \<Rightarrow> magnet_uri \<Rightarrow> magnet_uri" where
  "mu_add_web_seed seed mu = mu\<lparr>mu_web_seeds := mu_web_seeds mu @ [seed]\<rparr>"

definition mu_add_tracker :: "string \<Rightarrow> magnet_uri \<Rightarrow> magnet_uri" where
  "mu_add_tracker tracker mu = mu\<lparr>mu_trackers := mu_trackers mu @ [tracker]\<rparr>"

definition mu_add_acceptable_source :: "string \<Rightarrow> magnet_uri \<Rightarrow> magnet_uri" where
  "mu_add_acceptable_source source mu = mu\<lparr>mu_acceptable_sources := mu_acceptable_sources mu @ [source]\<rparr>"

definition mu_add_keyword :: "string \<Rightarrow> magnet_uri \<Rightarrow> magnet_uri" where
  "mu_add_keyword keyword mu = mu\<lparr>mu_keywords := insert keyword (mu_keywords mu)\<rparr>"

definition mu_set_size :: "nat \<Rightarrow> magnet_uri \<Rightarrow> magnet_uri" where
  "mu_set_size n mu = mu\<lparr>mu_size := n\<rparr>"

definition mu_set_display_name :: "string \<Rightarrow> magnet_uri \<Rightarrow> magnet_uri" where
  "mu_set_display_name s mu = mu\<lparr>mu_display_name := s\<rparr>"

definition mu_set_manifest :: "string \<Rightarrow> magnet_uri \<Rightarrow> magnet_uri" where
  "mu_set_manifest s mu = mu\<lparr>mu_manifest := s\<rparr>"

definition mu_set_exact_source :: "string \<Rightarrow> magnet_uri \<Rightarrow> magnet_uri" where
  "mu_set_exact_source s mu = mu\<lparr>mu_exact_source := s\<rparr>"

definition mu_add_peer_address :: "string \<Rightarrow> magnet_uri \<Rightarrow> magnet_uri" where
  "mu_add_peer_address s mu = mu\<lparr>mu_peer_addresses := mu_peer_addresses mu @ [s]\<rparr>"

text \<open>The formatting library writes the port in decimal.\<close>

definition mu_add_peer_address_port :: "platform \<Rightarrow> string \<Rightarrow> 16 word \<Rightarrow> magnet_uri \<Rightarrow> magnet_uri" where
  "mu_add_peer_address_port P address port mu =
     mu_add_peer_address (address @ '':'' @ pf_decimal P (unat port)) mu"

section \<open>Numbers\<close>

text \<open>\<^verbatim>\<open>std::to_string\<close> and \<^verbatim>\<open>std::from_chars\<close> for \<^verbatim>\<open>std::size_t\<close>.\<close>

fun to_decimal :: "nat \<Rightarrow> string" where
  "to_decimal n = (if n < 10 then [char_of (48 + n)] else to_decimal (n div 10) @ [char_of (48 + n mod 10)])"

declare to_decimal.simps [simp del]

definition digits_value :: "string \<Rightarrow> nat" where
  "digits_value ds = fold (\<lambda>c n. n * 10 + (of_char c - 48)) ds 0"

text \<open>
  The characters consumed and the value; no value when there is no digit or when it does not fit,
  and then the digits are consumed all the same.
\<close>

definition from_chars_size :: "string \<Rightarrow> nat \<times> nat option" where
  "from_chars_size s =
     (let ds = takeWhile is_numeric s
      in (length ds, if ds = [] \<or> size_bound \<le> digits_value ds then None else Some (digits_value ds)))"

section \<open>Encoding\<close>

definition encode_topics :: "string list \<Rightarrow> string \<Rightarrow> string" where
  "encode_topics topics out =
     fst (fold (\<lambda>topic (out, first).
                  (if first then (out @ ''xt='' @ topic, False) else (out @ ''&xt='' @ topic, first)))
            topics (out, True))"

definition encode_field :: "string \<Rightarrow> string \<Rightarrow> string \<Rightarrow> string" where
  "encode_field prefix value out = out @ prefix @ percent_encode value"

text \<open>A field that is written for every value, and one that is written when it is not empty.\<close>

definition encode_each :: "string \<Rightarrow> string list \<Rightarrow> string \<Rightarrow> string" where
  "encode_each prefix values out = fold (encode_field prefix) values out"

definition encode_nonempty :: "string \<Rightarrow> string \<Rightarrow> string \<Rightarrow> string" where
  "encode_nonempty prefix value out = (if value \<noteq> [] then encode_field prefix value out else out)"

text \<open>
  The keywords in the order of the set's traversal. They have no key of their own, and the loop
  over all but the first does not advance.
\<close>

definition encode_keywords :: "platform \<Rightarrow> string set \<Rightarrow> string \<Rightarrow> string result" where
  "encode_keywords P keywords out =
     (if keywords \<noteq> {}
      then (case pf_string_order P keywords of
              [] \<Rightarrow> Inl Undefined
            | k # it \<Rightarrow> if it \<noteq> [] then Inl Diverges else Inr (out @ percent_encode k))
      else Inr out)"

definition encode_magnet_uri_to :: "platform \<Rightarrow> magnet_uri \<Rightarrow> string \<Rightarrow> string result" where
  "encode_magnet_uri_to P mu out =
     (let out = encode_topics (mu_topics mu) (out @ ''magnet:?'');
          out = encode_nonempty ''&dn='' (mu_display_name mu) out;
          out = (if mu_size mu \<noteq> 0 then encode_field ''&xl='' (to_decimal (mu_size mu)) out else out);
          out = encode_each ''&tr='' (mu_trackers mu) out;
          out = encode_each ''&ws='' (mu_web_seeds mu) out;
          out = encode_each ''&as='' (mu_acceptable_sources mu) out;
          out = encode_nonempty ''&xs='' (mu_exact_source mu) out
      in rbind (encode_keywords P (mu_keywords mu) out) (\<lambda>out.
         let out = encode_nonempty ''&mt='' (mu_manifest mu) out
         in Inr (encode_each ''&x.pe='' (mu_peer_addresses mu) out)))"

definition encode_magnet_uri :: "platform \<Rightarrow> magnet_uri \<Rightarrow> string result" where
  "encode_magnet_uri P mu = encode_magnet_uri_to P mu []"

section \<open>Splitting\<close>

text \<open>The loop of the two splitting functions: a separator at the end gives no last empty part.\<close>

lemma after_separator: "dropWhile P s \<noteq> [] \<Longrightarrow> length (tl (dropWhile P s)) < length s"
  using length_dropWhile_le [of P s] by (cases "dropWhile P s") auto

function split_parts :: "char \<Rightarrow> string \<Rightarrow> string list" where
  "split_parts c s =
     (if s = [] then []
      else let part = takeWhile (\<lambda>x. x \<noteq> c) s; it = dropWhile (\<lambda>x. x \<noteq> c) s
           in if it \<noteq> [] then part # split_parts c (tl it) else [part])"
  by auto
termination
  by (relation "measure (length \<circ> snd)") (simp_all add: after_separator del: length_tl)

definition split_query_string :: "string \<Rightarrow> string list" where
  "split_query_string uri_query_string = split_parts CHR ''&'' uri_query_string"

definition split_keywords_string :: "string \<Rightarrow> string list" where
  "split_keywords_string keywords = split_parts CHR ''+'' keywords"

definition split_key_value_pair :: "string \<Rightarrow> (string \<times> string) result" where
  "split_key_value_pair s =
     (let it = dropWhile (\<lambda>x. x \<noteq> CHR ''='') s
      in if it = [] then Inl Invalid_Argument
         else let offset = length s - length it in Inr (take offset s, drop (offset + 1) s))"

section \<open>Reading a link\<close>

definition read_exact_length :: "string \<Rightarrow> magnet_uri \<Rightarrow> magnet_uri result" where
  "read_exact_length value mu =
     (let (ptr, xl_value) = from_chars_size value
      in if ptr \<noteq> length value then Inl Invalid_Argument
         else case xl_value of None \<Rightarrow> Inl System_Error | Some n \<Rightarrow> Inr (mu_set_size n mu))"

text \<open>\<open>indet\<close> is the byte an escape with letters that are no digits is decoded to.\<close>

definition read_magnet_part :: "byte \<Rightarrow> string \<Rightarrow> magnet_uri \<Rightarrow> magnet_uri result" where
  "read_magnet_part indet part mu =
     rbind (split_key_value_pair part) (\<lambda>(key, value).
     rbind (if key = ''dn'' then rbind (percent_decode indet value) (\<lambda>s. Inr (mu_set_display_name s mu))
            else if key = ''xl'' then read_exact_length value mu
            else Inr mu) (\<lambda>mu.
       let text = (\<lambda>store. rbind (percent_decode indet value) (\<lambda>s. Inr (store s mu)))
       in if key = ''xt'' then text mu_add_topic
          else if key = ''tr'' then text mu_add_tracker
          else if key = ''ws'' then text mu_add_web_seed
          else if key = ''as'' then text mu_add_acceptable_source
          else if key = ''xs'' then text mu_set_exact_source
          else if key = ''kt'' then text (\<lambda>s mu. fold mu_add_keyword (split_keywords_string s) mu)
          else if key = ''mt'' then text mu_set_manifest
          else if key = ''x.pe'' then text mu_add_peer_address
          else Inr mu))"

definition make_magnet_uri :: "byte \<Rightarrow> nat \<Rightarrow> string \<Rightarrow> magnet_uri result" where
  "make_magnet_uri indet indet_size uri =
     rbind (throw_if (take 8 uri \<noteq> ''magnet:?'') Invalid_Argument) (\<lambda>_.
       rfold (read_magnet_part indet) (split_query_string (drop 8 uri)) (mu_new indet_size))"

section \<open>A link to a metafile\<close>

definition format_topic_v1 :: "'b bencode \<Rightarrow> platform \<Rightarrow> ('b \<Rightarrow> string) \<Rightarrow> 'b metafile \<Rightarrow> string result" where
  "format_topic_v1 B P encode m =
     rbind (metafile_info_hash_v1 B P encode m) (\<lambda>h. Inr (''urn:btih:'' @ hash_hex_string h))"

definition format_topic_v2 :: "'b bencode \<Rightarrow> platform \<Rightarrow> ('b \<Rightarrow> string) \<Rightarrow> 'b metafile \<Rightarrow> string result" where
  "format_topic_v2 B P encode m =
     rbind (metafile_info_hash_v2 B P encode m) (\<lambda>h. Inr (''urn:btmh:1220'' @ hash_hex_string h))"

definition add_topic_if :: "bool \<Rightarrow> string result \<Rightarrow> magnet_uri \<Rightarrow> magnet_uri result" where
  "add_topic_if c topic mu = (if c then rbind topic (\<lambda>t. Inr (mu_add_topic t mu)) else Inr mu)"

definition make_magnet_uri_of_metafile ::
    "'b bencode \<Rightarrow> platform \<Rightarrow> ('b \<Rightarrow> string) \<Rightarrow> 'b metafile \<Rightarrow> protocol \<Rightarrow> magnet_uri result" where
  "make_magnet_uri_of_metafile B P encode m protocol_version =
     (let p = st_protocol (mf_storage m);
          magnet = mu_new 0;
          v1 = format_topic_v1 B P encode m;
          v2 = format_topic_v2 B P encode m
      in rbind (if p = protocol_hybrid
                then rbind (add_topic_if (enum_and protocol_version protocol_v1 = protocol_v1) v1 magnet)
                       (add_topic_if (enum_and protocol_version protocol_v2 = protocol_v2) v2)
                else if p = protocol_v1 then add_topic_if True v1 magnet
                else if p = protocol_v2 then add_topic_if True v2 magnet
                else Inl Invalid_Argument) (\<lambda>magnet.
           let magnet = mu_set_display_name (mf_name m) magnet;
               magnet = fold (\<lambda>tr. mu_add_tracker (au_url tr)) (mf_trackers m) magnet;
               magnet = fold mu_add_web_seed (mf_web_seeds m) magnet
           in Inr (fold (\<lambda>dn. mu_add_peer_address_port P (dn_url dn) (dn_port dn)) (mf_dht_nodes m) magnet)))"

declare split_parts.simps [simp del]

section \<open>Numbers read back\<close>

lemma digit_char [simp]:
  assumes "d < (10 :: nat)"
  shows "of_char (char_of (48 + d) :: char) = 48 + d" "is_numeric (char_of (48 + d))"
proof -
  show n: "of_char (char_of (48 + d) :: char) = 48 + d" using assms by (simp add: of_char_of)
  have "(of_char (char_of (48 + d) :: char) :: int) = int (of_char (char_of (48 + d) :: char))"
    by (simp only: of_nat_of_char)
  then show "is_numeric (char_of (48 + d))"
    unfolding is_numeric_def schar_def n using assms by simp
qed

lemma to_decimal_digits: "to_decimal n \<noteq> [] \<and> list_all is_numeric (to_decimal n) \<and> digits_value (to_decimal n) = n"
proof (induction n rule: to_decimal.induct)
  case (1 n)
  show ?case
  proof (cases "n < 10")
    case True
    then show ?thesis by (subst (1 2 3) to_decimal.simps) (simp add: digits_value_def)
  next
    case False
    then show ?thesis using 1 by (subst (1 2 3) to_decimal.simps) (simp add: digits_value_def)
  qed
qed

lemma numeric_not_escaped: "list_all is_numeric ds \<Longrightarrow> percent_encode ds = ds"
  by (induction ds) (simp_all add: percent_encode_def percent_encode_char_def is_unreserved_def)

lemma exact_length_read:
  assumes "n < size_bound"
  shows "read_exact_length (percent_encode (to_decimal n)) mu = Inr (mu_set_size n mu)"
proof -
  note d = to_decimal_digits [of n]
  then have t: "takeWhile is_numeric (to_decimal n) = to_decimal n" by (simp add: list_all_iff takeWhile_eq_all_conv)
  show ?thesis
    using d assms by (simp add: numeric_not_escaped read_exact_length_def from_chars_size_def Let_def t)
qed

section \<open>The parts of a link\<close>

lemma no_separator_encoded:
  assumes "c \<in> set (percent_encode s)"
  shows "uri_safe c"
  using percent_encode_safe [of s] assms by (simp add: list_all_iff)

lemma separators_unsafe [simp]: "\<not> uri_safe CHR ''&''" "\<not> uri_safe CHR ''=''"
  by (simp_all add: uri_safe_def is_unreserved_def is_numeric_def is_alpha_def schar_def)

lemma split_joined:
  "\<forall>p \<in> set ps. p \<noteq> [] \<and> c \<notin> set p \<Longrightarrow> split_parts c (tl (concat (map ((#) c) ps))) = ps"
proof (induction ps)
  case Nil
  then show ?case by (simp add: split_parts.simps)
next
  case (Cons p ps)
  then have p: "p \<noteq> []" "c \<notin> set p" by auto
  have stop: "takeWhile (\<lambda>x. x \<noteq> c) (p @ c # s) = p" "dropWhile (\<lambda>x. x \<noteq> c) (p @ c # s) = c # s"
    "takeWhile (\<lambda>x. x \<noteq> c) p = p" "dropWhile (\<lambda>x. x \<noteq> c) p = []" for s
    using p(2) by (auto simp: takeWhile_append dropWhile_append)
  show ?case
  proof (cases ps)
    case Nil
    then show ?thesis using p stop by (simp add: split_parts.simps)
  next
    case (Cons q qs)
    then obtain r where r: "concat (map ((#) c) ps) = c # r" by simp
    then have "split_parts c (tl (concat (map ((#) c) (p # ps)))) = p # split_parts c r"
      using p by (subst split_parts.simps) (simp add: stop)
    moreover have "split_parts c r = ps" using Cons.IH Cons.prems r by simp
    ultimately show ?thesis by simp
  qed
qed

lemma key_value_split:
  assumes "CHR ''='' \<notin> set k"
  shows "split_key_value_pair (k @ CHR ''='' # v) = Inr (k, v)"
proof -
  have "dropWhile (\<lambda>x. x \<noteq> CHR ''='') (k @ CHR ''='' # v) = CHR ''='' # v"
    using assms by (auto simp: dropWhile_append)
  then show ?thesis by (simp add: split_key_value_pair_def Let_def)
qed

text \<open>The parts of the query string of a link without keywords, in the order they are written.\<close>

definition field_part :: "string \<Rightarrow> string \<Rightarrow> string" where
  "field_part key v = key @ ''='' @ percent_encode v"

definition present :: "string \<Rightarrow> string list" where
  "present s = (if s = [] then [] else [s])"

definition magnet_parts :: "magnet_uri \<Rightarrow> string list" where
  "magnet_parts mu =
     map (\<lambda>t. ''xt='' @ t) (mu_topics mu) @ map (field_part ''dn'') (present (mu_display_name mu)) @
     (if mu_size mu \<noteq> 0 then [field_part ''xl'' (to_decimal (mu_size mu))] else []) @
     map (field_part ''tr'') (mu_trackers mu) @ map (field_part ''ws'') (mu_web_seeds mu) @
     map (field_part ''as'') (mu_acceptable_sources mu) @ map (field_part ''xs'') (present (mu_exact_source mu)) @
     map (field_part ''mt'') (present (mu_manifest mu)) @ map (field_part ''x.pe'') (mu_peer_addresses mu)"

lemma encode_topics_parts:
  "encode_topics (t # ts) out = out @ ''xt='' @ t @ concat (map (\<lambda>t. ''&xt='' @ t) ts)"
proof -
  have "fst (fold (\<lambda>topic (out, first).
      (if first then (out @ ''xt='' @ topic, False) else (out @ ''&xt='' @ topic, first))) ts (out, False)) =
    out @ concat (map (\<lambda>t. ''&xt='' @ t) ts)" for out
    by (induction ts arbitrary: out) simp_all
  then show ?thesis by (simp add: encode_topics_def)
qed

lemma encode_each_parts: "encode_each prefix vs out = out @ concat (map (\<lambda>v. prefix @ percent_encode v) vs)"
  by (induction vs arbitrary: out) (simp_all add: encode_each_def encode_field_def)

lemma encode_nonempty_parts:
  "encode_nonempty prefix v out = out @ concat (map (\<lambda>v. prefix @ percent_encode v) (present v))"
  by (simp add: encode_nonempty_def encode_field_def present_def)

lemma encode_parts:
  assumes "mu_keywords mu = {}" "mu_topics mu \<noteq> []"
  shows "encode_magnet_uri P mu = Inr (''magnet:?'' @ tl (concat (map ((#) CHR ''&'') (magnet_parts mu))))"
proof -
  obtain t ts where "mu_topics mu = t # ts" using assms(2) by (cases "mu_topics mu") auto
  then show ?thesis
    using assms(1)
    by (simp add: encode_magnet_uri_def encode_magnet_uri_to_def Let_def encode_keywords_def encode_topics_parts
        encode_each_parts encode_nonempty_parts encode_field_def magnet_parts_def field_part_def comp_def)
qed

section \<open>The round trip\<close>

text \<open>Topics are written as they are, so they must not contain a separator or an escape.\<close>

definition plain_topic :: "string \<Rightarrow> bool" where
  "plain_topic t \<longleftrightarrow> CHR ''&'' \<notin> set t \<and> CHR ''%'' \<notin> set t"

definition magnet_plain :: "magnet_uri \<Rightarrow> bool" where
  "magnet_plain mu \<longleftrightarrow> mu_keywords mu = {} \<and> mu_topics mu \<noteq> [] \<and> list_all plain_topic (mu_topics mu) \<and>
     mu_size mu < size_bound"

lemma decode_plain: "CHR ''%'' \<notin> set t \<Longrightarrow> percent_decode indet t = Inr t"
proof -
  have "percent_decode_loop indet False [] out t = Inr (success, out @ t)" if "CHR ''%'' \<notin> set t" for out
    using that by (induction t arbitrary: out) auto
  then show "CHR ''%'' \<notin> set t \<Longrightarrow> ?thesis"
    by (simp add: percent_decode_def percent_decode_status_of_def)
qed

lemma magnet_parts_split:
  assumes "magnet_plain mu"
  shows "split_query_string (tl (concat (map ((#) CHR ''&'') (magnet_parts mu)))) = magnet_parts mu"
  unfolding split_query_string_def
proof (rule split_joined)
  have "field_part k v \<noteq> [] \<and> CHR ''&'' \<notin> set (field_part k v)" if "CHR ''&'' \<notin> set k" for k v
    using that no_separator_encoded [of "CHR ''&''" v] by (auto simp: field_part_def)
  then show "\<forall>p \<in> set (magnet_parts mu). p \<noteq> [] \<and> CHR ''&'' \<notin> set p"
    using assms by (auto simp: magnet_parts_def magnet_plain_def list_all_iff plain_topic_def)
qed

text \<open>Reading a group of fields.\<close>

lemma read_field:
  assumes "CHR ''='' \<notin> set k"
  shows "rbind (split_key_value_pair (field_part k v)) f = f (k, percent_encode v)"
  using key_value_split [OF assms, of "percent_encode v"] by (simp add: field_part_def)

lemma read_topics:
  "list_all plain_topic ts \<Longrightarrow> rfold (read_magnet_part indet) (map (\<lambda>t. ''xt='' @ t) ts) mu =
    Inr (mu\<lparr>mu_topics := mu_topics mu @ ts\<rparr>)"
proof (induction ts arbitrary: mu)
  case (Cons t ts)
  have "split_key_value_pair (''xt='' @ t) = Inr (''xt'', t)" using key_value_split [of "''xt''" t] by simp
  then show ?case
    using Cons by (simp add: read_magnet_part_def plain_topic_def decode_plain mu_add_topic_def)
qed simp

lemma read_fields:
  assumes "\<And>v mu. read_magnet_part indet (field_part k v) mu = Inr (store v mu)"
  shows "rfold (read_magnet_part indet) (map (field_part k) vs) mu = Inr (fold store vs mu)"
  by (induction vs arbitrary: mu) (simp_all add: assms)

lemma read_each:
  "read_magnet_part indet (field_part ''dn'' v) mu = Inr (mu_set_display_name v mu)"
  "read_magnet_part indet (field_part ''tr'' v) mu = Inr (mu_add_tracker v mu)"
  "read_magnet_part indet (field_part ''ws'' v) mu = Inr (mu_add_web_seed v mu)"
  "read_magnet_part indet (field_part ''as'' v) mu = Inr (mu_add_acceptable_source v mu)"
  "read_magnet_part indet (field_part ''xs'' v) mu = Inr (mu_set_exact_source v mu)"
  "read_magnet_part indet (field_part ''mt'' v) mu = Inr (mu_set_manifest v mu)"
  "read_magnet_part indet (field_part ''x.pe'' v) mu = Inr (mu_add_peer_address v mu)"
  by (simp_all add: read_magnet_part_def read_field)

lemma read_size:
  "n < size_bound \<Longrightarrow> read_magnet_part indet (field_part ''xl'' (to_decimal n)) mu = Inr (mu_set_size n mu)"
  by (simp add: read_magnet_part_def read_field exact_length_read)

lemma fold_stores:
  "fold mu_add_tracker vs mu = mu\<lparr>mu_trackers := mu_trackers mu @ vs\<rparr>"
  "fold mu_add_web_seed vs mu = mu\<lparr>mu_web_seeds := mu_web_seeds mu @ vs\<rparr>"
  "fold mu_add_acceptable_source vs mu = mu\<lparr>mu_acceptable_sources := mu_acceptable_sources mu @ vs\<rparr>"
  "fold mu_add_peer_address vs mu = mu\<lparr>mu_peer_addresses := mu_peer_addresses mu @ vs\<rparr>"
  "mu_display_name mu = [] \<Longrightarrow> fold mu_set_display_name (present s) mu = mu\<lparr>mu_display_name := s\<rparr>"
  "mu_exact_source mu = [] \<Longrightarrow> fold mu_set_exact_source (present s) mu = mu\<lparr>mu_exact_source := s\<rparr>"
  "mu_manifest mu = [] \<Longrightarrow> fold mu_set_manifest (present s) mu = mu\<lparr>mu_manifest := s\<rparr>"
  by (induction vs arbitrary: mu)
    (simp_all add: mu_add_tracker_def mu_add_web_seed_def mu_add_acceptable_source_def mu_add_peer_address_def
      present_def mu_set_display_name_def mu_set_exact_source_def mu_set_manifest_def)

text \<open>The size is written when it is not zero; otherwise the one read is indeterminate.\<close>

lemma magnet_round_trip_run:
  assumes "magnet_plain mu"
  shows "rbind (encode_magnet_uri P mu) (make_magnet_uri indet indet_size) =
    Inr (mu\<lparr>mu_size := if mu_size mu = 0 then indet_size else mu_size mu\<rparr>)"
proof -
  have mu: "mu_keywords mu = {}" "mu_topics mu \<noteq> []" "list_all plain_topic (mu_topics mu)" "mu_size mu < size_bound"
    using assms by (simp_all add: magnet_plain_def)
  have "rfold (read_magnet_part indet) (magnet_parts mu) (mu_new indet_size) =
      Inr (mu\<lparr>mu_size := if mu_size mu = 0 then indet_size else mu_size mu\<rparr>)"
    using mu(1)
    by (simp add: magnet_parts_def rfold_append read_topics [OF mu(3), simplified] read_fields [OF read_each(1)]
        read_fields [OF read_each(2)] read_fields [OF read_each(3)] read_fields [OF read_each(4)]
        read_fields [OF read_each(5)] read_fields [OF read_each(6)] read_fields [OF read_each(7)]
        read_size [OF mu(4)] fold_stores mu_new_def mu_set_size_def)
  then show ?thesis
    by (simp add: encode_parts [OF mu(1,2)] make_magnet_uri_def throw_if_def magnet_parts_split [OF assms])
qed

text \<open>
  C16: A magnet link that is encoded and read again is the link it was: topics, display name,
  trackers, web seeds, sources, peers, manifest and a size that is not zero. The link must have a
  topic and no keywords, and no topic may contain \<^verbatim>\<open>&\<close> or \<^verbatim>\<open>%\<close>. A size of zero is not written and comes
  back indeterminate.
\<close>

theorem magnet_round_trip:
  assumes "magnet_plain mu"
  shows "rbind (encode_magnet_uri P mu) (make_magnet_uri indet indet_size) =
    Inr (mu\<lparr>mu_size := if mu_size mu = 0 then indet_size else mu_size mu\<rparr>)"
  by (rule magnet_round_trip_run [OF assms])

definition sample_magnet :: magnet_uri where
  "sample_magnet = (mu_new 0)\<lparr>mu_topics := [''urn:btih:aa'', ''urn:btmh:bb''], mu_display_name := ''a b&c'', mu_size := 120,
     mu_trackers := [''http://t/a?x=1''], mu_manifest := ''m''\<rparr>"

theorem magnet_round_trip_witness:
  "rbind (encode_magnet_uri sample_platform sample_magnet) (make_magnet_uri 7 9) = Inr sample_magnet"
proof -
  have "magnet_plain sample_magnet"
    by (simp add: magnet_plain_def sample_magnet_def mu_new_def plain_topic_def size_bound_def)
  from magnet_round_trip [OF this, of sample_platform 7 9] show ?thesis
    by (simp add: sample_magnet_def)
qed

section \<open>Links that do not survive\<close>

text \<open>With two keywords or more the encoder never returns.\<close>

theorem encode_keywords_diverges:
  assumes "set (pf_string_order P (mu_keywords mu)) = mu_keywords mu" "card (mu_keywords mu) \<ge> 2"
  shows "encode_magnet_uri P mu = Inl Diverges"
proof -
  let ?l = "pf_string_order P (mu_keywords mu)"
  have "2 \<le> length ?l" using card_length [of ?l] assms by simp
  then obtain a b l where "?l = a # b # l" by (cases ?l rule: remdups_adj.cases) auto
  moreover have "mu_keywords mu \<noteq> {}" using assms(2) by auto
  ultimately show ?thesis
    by (simp add: encode_magnet_uri_def encode_magnet_uri_to_def Let_def encode_keywords_def)
qed

text \<open>A single keyword is written without its key, so it becomes the end of the topic.\<close>

theorem keyword_joins_topic:
  assumes "plain_topic t" "CHR ''%'' \<notin> set (percent_encode k)"
  shows "rbind (encode_magnet_uri (P\<lparr>pf_string_order := \<lambda>_. [k]\<rparr>) ((mu_new 0)\<lparr>mu_topics := [t], mu_keywords := {k}\<rparr>))
      (make_magnet_uri indet indet_size) =
    Inr ((mu_new indet_size)\<lparr>mu_topics := [t @ percent_encode k]\<rparr>)"
proof -
  have plain: "plain_topic (t @ percent_encode k)"
    using assms no_separator_encoded [of "CHR ''&''" k] by (auto simp: plain_topic_def)
  have "encode_magnet_uri (P\<lparr>pf_string_order := \<lambda>_. [k]\<rparr>) ((mu_new 0)\<lparr>mu_topics := [t], mu_keywords := {k}\<rparr>) =
      encode_magnet_uri P ((mu_new 0)\<lparr>mu_topics := [t @ percent_encode k]\<rparr>)"
    by (simp add: encode_magnet_uri_def encode_magnet_uri_to_def Let_def encode_keywords_def mu_new_def
        encode_topics_def encode_nonempty_def encode_each_def)
  then show ?thesis
    using magnet_round_trip_run [of "(mu_new 0)\<lparr>mu_topics := [t @ percent_encode k]\<rparr>" P indet indet_size] plain
    by (simp add: magnet_plain_def mu_new_def size_bound_def)
qed

text \<open>Without a topic the first field follows an empty part, and the reader refuses the link.\<close>

theorem no_topic_refused:
  assumes "mu_topics mu = []" "mu_display_name mu \<noteq> []" "mu_keywords mu = {}"
  shows "rbind (encode_magnet_uri P mu) (make_magnet_uri indet indet_size) = Inl Invalid_Argument"
proof -
  have "\<exists>s. encode_magnet_uri P mu = Inr (''magnet:?&'' @ s)"
    using assms
    by (simp add: encode_magnet_uri_def encode_magnet_uri_to_def Let_def encode_keywords_def encode_topics_def
        encode_each_parts encode_nonempty_def encode_field_def present_def)
  moreover have "rbind (split_key_value_pair []) f = Inl Invalid_Argument" for f :: "string \<times> string \<Rightarrow> magnet_uri result"
    by (simp add: split_key_value_pair_def)
  moreover have "split_query_string (CHR ''&'' # s) = [] # split_parts CHR ''&'' s" for s
    unfolding split_query_string_def by (subst split_parts.simps) simp
  ultimately show ?thesis
    by (auto simp: make_magnet_uri_def throw_if_def read_magnet_part_def)
qed

section \<open>Links to metafiles\<close>

lemma hex_string_plain: "list_all (\<lambda>c. hex_digit c \<noteq> None) (hash_hex_string h)"
proof -
  have eq: "hash_hex_string h = to_hexadecimal_string h" using hash_hex_round_trip by blast
  have one: "list_all (\<lambda>c. hex_digit c \<noteq> None) (byte_to_hex b)" for b
    using nibble_bounds [of b] by (simp add: byte_to_hex_nibbles hex_digit_tables del: nibble_bounds)
  show ?thesis unfolding eq to_hexadecimal_string_def
    by (induction h) (simp_all only: list.map concat.simps list_all_append one list.pred_inject simp_thms)
qed

lemma format_topic_plain:
  "format_topic_v1 B P encode m = Inr t \<Longrightarrow> plain_topic t" "format_topic_v2 B P encode m = Inr t \<Longrightarrow> plain_topic t"
proof -
  have "CHR ''&'' \<notin> set (hash_hex_string h)" "CHR ''%'' \<notin> set (hash_hex_string h)" for h
    using hex_string_plain [of h] by (auto simp: list_all_iff hex_digit_def)
  then show "format_topic_v1 B P encode m = Inr t \<Longrightarrow> plain_topic t" "format_topic_v2 B P encode m = Inr t \<Longrightarrow> plain_topic t"
    by (auto simp: format_topic_v1_def format_topic_v2_def result_simps plain_topic_def)
qed

lemma fold_metafile_fields:
  "fold (\<lambda>tr. mu_add_tracker (au_url tr)) as mu = mu\<lparr>mu_trackers := mu_trackers mu @ map au_url as\<rparr>"
  "fold (\<lambda>dn. mu_add_peer_address_port P (dn_url dn) (dn_port dn)) ns mu = mu\<lparr>mu_peer_addresses :=
     mu_peer_addresses mu @ map (\<lambda>n. dn_url n @ '':'' @ pf_decimal P (unat (dn_port n))) ns\<rparr>"
proof -
  show "fold (\<lambda>tr. mu_add_tracker (au_url tr)) as mu = mu\<lparr>mu_trackers := mu_trackers mu @ map au_url as\<rparr>"
    by (induction as arbitrary: mu) (simp_all add: mu_add_tracker_def)
  show "fold (\<lambda>dn. mu_add_peer_address_port P (dn_url dn) (dn_port dn)) ns mu = mu\<lparr>mu_peer_addresses :=
      mu_peer_addresses mu @ map (\<lambda>n. dn_url n @ '':'' @ pf_decimal P (unat (dn_port n))) ns\<rparr>"
    by (induction ns arbitrary: mu) (simp_all add: mu_add_peer_address_port_def mu_add_peer_address_def)
qed

lemma magnet_of_metafile_run:
  assumes "make_magnet_uri_of_metafile B P encode m pv = Inr mu"
  shows "\<exists>ts. Inr ` set ts \<subseteq> {format_topic_v1 B P encode m, format_topic_v2 B P encode m} \<and>
    mu = (mu_new 0)\<lparr>mu_topics := ts, mu_display_name := mf_name m, mu_trackers := map au_url (mf_trackers m),
      mu_web_seeds := mf_web_seeds m,
      mu_peer_addresses := map (\<lambda>n. dn_url n @ '':'' @ pf_decimal P (unat (dn_port n))) (mf_dht_nodes m)\<rparr>"
proof -
  have "add_topic_if c topic mu = Inr mu' \<Longrightarrow> \<exists>ts. Inr ` set ts \<subseteq> {topic} \<and> mu' = mu\<lparr>mu_topics := mu_topics mu @ ts\<rparr>"
    for c topic mu mu'
    by (cases c) (auto simp: add_topic_if_def result_simps mu_add_topic_def intro: exI [of _ "[]"] exI [of _ "[_]"])
  note topic = this
  let ?p = "st_protocol (mf_storage m)" and ?v1 = "format_topic_v1 B P encode m" and ?v2 = "format_topic_v2 B P encode m"
  let ?c1 = "enum_and pv protocol_v1 = protocol_v1" and ?c2 = "enum_and pv protocol_v2 = protocol_v2"
  obtain mu0 where mu0: "(if ?p = protocol_hybrid then rbind (add_topic_if ?c1 ?v1 (mu_new 0)) (add_topic_if ?c2 ?v2)
        else if ?p = protocol_v1 then add_topic_if True ?v1 (mu_new 0)
        else if ?p = protocol_v2 then add_topic_if True ?v2 (mu_new 0) else Inl Invalid_Argument) = Inr mu0"
      and mu: "mu = mu0\<lparr>mu_display_name := mf_name m, mu_trackers := mu_trackers mu0 @ map au_url (mf_trackers m),
        mu_web_seeds := mu_web_seeds mu0 @ mf_web_seeds m, mu_peer_addresses := mu_peer_addresses mu0 @
          map (\<lambda>n. dn_url n @ '':'' @ pf_decimal P (unat (dn_port n))) (mf_dht_nodes m)\<rparr>"
    using assms unfolding make_magnet_uri_of_metafile_def Let_def
    by (auto simp: rbind_Inr_iff fold_metafile_fields fold_stores mu_set_display_name_def)
  have "\<exists>ts. Inr ` set ts \<subseteq> {?v1, ?v2} \<and> mu0 = (mu_new 0)\<lparr>mu_topics := ts\<rparr>"
  proof (cases "?p = protocol_hybrid")
    case True
    then obtain mu1 where mu1: "add_topic_if ?c1 ?v1 (mu_new 0) = Inr mu1" "add_topic_if ?c2 ?v2 mu1 = Inr mu0"
      using mu0 by (auto simp: rbind_Inr_iff)
    obtain ts1 where ts1: "Inr ` set ts1 \<subseteq> {?v1}" "mu1 = (mu_new 0)\<lparr>mu_topics := mu_topics (mu_new 0) @ ts1\<rparr>"
      using topic [OF mu1(1)] by blast
    obtain ts2 where ts2: "Inr ` set ts2 \<subseteq> {?v2}" "mu0 = mu1\<lparr>mu_topics := mu_topics mu1 @ ts2\<rparr>"
      using topic [OF mu1(2)] by blast
    show ?thesis
      using ts1 ts2 by (intro exI [of _ "ts1 @ ts2"]) (auto simp: mu_new_def)
  next
    case False
    then obtain ts topic where "Inr ` set ts \<subseteq> {topic}" "topic \<in> {?v1, ?v2}"
        "mu0 = (mu_new 0)\<lparr>mu_topics := mu_topics (mu_new 0) @ ts\<rparr>"
      using mu0 topic [of True] by (auto split: if_splits) blast+
    then show ?thesis by (intro exI [of _ ts]) (auto simp: mu_new_def)
  qed
  then show ?thesis using mu by (auto simp: mu_new_def)
qed



end
