(* ===== verification/Hasher_Backends.thy ===== *)
theory Hasher_Backends
  imports Hasher
begin

text \<open>
  The classes behind the single-buffer interface: which hash functions each cryptographic library is
  asked for (\<^verbatim>\<open>hasher/openssl_hasher.hpp\<close>, \<^verbatim>\<open>hasher/wincng_hasher.hpp\<close>, \<^verbatim>\<open>hasher/wolfssl_hasher.hpp\<close>,
  \<^verbatim>\<open>hasher/isal_multi_buffer_hasher.hpp\<close>), the wrapper around the EVP functions of OpenSSL
  (\<^verbatim>\<open>hasher/backends/openssl.cpp\<close>) and how the digest words of ISA-L become bytes. What the libraries
  compute, and which of their calls fail, are parameters.
\<close>

section \<open>Algorithms of OpenSSL\<close>

datatype message_digest_algorithm =
    evp_md2 | evp_md4 | evp_md5 | evp_md5_sha1 | evp_blake2b512 | evp_blake2s256 | evp_sha1 | evp_sha224
  | evp_sha256 | evp_sha384 | evp_sha512 | evp_sha512_224 | evp_sha512_256 | evp_sha3_224 | evp_sha3_256
  | evp_sha3_384 | evp_sha3_512 | evp_shake128 | evp_shake256 | evp_mdc2 | evp_ripemd160 | evp_whirlpool
  | evp_sm3

definition supported_hash_functions_openssl :: "hash_function list" where
  "supported_hash_functions_openssl =
     [md4, md5, blake2b_512, blake2s_256, sha1, sha224, sha256, sha384, sha512, sha3_224, sha3_256, sha3_384,
      sha3_512, shake128, shake256, ripemd160, whirlpool]"

fun get_openssl_algorithm :: "hash_function \<Rightarrow> message_digest_algorithm result" where
  "get_openssl_algorithm md4 = Inr evp_md4"
| "get_openssl_algorithm md5 = Inr evp_md5"
| "get_openssl_algorithm blake2b_512 = Inr evp_blake2b512"
| "get_openssl_algorithm blake2s_256 = Inr evp_blake2s256"
| "get_openssl_algorithm sha1 = Inr evp_sha1"
| "get_openssl_algorithm sha224 = Inr evp_sha224"
| "get_openssl_algorithm sha256 = Inr evp_sha256"
| "get_openssl_algorithm sha384 = Inr evp_sha384"
| "get_openssl_algorithm sha512 = Inr evp_sha512"
| "get_openssl_algorithm sha3_224 = Inr evp_sha3_224"
| "get_openssl_algorithm sha3_256 = Inr evp_sha3_256"
| "get_openssl_algorithm sha3_384 = Inr evp_sha3_384"
| "get_openssl_algorithm sha3_512 = Inr evp_sha3_512"
| "get_openssl_algorithm shake128 = Inr evp_shake128"
| "get_openssl_algorithm shake256 = Inr evp_shake256"
| "get_openssl_algorithm ripemd160 = Inr evp_ripemd160"
| "get_openssl_algorithm whirlpool = Inr evp_whirlpool"
| "get_openssl_algorithm _ = Inl Invalid_Argument"

text \<open>The features a build of OpenSSL may lack: the \<^verbatim>\<open>OPENSSL_NO_\<close> macros the switch looks at.\<close>

datatype openssl_feature =
    feature_md2 | feature_md4 | feature_md5 | feature_blake2 | feature_mdc2 | feature_rmd160
  | feature_whirlpool | feature_sm3

fun feature_of :: "message_digest_algorithm \<Rightarrow> openssl_feature option" where
  "feature_of evp_md2 = Some feature_md2"
| "feature_of evp_md4 = Some feature_md4"
| "feature_of evp_md5 = Some feature_md5"
| "feature_of evp_md5_sha1 = Some feature_md5"
| "feature_of evp_blake2b512 = Some feature_blake2"
| "feature_of evp_blake2s256 = Some feature_blake2"
| "feature_of evp_mdc2 = Some feature_mdc2"
| "feature_of evp_ripemd160 = Some feature_rmd160"
| "feature_of evp_whirlpool = Some feature_whirlpool"
| "feature_of evp_sm3 = Some feature_sm3"
| "feature_of _ = None"

text \<open>\<open>None\<close> is the null pointer the switch returns for an algorithm the build lacks.\<close>

definition get_evp_message_digest ::
    "openssl_feature list \<Rightarrow> message_digest_algorithm \<Rightarrow> message_digest_algorithm option" where
  "get_evp_message_digest missing algorithm =
     (case feature_of algorithm of
        Some feature \<Rightarrow> if feature \<in> set missing then None else Some algorithm
      | None \<Rightarrow> Some algorithm)"

section \<open>The wrapper of the EVP functions\<close>

text \<open>
  OpenSSL as it was built and as it behaves: the missing features, whether a context can be allocated,
  which digests \<^verbatim>\<open>EVP_DigestInit_ex\<close> accepts (a provider may refuse an old one), and the digests.
\<close>

record openssl_library =
  ol_missing :: "openssl_feature list"
  ol_context_new :: bool
  ol_init :: "message_digest_algorithm \<Rightarrow> bool"
  ol_digest :: "message_digest_algorithm \<Rightarrow> byte list \<Rightarrow> byte list"

record message_digest =
  md_algorithm :: message_digest_algorithm
  md_absorbed :: "byte list"

definition message_digest_new :: "openssl_library \<Rightarrow> message_digest_algorithm \<Rightarrow> message_digest result" where
  "message_digest_new L algorithm =
     rbind (throw_if (\<not> ol_context_new L) System_Error) (\<lambda>_.
     case get_evp_message_digest (ol_missing L) algorithm of
       None \<Rightarrow> Inl System_Error
     | Some a \<Rightarrow> rbind (throw_if (\<not> ol_init L a) System_Error) (\<lambda>_.
         Inr \<lparr>md_algorithm = a, md_absorbed = []\<rparr>))"

definition message_digest_update :: "byte list \<Rightarrow> message_digest \<Rightarrow> message_digest" where
  "message_digest_update data md = md\<lparr>md_absorbed := md_absorbed md @ data\<rparr>"

text \<open>
  \<^verbatim>\<open>EVP_DigestFinal_ex\<close> writes the whole digest to the buffer it is given, whose size it does not know.
\<close>

definition message_digest_finalize_to ::
    "openssl_library \<Rightarrow> byte list \<Rightarrow> message_digest \<Rightarrow> byte list result" where
  "message_digest_finalize_to L buffer md =
     (let digest = ol_digest L (md_algorithm md) (md_absorbed md) in
      if length digest \<le> length buffer then Inr (digest @ drop (length digest) buffer) else Inl Undefined)"

definition message_digest_reset :: "openssl_library \<Rightarrow> message_digest \<Rightarrow> message_digest result" where
  "message_digest_reset L md =
     rbind (throw_if (\<not> ol_init L (md_algorithm md)) System_Error) (\<lambda>_. Inr (md\<lparr>md_absorbed := []\<rparr>))"

definition openssl_hasher_new :: "openssl_library \<Rightarrow> hash_function \<Rightarrow> message_digest result" where
  "openssl_hasher_new L f = rbind (get_openssl_algorithm f) (message_digest_new L)"

definition openssl_hasher_update :: "byte list \<Rightarrow> message_digest \<Rightarrow> message_digest" where
  "openssl_hasher_update = message_digest_update"

definition openssl_hasher_finalize_to ::
    "openssl_library \<Rightarrow> byte list \<Rightarrow> message_digest \<Rightarrow> (byte list \<times> message_digest) result" where
  "openssl_hasher_finalize_to L out h =
     rbind (message_digest_finalize_to L out h) (\<lambda>out.
     rbind (message_digest_reset L h) (\<lambda>h. Inr (out, h)))"

definition make_hash_openssl :: "openssl_library \<Rightarrow> hash_function \<Rightarrow> byte list \<Rightarrow> hash result" where
  "make_hash_openssl L f data =
     rbind (openssl_hasher_new L f) (\<lambda>hasher.
     rbind (openssl_hasher_finalize_to L (hash_zero (size_bytes f)) (openssl_hasher_update data hasher)) (\<lambda>(result, _).
       Inr result))"

lemmas openssl_defs =
  openssl_hasher_new_def openssl_hasher_update_def openssl_hasher_finalize_to_def message_digest_new_def
  message_digest_update_def message_digest_finalize_to_def message_digest_reset_def

text \<open>The sizes OpenSSL documents for the digests the library asks for.\<close>

fun evp_size :: "message_digest_algorithm \<Rightarrow> nat" where
  "evp_size evp_md4 = 16"
| "evp_size evp_md5 = 16"
| "evp_size evp_blake2b512 = 64"
| "evp_size evp_blake2s256 = 32"
| "evp_size evp_sha1 = 20"
| "evp_size evp_sha224 = 28"
| "evp_size evp_sha256 = 32"
| "evp_size evp_sha384 = 48"
| "evp_size evp_sha512 = 64"
| "evp_size evp_sha3_224 = 28"
| "evp_size evp_sha3_256 = 32"
| "evp_size evp_sha3_384 = 48"
| "evp_size evp_sha3_512 = 64"
| "evp_size evp_shake128 = 16"
| "evp_size evp_shake256 = 32"
| "evp_size evp_ripemd160 = 20"
| "evp_size evp_whirlpool = 64"
| "evp_size _ = 0"

definition openssl_laws :: "openssl_library \<Rightarrow> bool" where
  "openssl_laws L \<longleftrightarrow>
     (\<forall>f a data. get_openssl_algorithm f = Inr a \<longrightarrow> length (ol_digest L a data) = evp_size a)"

section \<open>The other libraries\<close>

definition supported_hash_functions_wincng :: "hash_function list" where
  "supported_hash_functions_wincng = [md4, md5, sha1, sha256, sha384, sha512]"

datatype wincng_algorithm =
    wincng_md4 | wincng_md5 | wincng_sha1 | wincng_sha256 | wincng_sha384 | wincng_sha512

fun get_wincng_algorithm :: "hash_function \<Rightarrow> wincng_algorithm result" where
  "get_wincng_algorithm md4 = Inr wincng_md4"
| "get_wincng_algorithm md5 = Inr wincng_md5"
| "get_wincng_algorithm sha1 = Inr wincng_sha1"
| "get_wincng_algorithm sha256 = Inr wincng_sha256"
| "get_wincng_algorithm sha384 = Inr wincng_sha384"
| "get_wincng_algorithm sha512 = Inr wincng_sha512"
| "get_wincng_algorithm _ = Inl Invalid_Argument"

text \<open>wolfSSL may be built with MD2 and without MD4; the set of functions follows, the constructor does not.\<close>

definition supported_hash_functions_wolfssl :: "bool \<Rightarrow> bool \<Rightarrow> hash_function list" where
  "supported_hash_functions_wolfssl has_md2 has_md4 =
     (if has_md2 then [md2] else []) @ (if has_md4 then [md4] else []) @ [md5, sha1, sha256, sha512]"

definition wolfssl_hasher_new :: "hash_function \<Rightarrow> hash_function result" where
  "wolfssl_hasher_new f = rbind (throw_if (f \<notin> {md5, sha1, sha256, sha512}) Invalid_Argument) (\<lambda>_. Inr f)"

definition supported_hash_functions_isal :: "hash_function list" where
  "supported_hash_functions_isal = [md5, sha1, sha256, sha512]"

definition isal_multi_buffer_hasher_new :: "hash_function \<Rightarrow> (hash_function \<times> multi_hasher) result" where
  "isal_multi_buffer_hasher_new f =
     rbind (throw_if (f \<notin> {md5, sha1, sha256, sha512}) Invalid_Argument) (\<lambda>_. Inr (f, []))"

text \<open>The choice of the build, in the order of the preprocessor's tests in \<^verbatim>\<open>hasher/factory.hpp\<close>.\<close>

datatype backend = Openssl | Wincng | Wolfssl (has_md2: bool) (has_md4: bool)

definition hasher_supported_algorithms :: "backend \<Rightarrow> hash_function list" where
  "hasher_supported_algorithms b =
     (case b of Openssl \<Rightarrow> supported_hash_functions_openssl | Wincng \<Rightarrow> supported_hash_functions_wincng
      | Wolfssl a c \<Rightarrow> supported_hash_functions_wolfssl a c)"

text \<open>\<^verbatim>\<open>make_hasher\<close>, as far as the choice of an algorithm goes.\<close>

definition make_hasher :: "backend \<Rightarrow> hash_function \<Rightarrow> unit result" where
  "make_hasher b f =
     (case b of Openssl \<Rightarrow> rbind (get_openssl_algorithm f) (\<lambda>_. Inr ())
      | Wincng \<Rightarrow> rbind (get_wincng_algorithm f) (\<lambda>_. Inr ())
      | Wolfssl a c \<Rightarrow> rbind (wolfssl_hasher_new f) (\<lambda>_. Inr ()))"

definition make_multi_buffer_hasher :: "bool \<Rightarrow> hash_function \<Rightarrow> (hash_function \<times> multi_hasher) option result" where
  "make_multi_buffer_hasher isal f =
     (if isal then rbind (isal_multi_buffer_hasher_new f) (\<lambda>h. Inr (Some h)) else Inr None)"

section \<open>Digest words of ISA-L\<close>

text \<open>
  Every word of the context's digest goes through \<^verbatim>\<open>to_be32\<close> and four bytes of it are copied. The words are
  32 bits wide, except those of SHA-512, which have 64 bits and lose their upper halves.
\<close>

definition to_be32 :: "32 word \<Rightarrow> byte list" where
  "to_be32 w = map (\<lambda>k. ucast (drop_bit (24 - 8 * k) w)) [0..<4]"

definition write_at :: "nat \<Rightarrow> byte list \<Rightarrow> byte list \<Rightarrow> byte list result" where
  "write_at i bs buffer =
     (if i + length bs \<le> length buffer then Inr (take i buffer @ bs @ drop (i + length bs) buffer) else Inl Undefined)"

definition isal_write_digest :: "('w::len word) list \<Rightarrow> byte list \<Rightarrow> byte list result" where
  "isal_write_digest words buffer =
     rfold (\<lambda>i buffer. write_at (i * 4) (to_be32 (ucast (words ! i))) buffer) [0..<length words] buffer"

lemma length_to_be32 [simp]: "length (to_be32 w) = 4"
  by (simp add: to_be32_def)


section \<open>Facts\<close>

lemma openssl_algorithm_iff: "(\<exists>a. get_openssl_algorithm f = Inr a) \<longleftrightarrow> f \<in> set supported_hash_functions_openssl"
  by (cases f) (simp_all add: supported_hash_functions_openssl_def)

lemma evp_size_bytes:
  "get_openssl_algorithm f = Inr a \<Longrightarrow>
   if f = sha3_384 then evp_size a = 48 \<and> size_bytes f = 35 else evp_size a = size_bytes f"
  by (cases f) (auto simp: size_bytes_def bits_literal_def)

lemma openssl_new_iff:
  "openssl_hasher_new L f = Inr h \<longleftrightarrow>
   (\<exists>a. get_openssl_algorithm f = Inr a \<and> ol_context_new L \<and> get_evp_message_digest (ol_missing L) a = Some a \<and>
     ol_init L a \<and> h = \<lparr>md_algorithm = a, md_absorbed = []\<rparr>)"
proof -
  have same: "get_evp_message_digest missing a = Some b \<Longrightarrow> b = a" for missing a b
    by (auto simp: get_evp_message_digest_def split: option.splits if_splits)
  show ?thesis
    by (auto simp: openssl_defs result_simps split: option.splits dest: same)
qed

lemma openssl_updates:
  "rfold (\<lambda>c h. Inr (openssl_hasher_update c h)) chunks h = Inr (h\<lparr>md_absorbed := md_absorbed h @ concat chunks\<rparr>)"
  by (induction chunks arbitrary: h) (simp_all add: openssl_defs)

text \<open>
  C36: An OpenSSL hasher is the streaming hasher of the model: whatever chunks are absorbed, finishing
  gives the digest of their concatenation and a hasher as new, which can be used for the next message. The
  exception is \<open>sha3_384\<close>: its hash class has 35 bytes and OpenSSL writes 48 of them.
\<close>

theorem openssl_hasher_refines:
  assumes "openssl_laws L" "openssl_hasher_new L f = Inr h" "length buffer = size_bytes f"
  shows "\<exists>a. get_openssl_algorithm f = Inr a \<and>
    rbind (rfold (\<lambda>c h. Inr (openssl_hasher_update c h)) chunks h) (openssl_hasher_finalize_to L buffer) =
    (if f = sha3_384 then Inl Undefined
     else Inr (fst (hasher_finalize (ol_digest L a) (fold hasher_update chunks hasher_new)), h))"
proof -
  obtain a where a: "get_openssl_algorithm f = Inr a" "ol_init L a" "h = \<lparr>md_algorithm = a, md_absorbed = []\<rparr>"
    using assms(2) by (auto simp: openssl_new_iff)
  have absorbed: "fold hasher_update chunks h0 = h0 @ concat chunks" for h0
    by (induction chunks arbitrary: h0) (simp_all add: hasher_defs)
  have "length (ol_digest L a (concat chunks)) = evp_size a"
    using assms(1) a(1) by (simp add: openssl_laws_def)
  then have final: "openssl_hasher_finalize_to L buffer (h\<lparr>md_absorbed := concat chunks\<rparr>) =
      (if evp_size a \<le> length buffer
       then Inr (ol_digest L a (concat chunks) @ drop (evp_size a) buffer, h) else Inl Undefined)"
    using a by (simp add: openssl_hasher_finalize_to_def message_digest_finalize_to_def message_digest_reset_def)
  have run: "rfold (\<lambda>c h. Inr (openssl_hasher_update c h)) chunks h = Inr (h\<lparr>md_absorbed := concat chunks\<rparr>)"
    using openssl_updates [of chunks h] a(3) by simp
  show ?thesis
    using evp_size_bytes [OF a(1)] assms(3) a(1)
    by (intro exI [of _ a]) (auto simp: run final absorbed hasher_finalize_def hasher_new_def split: if_splits)
qed

definition sample_openssl :: openssl_library where
  "sample_openssl = \<lparr>ol_missing = [feature_md2], ol_context_new = True, ol_init = (\<lambda>_. True),
     ol_digest = (\<lambda>a data. take (evp_size a) (data @ replicate (evp_size a) 0))\<rparr>"

theorem openssl_hasher_refines_witness:
  "\<exists>h. openssl_hasher_new sample_openssl sha1 = Inr h \<and>
     rbind (rfold (\<lambda>c h. Inr (openssl_hasher_update c h)) [[1, 2], [3]] h)
       (openssl_hasher_finalize_to sample_openssl (hash_zero 20)) = Inr ([1, 2, 3] @ replicate 17 0, h)"
proof -
  let ?h = "\<lparr>md_algorithm = evp_sha1, md_absorbed = []\<rparr>"
  have laws: "openssl_laws sample_openssl" by (auto simp: openssl_laws_def sample_openssl_def)
  have new: "openssl_hasher_new sample_openssl sha1 = Inr ?h"
    by (simp add: openssl_new_iff sample_openssl_def get_evp_message_digest_def)
  have "length (hash_zero 20) = size_bytes sha1" by (simp add: size_bytes_def bits_literal_def)
  from openssl_hasher_refines [OF laws new this, of "[[1, 2], [3]]"]
  have "rbind (rfold (\<lambda>c h. Inr (openssl_hasher_update c h)) [[1, 2], [3]] ?h)
      (openssl_hasher_finalize_to sample_openssl (hash_zero 20)) = Inr ([1, 2, 3] @ replicate 17 0, ?h)"
    by (simp add: hasher_defs sample_openssl_def numeral_eq_Suc)
  with new show ?thesis by blast
qed

text \<open>
  The functions a backend says it supports are those its hasher accepts, with one exception: wolfSSL built
  with MD2 or MD4 offers them and refuses to make a hasher for them.
\<close>

theorem backend_supported:
  "make_hasher b f =
     (if f \<in> set (hasher_supported_algorithms b) \<and> \<not> (\<exists>has_md2 has_md4. b = Wolfssl has_md2 has_md4 \<and> f \<in> {md2, md4})
      then Inr () else Inl Invalid_Argument)"
  by (cases b; cases f; simp add: hasher_supported_algorithms_def make_hasher_def wolfssl_hasher_new_def
      supported_hash_functions_openssl_def supported_hash_functions_wincng_def supported_hash_functions_wolfssl_def)

lemma make_hash_openssl_runs:
  assumes "openssl_laws L" "openssl_hasher_new L f = Inr h" "f \<noteq> sha3_384" "get_openssl_algorithm f = Inr a"
  shows "make_hash_openssl L f data = Inr (make_hash (ol_digest L a) data)"
proof -
  have "length (ol_digest L a data) = size_bytes f"
    using assms(1,3,4) evp_size_bytes [OF assms(4)] by (simp add: openssl_laws_def)
  moreover have "ol_init L a" "h = \<lparr>md_algorithm = a, md_absorbed = []\<rparr>"
    using assms(2,4) by (auto simp: openssl_new_iff)
  ultimately show ?thesis
    using assms(2)
    by (simp add: make_hash_openssl_def openssl_hasher_update_def openssl_hasher_finalize_to_def message_digest_update_def
        message_digest_finalize_to_def message_digest_reset_def hasher_defs hash_zero_def)
qed

text \<open>The words of a digest follow each other in the buffer, four bytes each.\<close>

lemma isal_write_prefix:
  assumes "n * 4 \<le> length buffer" "n \<le> length words"
  shows "rfold (\<lambda>i buffer. write_at (i * 4) (to_be32 (ucast (words ! i))) buffer) [0..<n] buffer
    = Inr (concat (map (\<lambda>w. to_be32 (ucast w)) (take n words)) @ drop (n * 4) buffer)"
  using assms
proof (induction n)
  case (Suc n)
  let ?written = "concat (map (\<lambda>w. to_be32 (ucast w)) (take n words))"
  have len: "length ?written = n * 4"
    using Suc.prems by (simp add: length_concat comp_def sum_list_triv min_absorb2)
  with Suc show ?case
    by (simp add: rfold_append write_at_def take_Suc_conv_app_nth add.commute)
qed simp

text \<open>
  The digest of SHA-512 has eight words of 64 bits: the lower halves fill the first 32 bytes of the hash and
  the other 32 bytes stay as they were.
\<close>

theorem isal_sha512_cut:
  fixes words :: "64 word list"
  assumes "length words = 8" "length buffer = size_bytes sha512"
  shows "isal_write_digest words buffer =
    Inr (concat (map (\<lambda>w. to_be32 (ucast w)) words) @ drop 32 buffer)"
  using isal_write_prefix [of 8 buffer words] assms by (simp add: isal_write_digest_def size_bytes_def bits_literal_def)

theorem isal_sha512_cut_witness:
  "isal_write_digest (replicate 8 (2 ^ 32 :: 64 word)) (hash_zero 64) = Inr (hash_zero 64)"
proof -
  have zero: "to_be32 (ucast (2 ^ 32 :: 64 word)) = [0, 0, 0, 0]" by (simp add: to_be32_def upt_rec)
  have "concat (map (\<lambda>w. to_be32 (ucast w)) (replicate 8 (2 ^ 32 :: 64 word))) = concat (replicate 8 [0, 0, 0, 0])"
    unfolding map_replicate zero by (rule refl)
  moreover have "concat (replicate 8 [0, 0, 0, 0]) = hash_zero 32"
    by (simp add: hash_zero_def numeral_eq_Suc)
  moreover have "hash_zero 32 @ drop 32 (hash_zero 64) = hash_zero 64"
    by (simp add: hash_zero_def flip: replicate_add)
  ultimately show ?thesis
    using isal_sha512_cut [of "replicate 8 (2 ^ 32)" "hash_zero 64"]
    by (simp only: length_replicate size_bytes_def digest_bits.simps bits_literal_def option.case length_hash_zero)
      simp
qed

end
