(* ===== verification/Piece_Layers.thy ===== *)
theory Piece_Layers
  imports Piece_Writers
begin

text \<open>
  \<^verbatim>\<open>verify_piece_layers\<close> of \<^verbatim>\<open>file_storage.hpp\<close>: a tree over the piece layer of every file, whose root is
  compared with the root the file has. A layer is padded to a power of two with zero digests, which is
  not what BEP 52 puts there, and files without a layer are compared as well.
\<close>

section \<open>The check\<close>

definition mt_update_default :: "bool \<Rightarrow> digest_function \<Rightarrow> merkle_tree \<Rightarrow> merkle_tree result" where
  "mt_update_default isal H t =
     (if isal then rbind (mt_update_mb H [] t) (\<lambda>(_, t). Inr t)
      else rbind (mt_update H hasher_new t) (\<lambda>(_, t). Inr t))"

definition verify_entry_layers :: "bool \<Rightarrow> digest_function \<Rightarrow> file_entry \<Rightarrow> bool result" where
  "verify_entry_layers isal H entry =
     rbind (fe_get_piece_layer entry) (\<lambda>layers.
     rbind (set_leaf_nodes (length layers) (hash_zero 32)) (\<lambda>tree.
     rbind (rfold (\<lambda>idx. set_leaf idx (layers ! idx)) [0..<length layers] tree) (\<lambda>tree.
     rbind (mt_update_default isal H tree) (\<lambda>tree.
     rbind (mt_root tree) (\<lambda>root.
     rbind (fe_get_pieces_root entry) (\<lambda>pieces_root. Inr (root = pieces_root)))))))"

definition verify_piece_layers :: "bool \<Rightarrow> digest_function \<Rightarrow> file_storage \<Rightarrow> bool list result" where
  "verify_piece_layers isal H st =
     rfold (\<lambda>entry out. rbind (verify_entry_layers isal H entry) (\<lambda>b. Inr (out @ [b]))) (st_files st) []"

section \<open>What it compares\<close>

definition padded_root :: "digest_function \<Rightarrow> hash list \<Rightarrow> hash" where
  "padded_root H layers =
     merkle_hash H (\<lambda>j. if j < length layers then layers ! j else hash_zero 32) (log2_ceil (length layers)) 0"

lemma set_leaves:
  assumes "mt_ok h t" "n \<le> length xs" "length xs \<le> 2 ^ h"
  shows "\<exists>t'. rfold (\<lambda>i. set_leaf i (xs ! i)) [0..<n] t = Inr t' \<and> mt_ok h t' \<and>
    (\<forall>j < 2 ^ h. t' ! flat h j = (if j < n then xs ! j else t ! flat h j))"
  using assms(2)
proof (induction n)
  case (Suc n)
  then obtain t' where t': "rfold (\<lambda>i. set_leaf i (xs ! i)) [0..<n] t = Inr t'" "mt_ok h t'"
      "\<forall>j < 2 ^ h. t' ! flat h j = (if j < n then xs ! j else t ! flat h j)"
    by auto
  have n: "n < 2 ^ h" using Suc.prems assms(3) by simp
  have "set_leaf n (xs ! n) t' = Inr (t'[flat h n := xs ! n])"
    using node_access(2) [OF t'(2) order.refl n] tree_height_ok [OF t'(2)] by (simp add: set_leaf_def)
  then show ?case
    using t' n flat_bound [OF t'(2) order.refl]
    by (auto simp: rfold_append nth_list_update flat_inj less_Suc_eq)
qed (use assms(1) in auto)

text \<open>With the single-buffer hasher the check compares the root with that of the layer and zeros behind it.\<close>

lemma verify_entry_root:
  assumes "fe_has_v2_data e" "fe_piece_layer e \<noteq> []" "length (fe_piece_layer e) \<le> 2 ^ 30"
  shows "verify_entry_layers False H e = Inr (padded_root H (fe_piece_layer e) = fe_pieces_root e)"
proof -
  let ?xs = "fe_piece_layer e" and ?z = "hash_zero 32"
  let ?h = "log2_ceil (length ?xs)"
  let ?t = "replicate (2 ^ Suc ?h - 1) ?z"
  have pos: "0 < length ?xs" using assms(2) by simp
  note ok = set_leaf_nodes_ok(1,2) [OF pos assms(3), of ?z] set_leaf_nodes_ok(3) [OF pos assms(3)]
  obtain t where t: "rfold (\<lambda>i. set_leaf i (?xs ! i)) [0..<length ?xs] ?t = Inr t" "mt_ok ?h t"
      "\<forall>j < 2 ^ ?h. t ! flat ?h j = (if j < length ?xs then ?xs ! j else ?t ! flat ?h j)"
    using set_leaves [OF ok(2) order.refl ok(3)] by blast
  have leaf: "t ! flat ?h j = (if j < length ?xs then ?xs ! j else ?z)" if "j < 2 ^ ?h" for j
    using t(3) that flat_bound [OF ok(2) order.refl that] by simp
  obtain t' where t': "mt_update H hasher_new t = Inr (hasher_new, t')" "hashed_down_to H ?h t 0 t'"
    using mt_update_hashes [OF t(2), of H] by blast
  have ok': "mt_ok ?h t'" using t'(2) by (simp add: hashed_down_to_def)
  have "merkle_hash H (\<lambda>j. t ! flat ?h j) ?h 0 = padded_root H ?xs"
    unfolding padded_root_def by (rule merkle_hash_cong) (simp add: leaf)
  then have "t' ! flat 0 0 = padded_root H ?xs"
    using t'(2) by (simp add: hashed_down_to_def)
  then have "mt_root t' = Inr (padded_root H ?xs)"
    using flat_bound [OF ok', of 0 0] by (cases t') (simp_all add: mt_root_def flat_def)
  then show ?thesis
    using assms(1) ok(1) t(1) t'(1)
    by (simp add: verify_entry_layers_def fe_get_piece_layer_def fe_get_pieces_root_def mt_update_default_def)
qed

section \<open>The layers that were written\<close>

lemma merkle_hash_layers: "merkle_hash H leaf (a + b) i = merkle_hash H (merkle_hash H leaf b) a i"
  by (induction a arbitrary: i) simp_all

lemma layer_height:
  assumes "k < tree_height_of data" "file_blocks data \<le> 2 ^ 30" "data \<noteq> []"
  shows "log2_ceil (ceil_div (length data) (2 ^ k * v2_block_size)) = tree_height_of data - k"
    and "0 < ceil_div (length data) (2 ^ k * v2_block_size)"
    and "ceil_div (length data) (2 ^ k * v2_block_size) \<le> file_blocks data"
proof -
  let ?h = "tree_height_of data" and ?n = "ceil_div (length data) (2 ^ k * v2_block_size)"
  have h: "?h = log2_ceil (file_blocks data)" by (simp add: tree_height_of_def file_blocks_def)
  have pos: "0 < file_blocks data"
    using assms(3) file_blocks_0 [of data] by (simp only: neq0_conv [symmetric] simp_thms)
  note B = set_leaf_nodes_ok(3,4) [OF pos assms(2), folded h]
  have le: "?n \<le> m \<longleftrightarrow> file_blocks data \<le> m * 2 ^ k" for m
    by (simp add: file_blocks_def ceil_div_le_iff ac_simps)
  have split: "(2::nat) ^ ?h = 2 ^ (?h - k) * 2 ^ k" "(2::nat) ^ (?h - 1) = 2 ^ (?h - k - 1) * 2 ^ k"
    using assms(1) by (simp_all flip: power_add)
  have upper: "?n \<le> 2 ^ (?h - k)" unfolding le using B(1) split(1) by simp
  have lower: "2 ^ (?h - k - 1) < ?n"
    using B(2) assms(1) le [of "2 ^ (?h - k - 1)"] split(2) by (simp add: not_le [symmetric])
  show pos_n: "0 < ?n" using lower by simp
  show small: "?n \<le> file_blocks data" unfolding le by simp
  have "?n \<le> 2 ^ 30" using small assms(2) by simp
  note L = set_leaf_nodes_ok(3,4) [OF pos_n this]
  show "log2_ceil ?n = ?h - k"
  proof (rule antisym)
    show "log2_ceil ?n \<le> ?h - k"
    proof (rule ccontr)
      assume "\<not> log2_ceil ?n \<le> ?h - k"
      then have "(2::nat) ^ (?h - k) \<le> 2 ^ (log2_ceil ?n - 1)" by (intro power_increasing) auto
      moreover have "2 ^ (log2_ceil ?n - 1) < ?n" using L(2) \<open>\<not> log2_ceil ?n \<le> ?h - k\<close> by simp
      ultimately show False using upper by linarith
    qed
    show "?h - k \<le> log2_ceil ?n"
    proof (rule ccontr)
      assume "\<not> ?h - k \<le> log2_ceil ?n"
      then have "(2::nat) ^ log2_ceil ?n \<le> 2 ^ (?h - k - 1)" by (intro power_increasing) auto
      with L(1) lower show False by linarith
    qed
  qed
qed



lemma two_pieces:
  "tree_height_of two_blocks = 1" "file_blocks two_blocks = 2" "two_blocks \<noteq> []"
  using two_blocks_facts by (simp_all add: file_blocks_def)


section \<open>Where it is wrong\<close>

text \<open>
  A layer of three digests is padded with a zero digest, where the tree of the file has the digest of a pair of
  zero blocks, or of a larger tree of them: the answer is no for most files.
\<close>

theorem odd_layer_padded_with_zero:
  assumes "fe_has_v2_data e" "fe_piece_layer e = [a, b, c]"
  shows "verify_entry_layers False H e = Inr (H (H (a @ b) @ H (c @ hash_zero 32)) = fe_pieces_root e)"
proof -
  have h: "log2_ceil 3 = 2"
    using log2_floor_unique [of 2 5] by (simp add: log2_ceil_def size_mul_def size_sub_def size_bound_def)
  have "padded_root H [a, b, c] = H (H (a @ b) @ H (c @ hash_zero 32))"
    using h by (simp add: padded_root_def numeral_eq_Suc)
  then show ?thesis using verify_entry_root [of e H] assms by simp
qed

text \<open>
  A file of at most one piece has no layer, and its root is compared with the digest of two zero digests; an entry
  without v2 data, such as a padding file, makes the whole check fail.
\<close>

theorem missing_layer_compared:
  assumes "fe_has_v2_data e" "fe_piece_layer e = []"
  shows "verify_entry_layers False H e = Inr (H (hash_zero 32 @ hash_zero 32) = fe_pieces_root e)"
proof -
  have tree: "set_leaf_nodes 0 (hash_zero 32) = Inr (replicate 3 (hash_zero 32))" "mt_ok 1 (replicate 3 (hash_zero 32))"
    by (simp_all add: set_leaf_nodes_def total_node_count_for_height_def shl_u32_def u32_def pred_u32_def mt_ok_def)
  obtain t where t: "mt_update H hasher_new (replicate 3 (hash_zero 32)) = Inr (hasher_new, t)"
      "hashed_down_to H 1 (replicate 3 (hash_zero 32)) 0 t"
    using mt_update_hashes [OF tree(2), of H] by blast
  then have "t ! flat 0 0 = merkle_hash H (\<lambda>j. replicate 3 (hash_zero 32) ! flat 1 j) 1 0" "mt_ok 1 t"
    by (simp_all add: hashed_down_to_def)
  then have "mt_root t = Inr (H (hash_zero 32 @ hash_zero 32))"
    by (cases t) (simp_all add: mt_root_def flat_def mt_ok_def)
  then show ?thesis
    using assms tree(1) t(1)
    by (simp add: verify_entry_layers_def fe_get_piece_layer_def fe_get_pieces_root_def mt_update_default_def)
qed

theorem layers_need_v2_data:
  assumes "verify_piece_layers isal H st = Inr bs" "e \<in> set (st_files st)"
  shows "fe_has_v2_data e"
proof -
  have "fe_has_v2_data e"
    if "rfold (\<lambda>entry out. rbind (verify_entry_layers isal H entry) (\<lambda>b. Inr (out @ [b]))) es out = Inr bs" "e \<in> set es"
    for es out
    using that
    by (induction es arbitrary: out) (auto simp: result_simps verify_entry_layers_def fe_get_piece_layer_def)
  then show ?thesis using assms by (auto simp: verify_piece_layers_def)
qed

end
