(* ===== verification/V2_Pipeline.thy ===== *)
theory V2_Pipeline
  imports Pipelines
begin

text \<open>
  The stages of \<^verbatim>\<open>storage_hasher\<close> for a v2 torrent put together: the v2 reader, the hashing threads with
  either of the two v2 hashers, and the v2 writer.
\<close>

section \<open>Results of a chunk\<close>

text \<open>What a thread with an empty queue queues for one chunk, with the multi-buffer hasher or the other one.\<close>

definition v2_results :: "digest_function \<Rightarrow> file_storage \<Rightarrow> bool \<Rightarrow> data_chunk \<Rightarrow> v2_hashed_piece list" where
  "v2_results H st multi c =
     (case (if multi then rbind (hash_chunk_v2_mb H H st False [] c (([], []), idle_hasher)) (\<lambda>(_, s). Inr s)
            else rbind (hash_chunk_v2_sb H H st False [] c ((hasher_new, hasher_new), idle_hasher)) (\<lambda>(_, s). Inr s)) of
        Inr s \<Rightarrow> the (ch_v2_queue s)
      | Inl _ \<Rightarrow> [])"

lemma v2_results_data:
  assumes "dc_file_index c < st_file_count st" "dc_data c = Some data" "data \<noteq> []"
  shows "v2_results H st multi c = chunk_leaves H st c data"
proof -
  have q: "ch_v2_queue idle_hasher \<noteq> None" by simp
  obtain js where "hash_chunk_v2_mb H H st False [] c (([], []), idle_hasher) = Inr (js,
      add_done (length data) (advanced [] (chunk_leaves H st c data) 0
        (ceil_div (length data) v2_block_size * v2_block_size) idle_hasher))"
    using hash_chunk_v2_mb_leaves [OF assms idle_hasher_simps(1) q, of H H False "[]" "[]" "[]"] by auto
  then show ?thesis
    using hash_chunk_v2_sb_run [OF assms idle_hasher_simps(1) q, of False "[]" undefined H H]
    by (simp add: v2_results_def chunk_pieces_def advanced_def add_done_def)
qed

lemma v2_leaves_append:
  "v2_leaves H f base (xs @ ys) = v2_leaves H f base xs @ v2_leaves H f (base + length xs) ys"
proof (induction ys rule: rev_induct)
  case (snoc y ys)
  then show ?case
    by (simp only: v2_leaves_snoc append.assoc [symmetric]) (simp add: add.assoc)
qed simp

text \<open>The chunks of a file give the leaves of the file, if no chunk is empty.\<close>

lemma file_chunks_results:
  assumes st: "st_piece_size st = m * v2_block_size" "0 < m" "cs = ppc * st_piece_size st" "0 < cs"
    and f: "f < st_file_count st" "f < 2 ^ 32"
    and data: "\<not> cs dvd length data" "p + length data div cs * ppc < 2 ^ 32"
  shows "list_all (chunk_ok True) (file_chunks cs ppc f p data) \<and>
    concat (map (v2_results H st multi) (file_chunks cs ppc f p data)) = v2_leaves H f (p * m) (blocks v2_block_size data)"
  using data
proof (induction data arbitrary: p rule: measure_induct_rule [of length])
  case (less data)
  let ?head = "\<lparr>dc_piece_index = u32 p, dc_file_index = u32 f, dc_data = Some (take cs data)\<rparr>"
  have nonempty: "take cs data \<noteq> []" using less.prems(1) st(4) by (cases data) auto
  have p: "u32 p = p" using less.prems(2) by (intro u32_exact) simp
  have index: "q * st_piece_size st div v2_block_size = q * m" for q
    by (simp add: st(1) mult.assoc [symmetric])
  have head: "chunk_ok True ?head" using nonempty by (simp add: chunk_ok_def)
  have results: "v2_results H st multi ?head = v2_leaves H f (p * m) (blocks v2_block_size (take cs data))"
    using v2_results_data [of ?head st "take cs data" H multi] nonempty f(1) u32_exact [OF f(2)] p index
    by (simp add: chunk_leaves_def)
  show ?case
  proof (cases "length data < cs")
    case True
    then show ?thesis
      using file_chunks_rec [OF st(4), of ppc f p data] head results by simp
  next
    case False
    let ?rest = "drop cs data"
    have n: "length data div cs = Suc (length ?rest div cs)" "length ?rest < length data"
      using False st(4) by (simp_all add: le_div_geq)
    have rest: "\<not> cs dvd length ?rest" "p + ppc + length ?rest div cs * ppc < 2 ^ 32"
      using less.prems False n(1) by (simp_all add: dvd_minus_self)
    have cut: "length (take cs data) = (ppc * m) * v2_block_size"
      using False st(1,3) by (simp add: mult.assoc)
    have "blocks v2_block_size data = blocks v2_block_size (take cs data) @ blocks v2_block_size ?rest"
      using blocks_append [OF cut, of ?rest] by simp
    moreover have "length (blocks v2_block_size (take cs data)) = ppc * m"
      unfolding length_blocks cut by (rule ceil_div_mult) simp
    ultimately have "v2_leaves H f (p * m) (blocks v2_block_size data) =
        v2_leaves H f (p * m) (blocks v2_block_size (take cs data)) @
        v2_leaves H f ((p + ppc) * m) (blocks v2_block_size ?rest)"
      by (simp only: v2_leaves_append add_mult_distrib)
    then show ?thesis
      using file_chunks_rec [OF st(4), of ppc f p data] False head results less.IH [OF n(2) rest] by simp
  qed
qed

section \<open>The reader\<close>

text \<open>
  The disk holds every regular file with the recorded size; the v2 reader cannot deliver files whose size is
  a multiple of the chunk size (\<open>v2_reader_rejects_exact_file\<close>).
\<close>

definition v2_on_disk :: "disk \<Rightarrow> path list \<Rightarrow> file_storage \<Rightarrow> nat \<Rightarrow> (nat \<Rightarrow> byte list) \<Rightarrow> bool" where
  "v2_on_disk d paths st cs contents \<longleftrightarrow>
     (\<forall>f < st_file_count st. \<not> fe_is_padding_file (st_files st ! f) \<longrightarrow>
        (\<exists>mtime. disk_file d (paths ! f) = Some (contents f, mtime)) \<and> \<not> cs dvd length (contents f))"

definition v2_chunks :: "file_storage \<Rightarrow> nat \<Rightarrow> (nat \<Rightarrow> byte list) \<Rightarrow> nat \<Rightarrow> data_chunk list" where
  "v2_chunks st cs contents n =
     concat (map (\<lambda>f. if fe_is_padding_file (st_files st ! f) then []
                     else file_chunks cs (cs div st_piece_size st) f 0 (contents f)) [0..<n])"

lemma v2_run_file_step:
  assumes "same_files st (rd_storage r)" "rd_chunk_size r = cs" "rd_file_index r = f" "0 < cs"
    "f < st_file_count st" "v2_on_disk d paths st cs contents"
    "\<not> fe_is_padding_file (st_files st ! f) \<Longrightarrow>
       length (contents f) div cs * (cs div st_piece_size st) < st_piece_count st"
    "st_piece_count st \<le> 2 ^ 32"
  shows "\<exists>r'. v2_run_file (\<lambda>_. False) d (paths ! f) r = Inr r' \<and> same_files st (rd_storage r') \<and>
    rd_chunk_size r' = cs \<and> rd_file_index r' = Suc f \<and>
    rd_pushed r' = rd_pushed r @ (if fe_is_padding_file (st_files st ! f) then []
      else file_chunks cs (cs div st_piece_size st) f 0 (contents f))"
proof -
  let ?e = "st_files (rd_storage r) ! f"
  have at: "st_at (rd_storage r) f = Inr ?e" "fe_is_padding_file ?e = fe_is_padding_file (st_files st ! f)"
    using same_files_at(1,3) [OF assms(1)] assms(5) by (simp_all add: st_at_def st_file_count_def)
  show ?thesis
  proof (cases "fe_is_padding_file ?e")
    case True
    then show ?thesis using at assms(1-3) by (simp add: v2_run_file_def)
  next
    case False
    then obtain mtime where disk: "disk_file d (paths ! f) = Some (contents f, mtime)"
      using assms(5,6) at(2) by (auto simp: v2_on_disk_def)
    obtain st' where st': "st_set_last_modified_time f mtime (rd_storage r) = Inr st'" "same_files st st'"
      using set_last_modified_same [OF assms(1)] assms(5) by (auto simp: st_file_count_def)
    define r1 where "r1 = r\<lparr>rd_storage := st', rd_piece_index := 0\<rparr>"
    have r1: "rd_chunk_size r1 = cs" "rd_storage r1 = st'" "rd_piece_index r1 = 0" "rd_file_index r1 = f"
        "rd_pushed r1 = rd_pushed r" "st_piece_size st' = st_piece_size st" "st_piece_count st' = st_piece_count st"
      using assms(2,3) st'(2) same_files_at(4) [OF st'(2)] by (simp_all add: r1_def same_files_def)
    have "length (contents f) div cs * (cs div st_piece_size st) < st_piece_count st"
      using assms(7) False at(2) by simp
    then obtain r' where "v2_read_file (\<lambda>_. False) (contents f) r1 = Inr r'" "rd_storage r' = st'"
        "rd_chunk_size r' = cs" "rd_file_index r' = f"
        "rd_pushed r' = rd_pushed r @ file_chunks cs (cs div st_piece_size st) f 0 (contents f)"
      using v2_read_file_run [of r1 "cs div st_piece_size st" "contents f"] r1 assms(4,8) by auto
    then show ?thesis
      using False at disk st' assms(3) by (simp add: v2_run_file_def r1_def)
  qed
qed

lemma v2_run_files:
  assumes "same_files st (rd_storage r)" "rd_chunk_size r = cs" "rd_file_index r = 0" "rd_pushed r = []" "0 < cs"
    "v2_on_disk d paths st cs contents"
    "\<And>f. f < st_file_count st \<Longrightarrow> \<not> fe_is_padding_file (st_files st ! f) \<Longrightarrow>
       length (contents f) div cs * (cs div st_piece_size st) < st_piece_count st"
    "st_piece_count st \<le> 2 ^ 32" "length paths = st_file_count st" "n \<le> st_file_count st"
  shows "\<exists>r'. rfold (v2_run_file (\<lambda>_. False) d) (take n paths) r = Inr r' \<and> same_files st (rd_storage r') \<and>
    rd_chunk_size r' = cs \<and> rd_file_index r' = n \<and> rd_pushed r' = v2_chunks st cs contents n"
  using assms(10)
proof (induction n)
  case 0
  then show ?case using assms(1-4) by (simp add: v2_chunks_def)
next
  case (Suc n)
  then obtain r1 where r1: "rfold (v2_run_file (\<lambda>_. False) d) (take n paths) r = Inr r1" "same_files st (rd_storage r1)"
      "rd_chunk_size r1 = cs" "rd_file_index r1 = n" "rd_pushed r1 = v2_chunks st cs contents n"
    by auto
  have n: "n < st_file_count st" using Suc.prems by simp
  obtain r2 where "v2_run_file (\<lambda>_. False) d (paths ! n) r1 = Inr r2" "same_files st (rd_storage r2)"
      "rd_chunk_size r2 = cs" "rd_file_index r2 = Suc n" "rd_pushed r2 = v2_chunks st cs contents (Suc n)"
    using v2_run_file_step [OF r1(2-4) assms(5) n assms(6) assms(7) [OF n] assms(8)] r1(5)
    by (auto simp: v2_chunks_def)
  then show ?case
    using r1(1) n assms(9) by (auto simp: take_Suc_conv_app_nth rfold_append)
qed


text \<open>With the recorded total the last chunk of every file lies below the piece count.\<close>

lemma last_chunk_below:
  assumes "st_total_file_size st = sum_list (map fe_file_size (st_files st))" "f < st_file_count st"
    "st_total_file_size st + st_piece_size st < size_bound" "0 < st_piece_size st" "st_piece_size st dvd cs"
    "fe_file_size (st_files st ! f) = n" "\<not> cs dvd n"
  shows "n div cs * (cs div st_piece_size st) < st_piece_count st"
proof -
  let ?ps = "st_piece_size st" and ?total = "st_total_file_size st"
  have n: "n \<le> ?total"
    using assms(1,2,6) member_le_sum_list [of n "map fe_file_size (st_files st)"] by (auto simp: st_file_count_def)
  have "size_sub (size_add ?total ?ps) 1 = ?total + ?ps - 1"
    using assms(3,4) by (simp add: size_add_exact size_sub_exact)
  then have count: "st_piece_count st = ceil_div ?total ?ps"
    using assms(4) by (simp add: st_piece_count_def ceil_div_def)
  have "n div cs * (cs div ?ps) * ?ps = n div cs * cs" using assms(5) by (simp add: mult.assoc)
  also have "\<dots> < n"
    using assms(7) div_mult_mod_eq [of n cs] mod_eq_0_iff_dvd [of n cs] by linarith
  finally have "\<not> ?total \<le> n div cs * (cs div ?ps) * ?ps" using n by linarith
  then show ?thesis using ceil_div_le_iff [OF assms(4)] by (simp add: count not_le [symmetric])
qed

section \<open>End to end\<close>

lemma v2_chunks_results:
  assumes "st_piece_size st = m * v2_block_size" "0 < m" "cs = ppc * st_piece_size st" "0 < cs"
    "v2_on_disk d paths st cs contents" "st_file_count st < 2 ^ 32" "st_piece_count st \<le> 2 ^ 32"
    "\<And>f. f < st_file_count st \<Longrightarrow> \<not> fe_is_padding_file (st_files st ! f) \<Longrightarrow>
       length (contents f) div cs * (cs div st_piece_size st) < st_piece_count st"
  shows "list_all (chunk_ok True) (v2_chunks st cs contents (st_file_count st)) \<and>
    concat (map (v2_results H st multi) (v2_chunks st cs contents (st_file_count st))) = all_leaves H st contents"
proof -
  have ppc: "ppc = cs div st_piece_size st" using assms(1-4) by simp
  have one: "list_all (chunk_ok True) (file_chunks cs (cs div st_piece_size st) f 0 (contents f)) \<and>
      concat (map (v2_results H st multi) (file_chunks cs (cs div st_piece_size st) f 0 (contents f)))
        = v2_leaves H f 0 (blocks v2_block_size (contents f))"
    if f: "f < st_file_count st" "\<not> fe_is_padding_file (st_files st ! f)" for f
  proof -
    have "\<not> cs dvd length (contents f)" using assms(5) f by (simp add: v2_on_disk_def)
    moreover have "0 + length (contents f) div cs * ppc < 2 ^ 32"
      using assms(8) [OF f] assms(7) by (simp add: ppc)
    ultimately show ?thesis
      using file_chunks_results [OF assms(1-4) f(1), of "contents f" 0 H multi] f(1) assms(6)
      by (simp add: ppc)
  qed
  have "concat (map (v2_results H st multi) (v2_chunks st cs contents n)) =
      concat (map (\<lambda>f. if fe_is_padding_file (st_files st ! f) then []
                       else v2_leaves H f 0 (blocks v2_block_size (contents f))) [0..<n])"
    if "n \<le> st_file_count st" for n
    using that by (induction n) (auto simp: v2_chunks_def one)
  moreover have "list_all (chunk_ok True) (v2_chunks st cs contents (st_file_count st))"
    using one by (auto simp: v2_chunks_def list_all_iff split: if_splits)
  ultimately show ?thesis by (simp add: all_leaves_def)
qed

lemma v2_reader_run:
  assumes "reader_new st cs capacity = Inr r" "0 < cs" "absolute_file_paths d st = Inr paths"
    "v2_on_disk d paths st cs contents" "st_piece_count st \<le> 2 ^ 32"
    "\<And>f. f < st_file_count st \<Longrightarrow> \<not> fe_is_padding_file (st_files st ! f) \<Longrightarrow>
       length (contents f) div cs * (cs div st_piece_size st) < st_piece_count st"
  shows "\<exists>r'. v2_run (\<lambda>_. False) d r = Inr r' \<and> rd_pushed r' = v2_chunks st cs contents (st_file_count st)"
proof -
  have r: "rd_storage r = st" "rd_chunk_size r = cs" "rd_file_index r = 0" "rd_pushed r = []"
    using assms(1) by (auto simp: reader_new_def result_simps)
  have len: "length paths = st_file_count st"
    using assms(3) by (auto simp: absolute_file_paths_def result_simps st_file_count_def)
  show ?thesis
    using v2_run_files [of st r cs d paths contents "st_file_count st"] r assms len
    by (auto simp: v2_run_def)
qed

text \<open>Whatever the interleaving, the results that arrive are the digests of the blocks of the files.\<close>

lemma v2_results_arrive:
  assumes "reader_new st cs capacity = Inr r" "0 < cs" "absolute_file_paths d st = Inr paths"
    "v2_on_disk d paths st cs contents" "contents_ok st contents" "st_piece_size st = 2 ^ k * v2_block_size"
    "st_total_file_size st = sum_list (map fe_file_size (st_files st))"
    "st_total_file_size st + st_piece_size st < size_bound" "st_piece_count st < 2 ^ 32" "st_file_count st < 2 ^ 32"
    "0 < threads" "2 * threads \<le> capacity"
  obtains r' where "v2_run (\<lambda>_. False) d r = Inr r'"
    "\<And>s ps. pool_reachable_from wakeup_chunk capacity threads (rd_pushed r') s \<Longrightarrow>
        \<not> (\<exists>s'. pool_step wakeup_chunk s s') \<Longrightarrow>
        mset ps = mset (concat (map (v2_results H st multi) (po_processed s))) \<Longrightarrow>
      mset ps = mset (all_leaves H st contents)"
proof -
  have dvd: "st_piece_size st dvd cs"
    using assms(1) by (auto simp: reader_new_def result_simps)
  then obtain ppc where cs: "cs = ppc * st_piece_size st" by (auto simp: dvd_def mult.commute)
  have psz: "0 < st_piece_size st" "0 < (2::nat) ^ k" using assms(6) by simp_all
  have below: "length (contents f) div cs * (cs div st_piece_size st) < st_piece_count st"
    if "f < st_file_count st" "\<not> fe_is_padding_file (st_files st ! f)" for f
    using last_chunk_below [OF assms(7) that(1) assms(8) psz(1) dvd] that assms(4,5)
    by (simp add: contents_ok_def v2_on_disk_def)
  obtain r' where r': "v2_run (\<lambda>_. False) d r = Inr r'" "rd_pushed r' = v2_chunks st cs contents (st_file_count st)"
    using v2_reader_run [OF assms(1-4) _ below] assms(9) by auto
  note chunks = v2_chunks_results [OF assms(6) psz(2) cs assms(2,4,10) _ below, of H multi]
  have ok: "list_all (chunk_ok True) (rd_pushed r')"
      "concat (map (v2_results H st multi) (rd_pushed r')) = all_leaves H st contents"
    using chunks assms(9) r'(2) by auto
  show thesis
  proof (rule that [OF r'(1)])
    fix s ps
    assume "pool_reachable_from wakeup_chunk capacity threads (rd_pushed r') s" "\<not> (\<exists>s'. pool_step wakeup_chunk s s')"
      and ps: "mset ps = mset (concat (map (v2_results H st multi) (po_processed s)))"
    then have "mset (po_processed s) = mset (rd_pushed r')"
      using pool_result [OF _ _ wakeup_not_read [OF ok(1)] assms(11,12)] by blast
    then show "mset ps = mset (all_leaves H st contents)"
      using ps results_order [of "po_processed s" "rd_pushed r'" "v2_results H st multi"] ok(2) by metis
  qed
qed






end
