(* ===== verification/Thread_Control.thy ===== *)
theory Thread_Control
  imports Prelude
begin

text \<open>
  The control surface of everything that owns a thread: the flags of \<^verbatim>\<open>chunk_processor_base.cpp\<close>,
  \<^verbatim>\<open>concurrent_queue_processor.hpp\<close> and \<^verbatim>\<open>chunk_reader.cpp\<close>, what start, stop, cancel and wait do to
  them, and the destructors. What a thread does while it runs is the subject of \<open>Worker_Pool\<close> and
  \<open>Queue_Processor\<close>; here it is a thread that ends at some time, its flag set first. A call of
  \<^verbatim>\<open>wait\<close> is the state it leaves when it returns; the pushes that can block it are in those theories.
\<close>

section \<open>Threads\<close>

text \<open>A \<^verbatim>\<open>std::jthread\<close>: without a thread, or with the stop request and whether its body has ended.\<close>

datatype jthread =
    Not_Joinable
  | Joinable bool bool

fun jt_joinable :: "jthread \<Rightarrow> bool" where
  "jt_joinable Not_Joinable = False"
| "jt_joinable (Joinable s e) = True"

fun jt_request_stop :: "jthread \<Rightarrow> jthread" where
  "jt_request_stop Not_Joinable = Not_Joinable"
| "jt_request_stop (Joinable s e) = Joinable True e"

fun jt_end :: "jthread \<Rightarrow> jthread" where
  "jt_end Not_Joinable = Not_Joinable"
| "jt_end (Joinable s e) = Joinable s True"

record control =
  ct_threads :: "jthread list"
  ct_started :: bool
  ct_cancelled :: bool
  ct_stopped :: bool
  ct_done :: "bool list"

section \<open>The flags of the hashing threads and of the result threads\<close>

definition control_none :: control where
  "control_none = \<lparr>ct_threads = [], ct_started = False, ct_cancelled = False, ct_stopped = False, ct_done = []\<rparr>"

definition hasher_control_new :: "nat \<Rightarrow> control result" where
  "hasher_control_new thread_count =
     rbind (expects (0 < thread_count)) (\<lambda>_.
       Inr (control_none\<lparr>ct_threads := replicate thread_count Not_Joinable, ct_done := replicate thread_count False\<rparr>))"

definition control_set_max_concurrency :: "nat \<Rightarrow> nat \<Rightarrow> control \<Rightarrow> control" where
  "control_set_max_concurrency hardware max_concurrency c =
     (let n = (if max_concurrency = 0 then hardware else max_concurrency) in
      c\<lparr>ct_threads := take n (ct_threads c) @ replicate (n - length (ct_threads c)) Not_Joinable,
        ct_done := replicate n False\<rparr>)"

definition control_start :: "control \<Rightarrow> control result" where
  "control_start c =
     rbind (expects (\<not> ct_started c)) (\<lambda>_.
     rbind (expects (\<not> ct_cancelled c)) (\<lambda>_.
       Inr (c\<lparr>ct_done := map (\<lambda>_. False) (ct_threads c),
              ct_threads := map (\<lambda>_. Joinable False False) (ct_threads c), ct_started := True\<rparr>)))"

definition control_request_stop :: "control \<Rightarrow> control" where
  "control_request_stop c = c\<lparr>ct_threads := map jt_request_stop (ct_threads c)\<rparr>"

definition control_request_cancellation :: "control \<Rightarrow> control" where
  "control_request_cancellation c = control_request_stop (c\<lparr>ct_cancelled := True\<rparr>)"

definition control_all_done :: "control \<Rightarrow> bool" where
  "control_all_done c \<longleftrightarrow> list_all id (ct_done c)"

definition control_done :: "control \<Rightarrow> bool" where
  "control_done c \<longleftrightarrow> ct_cancelled c \<or> (ct_started c \<and> control_all_done c)"

definition control_running :: "control \<Rightarrow> bool" where
  "control_running c \<longleftrightarrow> ct_started c \<and> \<not> ct_cancelled c \<and> \<not> ct_stopped c"

text \<open>The body of thread \<open>i\<close> ends; a thread sets its flag as the last thing it does.\<close>

definition control_thread_ends :: "nat \<Rightarrow> control \<Rightarrow> control" where
  "control_thread_ends i c =
     c\<lparr>ct_threads := (ct_threads c)[i := jt_end (ct_threads c ! i)], ct_done := (ct_done c)[i := True]\<rparr>"

text \<open>Joining waits for the body to end; a thread can be joined once.\<close>

definition control_join :: "nat \<Rightarrow> control \<Rightarrow> control result" where
  "control_join i c =
     rbind (throw_if (\<not> jt_joinable (ct_threads c ! i)) System_Error) (\<lambda>_.
       let c = control_thread_ends i c in Inr (c\<lparr>ct_threads := (ct_threads c)[i := Not_Joinable]\<rparr>))"

definition control_join_all :: "control \<Rightarrow> control result" where
  "control_join_all c = rfold control_join [0..<length (ct_threads c)] c"

definition hasher_wait :: "control \<Rightarrow> control result" where
  "hasher_wait c =
     (if \<not> ct_started c then Inr c
      else rbind (control_join_all c) (\<lambda>c. rbind (expects (control_all_done c)) (\<lambda>_. Inr c)))"

definition processor_wait :: "control \<Rightarrow> control result" where
  "processor_wait c =
     (if \<not> ct_started c then Inr c
      else rbind (control_join_all c) (\<lambda>c. rbind (expects (control_done c)) (\<lambda>_. Inr c)))"

definition hasher_destroy :: "control \<Rightarrow> unit result" where
  "hasher_destroy c =
     rbind (if ct_started c \<and> \<not> control_done c then hasher_wait (control_request_stop c) else Inr c) (\<lambda>c.
       expects (control_all_done c))"

definition processor_destroy :: "control \<Rightarrow> unit result" where
  "processor_destroy c =
     rbind (if ct_started c \<and> \<not> control_done c then processor_wait (control_request_stop c) else Inr c) (\<lambda>_. Inr ())"

section \<open>The reader\<close>

record 'q reader_control =
  rc_hash_queues :: "'q list"
  rc_checksum_queues :: "'q list"
  rc_thread :: jthread
  rc_started :: bool
  rc_cancelled :: bool

definition reader_control_new :: "'q reader_control" where
  "reader_control_new = \<lparr>rc_hash_queues = [], rc_checksum_queues = [], rc_thread = Not_Joinable,
     rc_started = False, rc_cancelled = False\<rparr>"

definition register_hash_queue :: "'q \<Rightarrow> 'q reader_control \<Rightarrow> 'q reader_control" where
  "register_hash_queue q r = r\<lparr>rc_hash_queues := rc_hash_queues r @ [q]\<rparr>"

definition register_checksum_queue :: "'q \<Rightarrow> 'q reader_control \<Rightarrow> 'q reader_control" where
  "register_checksum_queue q r = r\<lparr>rc_checksum_queues := rc_checksum_queues r @ [q]\<rparr>"

text \<open>The queues a chunk is pushed into, in the order of the pushes.\<close>

definition reader_push_targets :: "'q reader_control \<Rightarrow> 'q list" where
  "reader_push_targets r = rc_hash_queues r @ rc_checksum_queues r"

definition reader_start :: "'q reader_control \<Rightarrow> 'q reader_control result" where
  "reader_start r =
     (if rc_started r then Inr r
      else rbind (throw_if (rc_cancelled r) Runtime_Error) (\<lambda>_.
        Inr (r\<lparr>rc_thread := Joinable False False, rc_started := True\<rparr>)))"

definition reader_request_cancellation :: "'q reader_control \<Rightarrow> 'q reader_control" where
  "reader_request_cancellation r = r\<lparr>rc_cancelled := True\<rparr>"

definition reader_wait :: "'q reader_control \<Rightarrow> 'q reader_control result" where
  "reader_wait r =
     rbind (throw_if (\<not> rc_started r) Logic_Error) (\<lambda>_.
     rbind (throw_if (\<not> jt_joinable (rc_thread r)) System_Error) (\<lambda>_.
       Inr (r\<lparr>rc_thread := Not_Joinable\<rparr>)))"

definition reader_done :: "'q reader_control \<Rightarrow> bool" where
  "reader_done r \<longleftrightarrow> rc_cancelled r \<or> (rc_started r \<and> \<not> jt_joinable (rc_thread r))"

definition reader_destroy :: "'q reader_control \<Rightarrow> unit result" where
  "reader_destroy r = throw_if (rc_started r \<and> \<not> reader_done r) Terminated"

section \<open>Joining\<close>

lemma jt_joinable_request_stop [simp]: "jt_joinable (jt_request_stop t) = jt_joinable t"
  by (cases t) auto

lemma control_join_all_from:
  assumes "i \<le> length (ct_threads c)" "length (ct_done c) = length (ct_threads c)"
    "\<forall>t \<in> set (drop i (ct_threads c)). jt_joinable t"
  shows "rfold control_join [i..<length (ct_threads c)] c
    = Inr (c\<lparr>ct_threads := take i (ct_threads c) @ replicate (length (ct_threads c) - i) Not_Joinable,
             ct_done := take i (ct_done c) @ replicate (length (ct_threads c) - i) True\<rparr>)"
  using assms
proof (induction "length (ct_threads c) - i" arbitrary: i c)
  case 0
  then show ?case by simp
next
  case (Suc n)
  let ?c = "c\<lparr>ct_threads := (ct_threads c)[i := Not_Joinable], ct_done := (ct_done c)[i := True]\<rparr>"
  have i: "i < length (ct_threads c)" using Suc.hyps(2) by simp
  with Suc.prems(3) have "jt_joinable (ct_threads c ! i)" by (metis Cons_nth_drop_Suc list.set_intros(1))
  then have "control_join i c = Inr ?c"
    by (simp add: control_join_def control_thread_ends_def)
  moreover have "\<forall>t \<in> set (drop (Suc i) (ct_threads ?c)). jt_joinable t"
    using Suc.prems(3) i by (auto simp: drop_update_cancel dest: set_drop_subset [THEN subsetD] simp flip: Cons_nth_drop_Suc)
  moreover have "[i..<length (ct_threads c)] = i # [Suc i..<length (ct_threads ?c)]"
    using i by (simp add: upt_conv_Cons)
  ultimately show ?case
    using Suc.hyps(1) [of ?c "Suc i"] Suc.hyps(2) Suc.prems i
    by (simp add: take_Suc_conv_app_nth Suc_diff_le flip: replicate_Suc)
qed

lemma control_join_all_joins:
  assumes "length (ct_done c) = length (ct_threads c)" "\<forall>t \<in> set (ct_threads c). jt_joinable t"
  shows "control_join_all c
    = Inr (c\<lparr>ct_threads := replicate (length (ct_threads c)) Not_Joinable,
             ct_done := replicate (length (ct_threads c)) True\<rparr>)"
  using control_join_all_from [of 0 c] assms by (simp add: control_join_all_def)

lemma control_join_all_twice:
  assumes "ct_threads c \<noteq> []" "\<forall>t \<in> set (ct_threads c). \<not> jt_joinable t"
  shows "control_join_all c = Inl System_Error"
proof -
  have "[0..<length (ct_threads c)] = 0 # [1..<length (ct_threads c)]"
    using assms(1) by (simp add: upt_conv_Cons)
  with assms show ?thesis by (simp add: control_join_all_def control_join_def)
qed

section \<open>The life of a hasher\<close>

inductive hasher_lives :: "nat \<Rightarrow> control \<Rightarrow> bool" for threads where
  made: "hasher_control_new threads = Inr c \<Longrightarrow> hasher_lives threads c"
| starts: "hasher_lives threads c \<Longrightarrow> control_start c = Inr c' \<Longrightarrow> hasher_lives threads c'"
| stop: "hasher_lives threads c \<Longrightarrow> hasher_lives threads (control_request_stop c)"
| cancel: "hasher_lives threads c \<Longrightarrow> hasher_lives threads (control_request_cancellation c)"
| thread_ends: "hasher_lives threads c \<Longrightarrow> i < length (ct_threads c) \<Longrightarrow> jt_joinable (ct_threads c ! i) \<Longrightarrow>
    hasher_lives threads (control_thread_ends i c)"
| waits: "hasher_lives threads c \<Longrightarrow> hasher_wait c = Inr c' \<Longrightarrow> hasher_lives threads c'"

text \<open>
  The threads are all joinable or all not; before the start and after a successful wait they are not, and
  after the wait every flag is set. Nothing sets \<open>ct_stopped\<close>.
\<close>

definition control_inv :: "nat \<Rightarrow> control \<Rightarrow> bool" where
  "control_inv n c \<longleftrightarrow>
     0 < n \<and> length (ct_threads c) = n \<and> length (ct_done c) = n \<and> \<not> ct_stopped c \<and>
     (if \<not> ct_started c then (\<forall>t \<in> set (ct_threads c). \<not> jt_joinable t) \<and> (\<forall>d \<in> set (ct_done c). \<not> d)
      else (\<forall>t \<in> set (ct_threads c). jt_joinable t) \<or>
           (\<forall>t \<in> set (ct_threads c). \<not> jt_joinable t) \<and> (\<forall>d \<in> set (ct_done c). d))"

lemma control_inv_stop: "control_inv n c \<Longrightarrow> control_inv n (control_request_stop c)"
  by (auto simp: control_inv_def control_request_stop_def)

lemma control_inv_cancel: "control_inv n c \<Longrightarrow> control_inv n (control_request_cancellation c)"
  by (auto simp: control_inv_def control_request_stop_def control_request_cancellation_def)

text \<open>What \<^verbatim>\<open>wait\<close> does: nothing before the start, then it joins every thread once.\<close>

lemma hasher_wait_cases:
  assumes "control_inv n c"
  shows "hasher_wait c =
    (if \<not> ct_started c then Inr c
     else if \<forall>t \<in> set (ct_threads c). jt_joinable t
     then Inr (c\<lparr>ct_threads := replicate n Not_Joinable, ct_done := replicate n True\<rparr>)
     else Inl System_Error)"
proof -
  have "ct_threads c \<noteq> []" using assms by (auto simp: control_inv_def)
  then show ?thesis
    using assms control_join_all_joins [of c] control_join_all_twice [of c]
    by (auto simp: control_inv_def hasher_wait_def control_all_done_def list_all_iff split: if_splits)
qed

lemma control_inv_lives: "hasher_lives threads c \<Longrightarrow> control_inv threads c"
proof (induction rule: hasher_lives.induct)
  case (made c)
  then show ?case by (auto simp: hasher_control_new_def control_inv_def control_none_def rbind_expects split: if_splits)
next
  case (starts c c')
  then show ?case by (auto simp: control_start_def control_inv_def rbind_expects split: if_splits)
next
  case (thread_ends c i)
  let ?ts = "(ct_threads c)[i := jt_end (ct_threads c ! i)]"
  have all: "\<forall>t \<in> set (ct_threads c). jt_joinable t" "ct_started c"
    using thread_ends.IH thread_ends.hyps(2,3) nth_mem [of i "ct_threads c"]
    by (auto simp: control_inv_def split: if_splits)
  have "jt_joinable (jt_end (ct_threads c ! i))" using thread_ends.hyps(3) by (cases "ct_threads c ! i") auto
  with all(1) have "\<forall>t \<in> set ?ts. jt_joinable t"
    using set_update_subset_insert [of "ct_threads c" i] by blast
  with thread_ends.IH all(2) show ?case by (simp add: control_inv_def control_thread_ends_def)
next
  case (waits c c')
  with hasher_wait_cases [OF waits.IH] have "c' = c \<or>
      ct_started c \<and> c' = c\<lparr>ct_threads := replicate threads Not_Joinable, ct_done := replicate threads True\<rparr>"
    by (simp split: if_splits)
  then show ?case
  proof
    assume "c' = c"
    with waits.IH show ?thesis by simp
  next
    assume "ct_started c \<and> c' = c\<lparr>ct_threads := replicate threads Not_Joinable, ct_done := replicate threads True\<rparr>"
    with waits.IH show ?thesis by (simp add: control_inv_def)
  qed
qed (simp_all add: control_inv_stop control_inv_cancel)


lemma hasher_destroy_cases:
  assumes "control_inv n c"
  shows "hasher_destroy c =
    (if ct_started c \<and> (ct_cancelled c \<longrightarrow> control_all_done c) then Inr () else Inl Contract)"
proof (cases "ct_started c")
  case False
  with assms have "ct_done c \<noteq> []" "\<forall>d \<in> set (ct_done c). \<not> d" by (auto simp: control_inv_def)
  then have "\<not> control_all_done c" by (cases "ct_done c") (simp_all add: control_all_done_def)
  with False show ?thesis by (simp add: hasher_destroy_def expects_def)
next
  case True
  show ?thesis
  proof (cases "control_done c")
    case True
    with \<open>ct_started c\<close> show ?thesis
      by (cases "control_all_done c") (simp_all add: hasher_destroy_def control_done_def expects_def)
  next
    case False
    let ?c = "control_request_stop c"
    have "\<not> (\<forall>d \<in> set (ct_done c). d)" "\<not> ct_cancelled c"
      using False True by (auto simp: control_done_def control_all_done_def list_all_iff)
    with assms True have "\<forall>t \<in> set (ct_threads ?c). jt_joinable t" "ct_started ?c"
      by (auto simp: control_inv_def control_request_stop_def split: if_splits)
    then have "hasher_wait ?c = Inr (?c\<lparr>ct_threads := replicate n Not_Joinable, ct_done := replicate n True\<rparr>)"
      using hasher_wait_cases [OF control_inv_stop [OF assms]] by simp
    with True False \<open>\<not> ct_cancelled c\<close> show ?thesis
      by (simp add: hasher_destroy_def control_all_done_def list_all_iff)
  qed
qed

lemma hasher_lives_destroy:
  assumes "hasher_lives threads c"
  shows "hasher_destroy c = Inr () \<longleftrightarrow> ct_started c \<and> (ct_cancelled c \<longrightarrow> control_all_done c)"
    and "control_running c \<longleftrightarrow> ct_started c \<and> \<not> ct_cancelled c"
  using hasher_destroy_cases [OF control_inv_lives [OF assms]] control_inv_lives [OF assms]
  by (simp_all add: control_running_def control_inv_def)

section \<open>The reader that is destroyed\<close>

inductive reader_lives :: "'q reader_control \<Rightarrow> bool" where
  made: "reader_lives reader_control_new"
| hash_queue: "reader_lives r \<Longrightarrow> reader_lives (register_hash_queue q r)"
| checksum_queue: "reader_lives r \<Longrightarrow> reader_lives (register_checksum_queue q r)"
| starts: "reader_lives r \<Longrightarrow> reader_start r = Inr r' \<Longrightarrow> reader_lives r'"
| cancel: "reader_lives r \<Longrightarrow> reader_lives (reader_request_cancellation r)"
| thread_ends: "reader_lives r \<Longrightarrow> reader_lives (r\<lparr>rc_thread := jt_end (rc_thread r)\<rparr>)"
| waits: "reader_lives r \<Longrightarrow> reader_wait r = Inr r' \<Longrightarrow> reader_lives r'"

text \<open>
  A reader is never done by itself: also when its thread has ended it is done only after \<^verbatim>\<open>wait\<close> or a
  cancellation, and destroying it before that terminates the program.
\<close>

lemma reader_ended_not_done:
  assumes "reader_start r = Inr r'" "\<not> rc_started r"
  shows "reader_done (r'\<lparr>rc_thread := jt_end (rc_thread r')\<rparr>) \<longleftrightarrow> False"
    and "reader_destroy (r'\<lparr>rc_thread := jt_end (rc_thread r')\<rparr>) = Inl Terminated"
  using assms by (auto simp: reader_start_def reader_done_def reader_destroy_def rbind_throw_if split: if_splits)

lemma reader_unstarted_unjoinable: "reader_lives r \<Longrightarrow> \<not> rc_started r \<Longrightarrow> rc_thread r = Not_Joinable"
  by (induction rule: reader_lives.induct)
    (auto simp: reader_control_new_def register_hash_queue_def register_checksum_queue_def reader_start_def
      reader_request_cancellation_def reader_wait_def rbind_throw_if split: if_splits)

lemma reader_session:
  assumes "reader_lives r" "\<not> rc_started r"
  shows "rbind (reader_start r) reader_wait = (if rc_cancelled r then Inl Runtime_Error
      else Inr (r\<lparr>rc_thread := Not_Joinable, rc_started := True\<rparr>))"
    and "rbind (rbind (reader_start r) reader_wait) reader_wait =
      (if rc_cancelled r then Inl Runtime_Error else Inl System_Error)"
    and "reader_wait r = Inl Logic_Error"
  using assms by (simp_all add: reader_start_def reader_wait_def rbind_throw_if)

lemma reader_start_registers:
  assumes "reader_start r = Inr r'"
  shows "reader_push_targets r' = reader_push_targets r"
    "reader_push_targets (register_checksum_queue q r) = reader_push_targets r @ [q]"
  using assms by (auto simp: reader_push_targets_def reader_start_def register_checksum_queue_def rbind_throw_if split: if_splits)

section \<open>Property\<close>



end
