(* ===== verification/Piece_Processors.thy ===== *)
theory Piece_Processors
  imports Thread_Control Storage_Hasher
begin

text \<open>
  The piece writers and verifiers as threads: the interface \<^verbatim>\<open>hashed_piece_processor.hpp\<close> and the members
  with which \<^verbatim>\<open>v1_piece_writer.cpp\<close>, \<^verbatim>\<open>v2_piece_writer.cpp\<close>, \<^verbatim>\<open>v1_piece_verifier.cpp\<close> and
  \<^verbatim>\<open>v2_piece_verifier.cpp\<close> implement it by calls on the processors they hold, and the queues they give to
  the hasher. The locale is what the drivers rely on; it is interpreted on a single processor, which is all
  that three of the classes hold, and on the two processors of the v2 writer.
\<close>

section \<open>The v2 writer\<close>

record writer_control =
  wc_v1_compatible :: bool
  wc_v1 :: control
  wc_v2 :: control

definition piece_control_new :: "nat \<Rightarrow> nat \<Rightarrow> control" where
  "piece_control_new hardware max_concurrency = control_set_max_concurrency hardware max_concurrency control_none"

definition v2_writer_control_new :: "nat \<Rightarrow> bool \<Rightarrow> nat \<Rightarrow> writer_control" where
  "v2_writer_control_new hardware v1_compatible max_concurrency =
     \<lparr>wc_v1_compatible = v1_compatible,
      wc_v1 = (if v1_compatible then control_set_max_concurrency hardware max_concurrency control_none else control_none),
      wc_v2 = control_set_max_concurrency hardware max_concurrency control_none\<rparr>"

definition v2_writer_start :: "writer_control \<Rightarrow> writer_control result" where
  "v2_writer_start w =
     rbind (if wc_v1_compatible w then control_start (wc_v1 w) else Inr (wc_v1 w)) (\<lambda>c1.
     rbind (control_start (wc_v2 w)) (\<lambda>c2. Inr (w\<lparr>wc_v1 := c1, wc_v2 := c2\<rparr>)))"

definition v2_writer_request_cancellation :: "writer_control \<Rightarrow> writer_control" where
  "v2_writer_request_cancellation w =
     (let w = (if wc_v1_compatible w then w\<lparr>wc_v1 := control_request_cancellation (wc_v1 w)\<rparr> else w) in
      w\<lparr>wc_v2 := control_request_cancellation (wc_v2 w)\<rparr>)"

definition v2_writer_request_stop :: "writer_control \<Rightarrow> writer_control" where
  "v2_writer_request_stop w =
     (let w = (if wc_v1_compatible w then w\<lparr>wc_v1 := control_request_stop (wc_v1 w)\<rparr> else w) in
      w\<lparr>wc_v2 := control_request_stop (wc_v2 w)\<rparr>)"

definition v2_writer_wait :: "writer_control \<Rightarrow> writer_control result" where
  "v2_writer_wait w =
     rbind (if wc_v1_compatible w then processor_wait (wc_v1 w) else Inr (wc_v1 w)) (\<lambda>c1.
     rbind (processor_wait (wc_v2 w)) (\<lambda>c2. Inr (w\<lparr>wc_v1 := c1, wc_v2 := c2\<rparr>)))"

definition v2_writer_running :: "writer_control \<Rightarrow> bool" where
  "v2_writer_running w \<longleftrightarrow> control_running (wc_v2 w) \<and> (wc_v1_compatible w \<longrightarrow> control_running (wc_v1 w))"

definition v2_writer_started :: "writer_control \<Rightarrow> bool" where
  "v2_writer_started w \<longleftrightarrow> ct_started (wc_v2 w) \<and> (wc_v1_compatible w \<longrightarrow> ct_started (wc_v1 w))"

definition v2_writer_cancelled :: "writer_control \<Rightarrow> bool" where
  "v2_writer_cancelled w \<longleftrightarrow> ct_cancelled (wc_v2 w) \<and> (wc_v1_compatible w \<longrightarrow> ct_cancelled (wc_v1 w))"

definition v2_writer_done :: "writer_control \<Rightarrow> bool" where
  "v2_writer_done w \<longleftrightarrow> control_done (wc_v2 w) \<and> (wc_v1_compatible w \<longrightarrow> control_done (wc_v1 w))"

section \<open>The abstract class and its implementations\<close>

text \<open>
  The virtual members of \<^verbatim>\<open>hashed_piece_processor\<close> as a record of functions, and the record of each class.
  The last two give the queues for the hasher; a null pointer is \<open>None\<close>.
\<close>

datatype result_queue = V1_Result_Queue | V2_Result_Queue

record 's piece_members =
  pm_start :: "'s \<Rightarrow> 's result"
  pm_request_cancellation :: "'s \<Rightarrow> 's"
  pm_request_stop :: "'s \<Rightarrow> 's"
  pm_wait :: "'s \<Rightarrow> 's result"
  pm_running :: "'s \<Rightarrow> bool"
  pm_started :: "'s \<Rightarrow> bool"
  pm_cancelled :: "'s \<Rightarrow> bool"
  pm_done :: "'s \<Rightarrow> bool"
  pm_get_v1_queue :: "'s \<Rightarrow> result_queue option result"
  pm_get_v2_queue :: "'s \<Rightarrow> result_queue option result"

definition v1_piece_writer_members :: "control piece_members" where
  "v1_piece_writer_members =
     \<lparr>pm_start = control_start, pm_request_cancellation = control_request_cancellation,
      pm_request_stop = control_request_stop, pm_wait = processor_wait, pm_running = control_running,
      pm_started = ct_started, pm_cancelled = ct_cancelled, pm_done = control_done,
      pm_get_v1_queue = (\<lambda>_. Inr (Some V1_Result_Queue)), pm_get_v2_queue = (\<lambda>_. Inl Logic_Error)\<rparr>"

definition v1_piece_verifier_members :: "control piece_members" where
  "v1_piece_verifier_members =
     \<lparr>pm_start = control_start, pm_request_cancellation = control_request_cancellation,
      pm_request_stop = control_request_stop, pm_wait = processor_wait, pm_running = control_running,
      pm_started = ct_started, pm_cancelled = ct_cancelled, pm_done = control_done,
      pm_get_v1_queue = (\<lambda>_. Inr (Some V1_Result_Queue)), pm_get_v2_queue = (\<lambda>_. Inl Logic_Error)\<rparr>"

definition v2_piece_verifier_members :: "control piece_members" where
  "v2_piece_verifier_members =
     \<lparr>pm_start = control_start, pm_request_cancellation = control_request_cancellation,
      pm_request_stop = control_request_stop, pm_wait = processor_wait, pm_running = control_running,
      pm_started = ct_started, pm_cancelled = ct_cancelled, pm_done = control_done,
      pm_get_v1_queue = (\<lambda>_. Inr None), pm_get_v2_queue = (\<lambda>_. Inr (Some V2_Result_Queue))\<rparr>"

definition v2_piece_writer_members :: "writer_control piece_members" where
  "v2_piece_writer_members =
     \<lparr>pm_start = v2_writer_start, pm_request_cancellation = v2_writer_request_cancellation,
      pm_request_stop = v2_writer_request_stop, pm_wait = v2_writer_wait, pm_running = v2_writer_running,
      pm_started = v2_writer_started, pm_cancelled = v2_writer_cancelled, pm_done = v2_writer_done,
      pm_get_v1_queue = (\<lambda>w. Inr (if wc_v1_compatible w then Some V1_Result_Queue else None)),
      pm_get_v2_queue = (\<lambda>_. Inr (Some V2_Result_Queue))\<rparr>"

section \<open>The interface\<close>

text \<open>\<open>fresh\<close> holds until the threads have been joined; \<open>ok\<close> is the invariant of the implementation.\<close>

locale piece_processor =
  fixes ok fresh :: "'s \<Rightarrow> bool"
    and start wait :: "'s \<Rightarrow> 's result"
    and stop cancel :: "'s \<Rightarrow> 's"
    and running started cancelled finished :: "'s \<Rightarrow> bool"
  assumes start_law: "ok s \<Longrightarrow> \<not> started s \<Longrightarrow> \<not> cancelled s \<Longrightarrow>
      \<exists>s'. start s = Inr s' \<and> ok s' \<and> fresh s' \<and> started s' \<and> \<not> cancelled s'"
    and start_refused: "ok s \<Longrightarrow> started s \<or> cancelled s \<Longrightarrow> start s = Inl Contract"
    and stop_law: "ok s \<Longrightarrow> ok (stop s) \<and> (fresh s \<longrightarrow> fresh (stop s)) \<and>
      started (stop s) = started s \<and> cancelled (stop s) = cancelled s"
    and cancel_law: "ok s \<Longrightarrow> ok (cancel s) \<and> (fresh s \<longrightarrow> fresh (cancel s)) \<and>
      started (cancel s) = started s \<and> cancelled (cancel s)"
    and wait_law: "ok s \<Longrightarrow> started s \<Longrightarrow> fresh s \<Longrightarrow>
      \<exists>s'. wait s = Inr s' \<and> ok s' \<and> \<not> fresh s' \<and> started s' \<and> cancelled s' = cancelled s \<and> finished s'"
    and wait_unstarted: "ok s \<Longrightarrow> \<not> started s \<Longrightarrow> wait s = Inr s"
    and wait_again: "ok s \<Longrightarrow> started s \<Longrightarrow> \<not> fresh s \<Longrightarrow> wait s = Inl System_Error"
    and running_law: "ok s \<Longrightarrow> running s \<longleftrightarrow> started s \<and> \<not> cancelled s"
    and cancelled_finished: "ok s \<Longrightarrow> cancelled s \<Longrightarrow> finished s"
begin

lemma session:
  assumes "ok s" "\<not> started s" "\<not> cancelled s"
  shows "\<exists>s'. rbind (start s) (\<lambda>s. wait (stop s)) = Inr s' \<and> finished s' \<and> running s' \<and>
    wait s' = Inl System_Error \<and> start s' = Inl Contract"
proof -
  obtain s1 where s1: "start s = Inr s1" "ok s1" "fresh s1" "started s1" "\<not> cancelled s1"
    using start_law [OF assms] by blast
  then obtain s2 where "wait (stop s1) = Inr s2" "ok s2" "\<not> fresh s2" "started s2" "\<not> cancelled s2" "finished s2"
    using wait_law [of "stop s1"] stop_law [of s1] by auto
  with s1(1) start_refused wait_again running_law show ?thesis by auto
qed

lemma cancelled_session:
  assumes "ok s" "\<not> started s" "\<not> cancelled s"
  shows "\<exists>s'. rbind (start s) (\<lambda>s. wait (cancel s)) = Inr s' \<and> finished s' \<and> \<not> running s'"
proof -
  obtain s1 where s1: "start s = Inr s1" "ok s1" "fresh s1" "started s1"
    using start_law [OF assms] by blast
  then obtain s2 where "wait (cancel s1) = Inr s2" "ok s2" "started s2" "cancelled s2" "finished s2"
    using wait_law [of "cancel s1"] cancel_law [of s1] by auto
  with s1(1) running_law show ?thesis by auto
qed

lemma cancelled_before_start:
  assumes "ok s" "\<not> started s"
  shows "start (cancel s) = Inl Contract \<and> wait (cancel s) = Inr (cancel s) \<and> finished (cancel s) \<and> \<not> running (cancel s)"
  using cancel_law [OF assms(1)] assms start_refused wait_unstarted running_law cancelled_finished by auto

end

section \<open>The interface on the processors\<close>

definition joinable_threads :: "control \<Rightarrow> bool" where
  "joinable_threads c \<longleftrightarrow> (\<forall>t \<in> set (ct_threads c). jt_joinable t)"

definition processor_ok :: "control \<Rightarrow> bool" where
  "processor_ok c \<longleftrightarrow> control_inv (length (ct_threads c)) c"

lemma processor_okI: "control_inv n c \<Longrightarrow> processor_ok c"
  by (auto simp: processor_ok_def control_inv_def)

lemma processor_wait_cases:
  assumes "processor_ok c"
  shows "processor_wait c =
    (if \<not> ct_started c then Inr c
     else if joinable_threads c
     then Inr (c\<lparr>ct_threads := replicate (length (ct_threads c)) Not_Joinable,
                 ct_done := replicate (length (ct_threads c)) True\<rparr>)
     else Inl System_Error)"
proof -
  have ok: "control_inv (length (ct_threads c)) c" using assms by (simp add: processor_ok_def)
  then have "ct_threads c \<noteq> []" by (auto simp: control_inv_def)
  with ok show ?thesis
    using control_join_all_joins [of c] control_join_all_twice [of c]
    by (auto simp: control_inv_def processor_wait_def control_all_done_def control_done_def joinable_threads_def
        list_all_iff split: if_splits)
qed

interpretation processor: piece_processor processor_ok joinable_threads control_start processor_wait
  control_request_stop control_request_cancellation control_running ct_started ct_cancelled control_done
proof (unfold_locales, goal_cases)
  case (1 s)
  then show ?case
    by (simp add: control_start_def processor_ok_def control_inv_def joinable_threads_def)
next
  case (2 s)
  then show ?case by (auto simp: control_start_def rbind_expects)
next
  case (3 s)
  then show ?case using control_inv_stop [of "length (ct_threads s)" s]
    by (auto simp: processor_ok_def joinable_threads_def control_request_stop_def)
next
  case (4 s)
  then show ?case using control_inv_cancel [of "length (ct_threads s)" s]
    by (auto simp: processor_ok_def joinable_threads_def control_request_stop_def control_request_cancellation_def)
next
  case (5 s)
  then have "0 < length (ct_threads s)" by (simp add: processor_ok_def control_inv_def)
  with 5 show ?case
    by (simp add: processor_wait_cases processor_ok_def control_inv_def joinable_threads_def control_done_def
        control_all_done_def list_all_iff)
next
  case (6 s)
  then show ?case by (simp add: processor_wait_def)
next
  case (7 s)
  then show ?case by (simp add: processor_wait_cases)
next
  case (8 s)
  then show ?case by (simp add: control_running_def processor_ok_def control_inv_def)
next
  case (9 s)
  then show ?case by (simp add: control_done_def)
qed

text \<open>The two processors of a v2 writer go through the same states when both are used.\<close>

definition v2_writer_ok :: "writer_control \<Rightarrow> bool" where
  "v2_writer_ok w \<longleftrightarrow> processor_ok (wc_v2 w) \<and>
     (wc_v1_compatible w \<longrightarrow> processor_ok (wc_v1 w) \<and> ct_started (wc_v1 w) = ct_started (wc_v2 w) \<and>
        ct_cancelled (wc_v1 w) = ct_cancelled (wc_v2 w) \<and>
        joinable_threads (wc_v1 w) = joinable_threads (wc_v2 w))"

definition v2_writer_fresh :: "writer_control \<Rightarrow> bool" where
  "v2_writer_fresh w \<longleftrightarrow> joinable_threads (wc_v2 w)"

lemmas v2_writer_flags = v2_writer_ok_def v2_writer_fresh_def v2_writer_started_def v2_writer_cancelled_def
  v2_writer_running_def v2_writer_done_def

lemma v2_writer_ok_flags:
  assumes "v2_writer_ok w"
  shows "v2_writer_started w = ct_started (wc_v2 w)" "v2_writer_cancelled w = ct_cancelled (wc_v2 w)"
  using assms by (auto simp: v2_writer_flags)

lemma stop_keeps_joinable [simp]:
  "joinable_threads (control_request_stop c) = joinable_threads c"
  "joinable_threads (control_request_cancellation c) = joinable_threads c"
  by (simp_all add: joinable_threads_def control_request_stop_def control_request_cancellation_def)

interpretation v2_writer: piece_processor v2_writer_ok v2_writer_fresh v2_writer_start v2_writer_wait
  v2_writer_request_stop v2_writer_request_cancellation v2_writer_running v2_writer_started v2_writer_cancelled
  v2_writer_done
proof (unfold_locales, goal_cases)
  case (1 w)
  then obtain c2 where "control_start (wc_v2 w) = Inr c2" "processor_ok c2" "joinable_threads c2" "ct_started c2" "\<not> ct_cancelled c2"
    using processor.start_law [of "wc_v2 w"] by (auto simp: v2_writer_flags)
  moreover have "wc_v1_compatible w \<Longrightarrow> \<exists>c1. control_start (wc_v1 w) = Inr c1 \<and> processor_ok c1 \<and> joinable_threads c1 \<and>
      ct_started c1 \<and> \<not> ct_cancelled c1"
    using processor.start_law [of "wc_v1 w"] 1 by (auto simp: v2_writer_flags)
  ultimately show ?case by (cases "wc_v1_compatible w") (auto simp: v2_writer_flags v2_writer_start_def)
next
  case (2 w)
  then have "control_start (wc_v2 w) = Inl Contract" "wc_v1_compatible w \<Longrightarrow> control_start (wc_v1 w) = Inl Contract"
    using v2_writer_ok_flags [of w] processor.start_refused by (auto simp: v2_writer_ok_def)
  then show ?case by (simp add: v2_writer_start_def)
next
  case (3 w)
  then show ?case using processor.stop_law [of "wc_v1 w"] processor.stop_law [of "wc_v2 w"]
    by (auto simp: v2_writer_flags v2_writer_request_stop_def)
next
  case (4 w)
  then show ?case using processor.cancel_law [of "wc_v1 w"] processor.cancel_law [of "wc_v2 w"]
    by (auto simp: v2_writer_flags v2_writer_request_cancellation_def)
next
  case (5 w)
  then obtain c2 where c2: "processor_wait (wc_v2 w) = Inr c2" "processor_ok c2" "\<not> joinable_threads c2" "ct_started c2"
      "ct_cancelled c2 = ct_cancelled (wc_v2 w)" "control_done c2"
    using processor.wait_law [of "wc_v2 w"] by (auto simp: v2_writer_flags)
  have "\<exists>c1. processor_wait (wc_v1 w) = Inr c1 \<and> processor_ok c1 \<and> \<not> joinable_threads c1 \<and>
      ct_started c1 \<and> ct_cancelled c1 = ct_cancelled (wc_v1 w) \<and> control_done c1" if "wc_v1_compatible w"
    using processor.wait_law [of "wc_v1 w"] 5 that by (auto simp: v2_writer_flags)
  with c2 5 show ?case by (cases "wc_v1_compatible w") (auto simp: v2_writer_flags v2_writer_wait_def)
next
  case (6 w)
  then show ?case using processor.wait_unstarted [of "wc_v1 w"] processor.wait_unstarted [of "wc_v2 w"]
    by (auto simp: v2_writer_flags v2_writer_wait_def)
next
  case (7 w)
  then show ?case using processor.wait_again [of "wc_v1 w"] processor.wait_again [of "wc_v2 w"]
    by (auto simp: v2_writer_flags v2_writer_wait_def)
next
  case (8 w)
  then show ?case using processor.running_law [of "wc_v1 w"] processor.running_law [of "wc_v2 w"]
    by (auto simp: v2_writer_flags)
next
  case (9 w)
  then show ?case by (auto simp: v2_writer_flags control_done_def)
qed

lemma piece_control_new_ok:
  "0 < n \<Longrightarrow> processor_ok (piece_control_new hardware n)"
  "0 < n \<Longrightarrow> v2_writer_ok (v2_writer_control_new hardware compatible n)"
  by (simp_all add: piece_control_new_def v2_writer_control_new_def v2_writer_ok_def processor_ok_def control_inv_def
      control_set_max_concurrency_def control_none_def)

section \<open>The threads of a driver\<close>

text \<open>What the drivers hold through a pointer to the abstract class.\<close>

datatype result_threads =
    V1_Writer control
  | V2_Writer writer_control
  | V1_Verifier control
  | V2_Verifier control

definition result_map :: "('a \<Rightarrow> 'b) \<Rightarrow> 'a result \<Rightarrow> 'b result" where
  "result_map f m = rbind m (\<lambda>x. Inr (f x))"

fun results_start :: "result_threads \<Rightarrow> result_threads result" where
  "results_start (V1_Writer c) = result_map V1_Writer (pm_start v1_piece_writer_members c)"
| "results_start (V2_Writer w) = result_map V2_Writer (pm_start v2_piece_writer_members w)"
| "results_start (V1_Verifier c) = result_map V1_Verifier (pm_start v1_piece_verifier_members c)"
| "results_start (V2_Verifier c) = result_map V2_Verifier (pm_start v2_piece_verifier_members c)"

fun results_request_stop :: "result_threads \<Rightarrow> result_threads" where
  "results_request_stop (V1_Writer c) = V1_Writer (pm_request_stop v1_piece_writer_members c)"
| "results_request_stop (V2_Writer w) = V2_Writer (pm_request_stop v2_piece_writer_members w)"
| "results_request_stop (V1_Verifier c) = V1_Verifier (pm_request_stop v1_piece_verifier_members c)"
| "results_request_stop (V2_Verifier c) = V2_Verifier (pm_request_stop v2_piece_verifier_members c)"

fun results_request_cancellation :: "result_threads \<Rightarrow> result_threads" where
  "results_request_cancellation (V1_Writer c) = V1_Writer (pm_request_cancellation v1_piece_writer_members c)"
| "results_request_cancellation (V2_Writer w) = V2_Writer (pm_request_cancellation v2_piece_writer_members w)"
| "results_request_cancellation (V1_Verifier c) = V1_Verifier (pm_request_cancellation v1_piece_verifier_members c)"
| "results_request_cancellation (V2_Verifier c) = V2_Verifier (pm_request_cancellation v2_piece_verifier_members c)"

fun results_wait :: "result_threads \<Rightarrow> result_threads result" where
  "results_wait (V1_Writer c) = result_map V1_Writer (pm_wait v1_piece_writer_members c)"
| "results_wait (V2_Writer w) = result_map V2_Writer (pm_wait v2_piece_writer_members w)"
| "results_wait (V1_Verifier c) = result_map V1_Verifier (pm_wait v1_piece_verifier_members c)"
| "results_wait (V2_Verifier c) = result_map V2_Verifier (pm_wait v2_piece_verifier_members c)"

fun results_done :: "result_threads \<Rightarrow> bool" where
  "results_done (V1_Writer c) = pm_done v1_piece_writer_members c"
| "results_done (V2_Writer w) = pm_done v2_piece_writer_members w"
| "results_done (V1_Verifier c) = pm_done v1_piece_verifier_members c"
| "results_done (V2_Verifier c) = pm_done v2_piece_verifier_members c"

fun results_queues :: "result_threads \<Rightarrow> result_queue option result \<times> result_queue option result" where
  "results_queues (V1_Writer c) = (pm_get_v1_queue v1_piece_writer_members c, pm_get_v2_queue v1_piece_writer_members c)"
| "results_queues (V2_Writer w) = (pm_get_v1_queue v2_piece_writer_members w, pm_get_v2_queue v2_piece_writer_members w)"
| "results_queues (V1_Verifier c) = (pm_get_v1_queue v1_piece_verifier_members c, pm_get_v2_queue v1_piece_verifier_members c)"
| "results_queues (V2_Verifier c) = (pm_get_v1_queue v2_piece_verifier_members c, pm_get_v2_queue v2_piece_verifier_members c)"

record driver_threads =
  dt_reader :: "unit reader_control"
  dt_hasher :: control
  dt_checksums :: "control list"
  dt_results :: result_threads

text \<open>The objects \<^verbatim>\<open>start\<close> makes; every checksum hasher has one thread, the piece processors have one each.\<close>

definition driver_threads_new :: "nat \<Rightarrow> bool \<Rightarrow> storage_driver \<Rightarrow> driver_threads result" where
  "driver_threads_new hardware verify s =
     rbind (hasher_control_new (sd_threads s)) (\<lambda>h.
     rbind (hasher_control_new 1) (\<lambda>c.
       Inr \<lparr>dt_reader = reader_control_new, dt_hasher = h,
            dt_checksums = (if verify then [] else replicate (length (sd_checksums s)) c),
            dt_results =
              (if verify
               then (if sd_protocol s = protocol_v1 then V1_Verifier (piece_control_new hardware 1)
                     else V2_Verifier (piece_control_new hardware 1))
               else (if sd_protocol s = protocol_v1 then V1_Writer (piece_control_new hardware 1)
                     else V2_Writer (v2_writer_control_new hardware (sd_protocol s = protocol_hybrid) 1)))\<rparr>))"

definition at_checksums :: "(control \<Rightarrow> control result) \<Rightarrow> nat \<Rightarrow> driver_threads \<Rightarrow> driver_threads result" where
  "at_checksums f i t =
     rbind (vec_at (dt_checksums t) i) (\<lambda>c. rbind (f c) (\<lambda>c. Inr (t\<lparr>dt_checksums := (dt_checksums t)[i := c]\<rparr>)))"

text \<open>A recorded call, made on the object it is for. The reader has no \<^verbatim>\<open>request_stop\<close>.\<close>

fun make_call :: "stage_call \<Rightarrow> driver_threads \<Rightarrow> driver_threads result" where
  "make_call (Call_Start Stage_Reader) t = result_map (\<lambda>r. t\<lparr>dt_reader := r\<rparr>) (reader_start (dt_reader t))"
| "make_call (Call_Start Stage_Hasher) t = result_map (\<lambda>c. t\<lparr>dt_hasher := c\<rparr>) (control_start (dt_hasher t))"
| "make_call (Call_Start (Stage_Checksums i)) t = at_checksums control_start i t"
| "make_call (Call_Start Stage_Results) t = result_map (\<lambda>r. t\<lparr>dt_results := r\<rparr>) (results_start (dt_results t))"
| "make_call (Call_Request_Stop Stage_Reader) t = Inl Undefined"
| "make_call (Call_Request_Stop Stage_Hasher) t = Inr (t\<lparr>dt_hasher := control_request_stop (dt_hasher t)\<rparr>)"
| "make_call (Call_Request_Stop (Stage_Checksums i)) t = at_checksums (\<lambda>c. Inr (control_request_stop c)) i t"
| "make_call (Call_Request_Stop Stage_Results) t = Inr (t\<lparr>dt_results := results_request_stop (dt_results t)\<rparr>)"
| "make_call (Call_Request_Cancellation Stage_Reader) t =
     Inr (t\<lparr>dt_reader := reader_request_cancellation (dt_reader t)\<rparr>)"
| "make_call (Call_Request_Cancellation Stage_Hasher) t =
     Inr (t\<lparr>dt_hasher := control_request_cancellation (dt_hasher t)\<rparr>)"
| "make_call (Call_Request_Cancellation (Stage_Checksums i)) t =
     at_checksums (\<lambda>c. Inr (control_request_cancellation c)) i t"
| "make_call (Call_Request_Cancellation Stage_Results) t =
     Inr (t\<lparr>dt_results := results_request_cancellation (dt_results t)\<rparr>)"
| "make_call (Call_Wait Stage_Reader) t = result_map (\<lambda>r. t\<lparr>dt_reader := r\<rparr>) (reader_wait (dt_reader t))"
| "make_call (Call_Wait Stage_Hasher) t = result_map (\<lambda>c. t\<lparr>dt_hasher := c\<rparr>) (hasher_wait (dt_hasher t))"
| "make_call (Call_Wait (Stage_Checksums i)) t = at_checksums hasher_wait i t"
| "make_call (Call_Wait Stage_Results) t = result_map (\<lambda>r. t\<lparr>dt_results := r\<rparr>) (results_wait (dt_results t))"

definition all_ended :: "driver_threads \<Rightarrow> bool" where
  "all_ended t \<longleftrightarrow> reader_done (dt_reader t) \<and> \<not> jt_joinable (rc_thread (dt_reader t)) \<and>
     (\<forall>c \<in> set (dt_hasher t # dt_checksums t). control_done c \<and> control_all_done c) \<and> results_done (dt_results t)"

text \<open>The members are destroyed in the reverse of their order in the class.\<close>

fun results_destroy :: "result_threads \<Rightarrow> unit result" where
  "results_destroy (V1_Writer c) = processor_destroy c"
| "results_destroy (V2_Writer w) = rbind (processor_destroy (wc_v2 w)) (\<lambda>_. processor_destroy (wc_v1 w))"
| "results_destroy (V1_Verifier c) = processor_destroy c"
| "results_destroy (V2_Verifier c) = processor_destroy c"

definition driver_threads_destroy :: "driver_threads \<Rightarrow> unit result" where
  "driver_threads_destroy t =
     rbind (results_destroy (dt_results t)) (\<lambda>_.
     rbind (rfold (\<lambda>c _. hasher_destroy c) (dt_checksums t) ()) (\<lambda>_.
     rbind (hasher_destroy (dt_hasher t)) (\<lambda>_.
       reader_destroy (dt_reader t))))"

section \<open>The states of the threads during a session\<close>

definition idle :: "nat \<Rightarrow> control" where
  "idle n = control_none\<lparr>ct_threads := replicate n Not_Joinable, ct_done := replicate n False\<rparr>"

definition alive :: "nat \<Rightarrow> bool \<Rightarrow> bool \<Rightarrow> control" where
  "alive n s c = control_none\<lparr>ct_threads := replicate n (Joinable s False), ct_done := replicate n False,
     ct_started := True, ct_cancelled := c\<rparr>"

definition joined :: "nat \<Rightarrow> bool \<Rightarrow> control" where
  "joined n c = control_none\<lparr>ct_threads := replicate n Not_Joinable, ct_done := replicate n True,
     ct_started := True, ct_cancelled := c\<rparr>"

lemmas control_states = idle_def alive_def joined_def control_none_def

named_theorems session_simps "the calls of a session on threads in a known state"

lemma session_states [session_simps]:
  "0 < n \<Longrightarrow> hasher_control_new n = Inr (idle n)"
  "0 < n \<Longrightarrow> piece_control_new hardware n = idle n"
  "control_start (idle n) = Inr (alive n False False)"
  "control_request_stop (alive n s c) = alive n True c"
  "control_request_cancellation (alive n s c) = alive n True True"
  "control_done (joined n c)" "control_all_done (joined n c)"
  "hasher_destroy (joined n c) = Inr ()" "processor_destroy (joined n c) = Inr ()"
  by (auto simp: control_states hasher_control_new_def piece_control_new_def control_set_max_concurrency_def
      control_start_def map_replicate_const control_request_stop_def control_request_cancellation_def control_done_def
      control_all_done_def list_all_iff hasher_destroy_def processor_destroy_def)

lemma session_wait [session_simps]:
  "hasher_wait (alive n s c) = Inr (joined n c)" "processor_wait (alive n s c) = Inr (joined n c)"
  using control_join_all_joins [of "alive n s c"]
  by (simp_all add: hasher_wait_def processor_wait_def control_states control_all_done_def control_done_def list_all_iff)

text \<open>The piece processor of a driver with all its threads in one state.\<close>

definition results_in :: "bool \<Rightarrow> protocol \<Rightarrow> control \<Rightarrow> result_threads" where
  "results_in verify p c =
     (if verify then (if p = protocol_v1 then V1_Verifier c else V2_Verifier c)
      else if p = protocol_v1 then V1_Writer c
      else V2_Writer \<lparr>wc_v1_compatible = (p = protocol_hybrid),
        wc_v1 = (if p = protocol_hybrid then c else control_none), wc_v2 = c\<rparr>)"

lemmas piece_member_defs = v1_piece_writer_members_def v1_piece_verifier_members_def
  v2_piece_writer_members_def v2_piece_verifier_members_def

lemma session_results [session_simps]:
  "results_start (results_in v p (idle n)) = Inr (results_in v p (alive n False False))"
  "results_request_stop (results_in v p (alive n s c)) = results_in v p (alive n True c)"
  "results_request_cancellation (results_in v p (alive n s c)) = results_in v p (alive n True True)"
  "results_wait (results_in v p (alive n s c)) = Inr (results_in v p (joined n c))"
  "results_done (results_in v p (joined n c))"
  "results_destroy (results_in v p (joined n c)) = Inr ()"
  by (simp_all add: results_in_def piece_member_defs result_map_def session_simps v2_writer_start_def
      v2_writer_request_stop_def v2_writer_request_cancellation_def v2_writer_wait_def v2_writer_done_def)
    (simp_all add: processor_destroy_def control_none_def)

text \<open>The reader after \<^verbatim>\<open>start\<close> and after \<^verbatim>\<open>wait\<close>.\<close>

definition reader_in :: "jthread \<Rightarrow> bool \<Rightarrow> unit reader_control" where
  "reader_in t c = reader_control_new\<lparr>rc_thread := t, rc_started := True, rc_cancelled := c\<rparr>"

lemma session_reader [session_simps]:
  "reader_start reader_control_new = Inr (reader_in (Joinable False False) False)"
  "reader_request_cancellation (reader_in t c) = reader_in t True"
  "reader_wait (reader_in (Joinable b e) c) = Inr (reader_in Not_Joinable c)"
  "reader_done (reader_in Not_Joinable c)" "rc_thread (reader_in t c) = t"
  "reader_destroy (reader_in Not_Joinable c) = Inr ()"
  by (simp_all add: reader_in_def reader_control_new_def reader_start_def reader_request_cancellation_def
      reader_wait_def reader_done_def reader_destroy_def)

lemma checksum_round:
  assumes "\<And>i t. make_call (g i) t = at_checksums f i t" "f c = Inr c'" "dt_checksums t = replicate m c"
  shows "rfold make_call (map g [0..<m]) t = Inr (t\<lparr>dt_checksums := replicate m c'\<rparr>)"
proof -
  have "k \<le> m \<Longrightarrow> rfold make_call (map g [0..<k]) t
      = Inr (t\<lparr>dt_checksums := replicate k c' @ replicate (m - k) c\<rparr>)" for k
  proof (induction k)
    case 0
    from assms(3) show ?case by (cases t) simp
  next
    case (Suc k)
    then have "(replicate k c' @ replicate (m - k) c)[k := c'] = replicate (Suc k) c' @ replicate (m - Suc k) c"
      by (simp add: list_update_append Cons_replicate_eq replicate_append_same flip: Suc_diff_Suc)
    moreover have "(replicate k c' @ replicate (m - k) c) ! k = c"
      using Suc.prems by (simp add: nth_append)
    ultimately show ?case
      using Suc assms(1,2) by (simp add: rfold_append at_checksums_def)
  qed
  from this [of m] show ?thesis by simp
qed

definition threads_in ::
    "bool \<Rightarrow> protocol \<Rightarrow> nat \<Rightarrow> unit reader_control \<Rightarrow> control \<Rightarrow> control \<Rightarrow> control \<Rightarrow> driver_threads" where
  "threads_in verify p m r h c d =
     \<lparr>dt_reader = r, dt_hasher = h, dt_checksums = replicate m c, dt_results = results_in verify p d\<rparr>"

lemma session_round [session_simps]:
  "rfold make_call (map (\<lambda>i. Call_Start (Stage_Checksums i)) [0..<m]) (threads_in v p m r h (idle n) d)
     = Inr (threads_in v p m r h (alive n False False) d)"
  "rfold make_call (map (\<lambda>i. Call_Request_Stop (Stage_Checksums i)) [0..<m]) (threads_in v p m r h (alive n s c) d)
     = Inr (threads_in v p m r h (alive n True c) d)"
  "rfold make_call (map (\<lambda>i. Call_Request_Cancellation (Stage_Checksums i)) [0..<m]) (threads_in v p m r h (alive n s c) d)
     = Inr (threads_in v p m r h (alive n True True) d)"
  "rfold make_call (map (\<lambda>i. Call_Wait (Stage_Checksums i)) [0..<m]) (threads_in v p m r h (alive n s c) d)
     = Inr (threads_in v p m r h (joined n c) d)"
  using checksum_round [of "\<lambda>i. Call_Start (Stage_Checksums i)" control_start "idle n" "alive n False False"
      "threads_in v p m r h (idle n) d" m]
    checksum_round [of "\<lambda>i. Call_Request_Stop (Stage_Checksums i)" "\<lambda>c. Inr (control_request_stop c)" "alive n s c"
      "alive n True c" "threads_in v p m r h (alive n s c) d" m]
    checksum_round [of "\<lambda>i. Call_Request_Cancellation (Stage_Checksums i)" "\<lambda>c. Inr (control_request_cancellation c)"
      "alive n s c" "alive n True True" "threads_in v p m r h (alive n s c) d" m]
    checksum_round [of "\<lambda>i. Call_Wait (Stage_Checksums i)" hasher_wait "alive n s c" "joined n c"
      "threads_in v p m r h (alive n s c) d" m]
  by (simp_all add: threads_in_def session_simps)

lemma session_call [session_simps]:
  "make_call (Call_Start Stage_Reader) (threads_in v p m reader_control_new h k d)
     = Inr (threads_in v p m (reader_in (Joinable False False) False) h k d)"
  "make_call (Call_Start Stage_Hasher) (threads_in v p m r (idle n) k d)
     = Inr (threads_in v p m r (alive n False False) k d)"
  "make_call (Call_Start Stage_Results) (threads_in v p m r h k (idle n))
     = Inr (threads_in v p m r h k (alive n False False))"
  "make_call (Call_Request_Stop Stage_Hasher) (threads_in v p m r (alive n s c) k d)
     = Inr (threads_in v p m r (alive n True c) k d)"
  "make_call (Call_Request_Stop Stage_Results) (threads_in v p m r h k (alive n s c))
     = Inr (threads_in v p m r h k (alive n True c))"
  "make_call (Call_Request_Cancellation Stage_Reader) (threads_in v p m (reader_in t c) h k d)
     = Inr (threads_in v p m (reader_in t True) h k d)"
  "make_call (Call_Request_Cancellation Stage_Hasher) (threads_in v p m r (alive n s c) k d)
     = Inr (threads_in v p m r (alive n True True) k d)"
  "make_call (Call_Request_Cancellation Stage_Results) (threads_in v p m r h k (alive n s c))
     = Inr (threads_in v p m r h k (alive n True True))"
  "make_call (Call_Wait Stage_Reader) (threads_in v p m (reader_in (Joinable b e) c) h k d)
     = Inr (threads_in v p m (reader_in Not_Joinable c) h k d)"
  "make_call (Call_Wait Stage_Hasher) (threads_in v p m r (alive n s c) k d)
     = Inr (threads_in v p m r (joined n c) k d)"
  "make_call (Call_Wait Stage_Results) (threads_in v p m r h k (alive n s c))
     = Inr (threads_in v p m r h k (joined n c))"
  by (simp_all add: threads_in_def result_map_def session_simps)

declare make_call.simps [simp del]

lemma session_end:
  "all_ended (threads_in v p m (reader_in Not_Joinable c) (joined n c) (joined k c) (joined l c))"
  "driver_threads_destroy (threads_in v p m (reader_in Not_Joinable c) (joined n c) (joined k c) (joined l c)) = Inr ()"
proof -
  have "rfold (\<lambda>c _. hasher_destroy c) (replicate m (joined k c)) () = Inr ()" for m
    by (induction m) (simp_all add: session_simps)
  then show "driver_threads_destroy (threads_in v p m (reader_in Not_Joinable c) (joined n c) (joined k c) (joined l c)) = Inr ()"
    by (simp add: driver_threads_destroy_def threads_in_def session_simps)
qed (auto simp: all_ended_def threads_in_def session_simps)

lemma driver_threads_made:
  assumes "0 < sd_threads s"
  shows "driver_threads_new hardware verify s
    = Inr (threads_in verify (sd_protocol s) (if verify then 0 else length (sd_checksums s)) reader_control_new
        (idle (sd_threads s)) (idle 1) (idle 1))"
  using assms
  by (simp add: driver_threads_new_def threads_in_def results_in_def session_simps v2_writer_control_new_def
      flip: piece_control_new_def)

section \<open>Sessions of the piece processors\<close>

lemma v2_writer_new_flags:
  "\<not> v2_writer_started (v2_writer_control_new hardware compatible n)"
  "\<not> v2_writer_cancelled (v2_writer_control_new hardware compatible n)"
  "\<not> ct_started (piece_control_new hardware n)" "\<not> ct_cancelled (piece_control_new hardware n)"
  by (simp_all add: v2_writer_started_def v2_writer_cancelled_def v2_writer_control_new_def piece_control_new_def
      control_set_max_concurrency_def control_none_def)

text \<open>
  Started, stopped and waited for, a piece processor is done, still counts as running and refuses both a
  second \<^verbatim>\<open>wait\<close> and a second \<^verbatim>\<open>start\<close>; cancelled before its start it can never be started.
\<close>

lemma v2_writer_session:
  assumes "0 < n"
  shows "\<exists>w. rbind (v2_writer_start (v2_writer_control_new hardware compatible n)) (\<lambda>w. v2_writer_wait (v2_writer_request_stop w)) = Inr w \<and>
      v2_writer_done w \<and> v2_writer_running w \<and> v2_writer_wait w = Inl System_Error \<and> v2_writer_start w = Inl Contract"
  using assms by (intro v2_writer.session piece_control_new_ok v2_writer_new_flags)

lemma v2_writer_cancelled_session:
  assumes "0 < n"
  shows "\<exists>w. rbind (v2_writer_start (v2_writer_control_new hardware compatible n)) (\<lambda>w. v2_writer_wait (v2_writer_request_cancellation w)) = Inr w \<and>
      v2_writer_done w \<and> \<not> v2_writer_running w"
  using assms by (intro v2_writer.cancelled_session piece_control_new_ok v2_writer_new_flags)

lemma piece_processor_session:
  assumes "0 < n"
  shows "\<exists>c. rbind (control_start (piece_control_new hardware n)) (\<lambda>c. processor_wait (control_request_stop c)) = Inr c \<and>
      control_done c \<and> control_running c \<and> processor_wait c = Inl System_Error \<and> control_start c = Inl Contract"
  using assms by (intro processor.session piece_control_new_ok v2_writer_new_flags)

lemma v2_writer_cancelled_before_start:
  assumes "0 < n"
  shows "v2_writer_start (v2_writer_request_cancellation (v2_writer_control_new hardware compatible n)) = Inl Contract"
  using v2_writer.cancelled_before_start [OF piece_control_new_ok(2) [OF assms] v2_writer_new_flags(1)] by blast

section \<open>The queues the drivers register\<close>

lemma started_stages:
  assumes "(if verify then storage_verifier_start isal s else storage_hasher_start isal s) = Inr s1"
  shows "0 < sd_threads s" "sd_protocol s1 = sd_protocol s" "sd_threads s1 = sd_threads s"
    "sd_checksums s1 = sd_checksums s" "sd_started s1" "\<not> sd_started s"
    "\<exists>g. sd_stages s1 = Some g \<and> sg_checksums g = (if verify then [] else sd_checksums s) \<and>
      sg_v1_queue g = (sd_protocol s = protocol_v1 \<or> \<not> verify \<and> sd_protocol s = protocol_hybrid) \<and>
      sg_v2_queue g = (sd_protocol s \<noteq> protocol_v1)"
    "sd_calls s1 = sd_calls s @ [Call_Start Stage_Results, Call_Start Stage_Hasher] @
      map (\<lambda>i. Call_Start (Stage_Checksums i)) [0..<if verify then 0 else length (sd_checksums s)] @ [Call_Start Stage_Reader]"
  using assms
  by (auto simp: storage_hasher_start_def storage_verifier_start_def Let_def result_simps call_stages_def split: if_splits)

text \<open>A queue is registered with the hasher exactly when the piece processor has it to give.\<close>

lemma registered_queues:
  assumes "(if verify then storage_verifier_start isal s else storage_hasher_start isal s) = Inr s1"
  shows "\<exists>g t. sd_stages s1 = Some g \<and> driver_threads_new hardware verify s = Inr t \<and>
    (sg_v1_queue g \<longleftrightarrow> fst (results_queues (dt_results t)) = Inr (Some V1_Result_Queue)) \<and>
    (sg_v2_queue g \<longleftrightarrow> snd (results_queues (dt_results t)) = Inr (Some V2_Result_Queue))"
  using started_stages(7) [OF assms] driver_threads_made [OF started_stages(1) [OF assms], of hardware verify]
  by (auto simp: threads_in_def results_in_def piece_member_defs)

section \<open>Property\<close>

text \<open>
  \<^verbatim>\<open>storage_hasher::wait\<close> expects the hasher to run before and after it waits for the reader; it does.
\<close>

lemma hasher_runs_while_reader_is_awaited:
  fixes p v m n
  defines "t \<equiv> threads_in v p m reader_control_new (idle n) (idle 1) (idle 1)"
    and "starts \<equiv> [Call_Start Stage_Results, Call_Start Stage_Hasher] @
      map (\<lambda>i. Call_Start (Stage_Checksums i)) [0..<m] @ [Call_Start Stage_Reader]"
  shows "\<exists>t'. rfold make_call starts t = Inr t' \<and> control_running (dt_hasher t')"
    and "\<exists>t'. rfold make_call (starts @ [Call_Wait Stage_Reader]) t = Inr t' \<and> control_running (dt_hasher t')"
proof -
  have "control_running (alive n False False)" by (simp add: control_running_def control_states)
  then show "\<exists>t'. rfold make_call starts t = Inr t' \<and> control_running (dt_hasher t')"
    and "\<exists>t'. rfold make_call (starts @ [Call_Wait Stage_Reader]) t = Inr t' \<and> control_running (dt_hasher t')"
    by (simp_all add: t_def starts_def rfold_append session_simps) (simp_all add: threads_in_def)
qed

lemma session_joins:
  fixes p v m n
  defines "t \<equiv> threads_in v p m reader_control_new (idle n) (idle 1) (idle 1)"
    and "starts \<equiv> [Call_Start Stage_Results, Call_Start Stage_Hasher] @
      map (\<lambda>i. Call_Start (Stage_Checksums i)) [0..<m] @ [Call_Start Stage_Reader]"
  shows "rfold make_call (starts @ [Call_Wait Stage_Reader, Call_Request_Stop Stage_Hasher] @
      map (\<lambda>i. Call_Request_Stop (Stage_Checksums i)) [0..<m] @ [Call_Wait Stage_Hasher] @
      map (\<lambda>i. Call_Wait (Stage_Checksums i)) [0..<m] @ [Call_Request_Stop Stage_Results, Call_Wait Stage_Results]) t
    = Inr (threads_in v p m (reader_in Not_Joinable False) (joined n False) (joined 1 False) (joined 1 False))"
  and "rfold make_call (starts @ [Call_Request_Cancellation Stage_Reader, Call_Request_Cancellation Stage_Hasher] @
      map (\<lambda>i. Call_Request_Cancellation (Stage_Checksums i)) [0..<m] @ [Call_Request_Cancellation Stage_Results] @
      [Call_Wait Stage_Reader, Call_Wait Stage_Hasher] @ map (\<lambda>i. Call_Wait (Stage_Checksums i)) [0..<m] @
      [Call_Wait Stage_Results]) t
    = Inr (threads_in v p m (reader_in Not_Joinable True) (joined n True) (joined 1 True) (joined 1 True))"
  by (simp_all add: t_def starts_def rfold_append session_simps)



end
