(* ===== verification/Spec2Isabelle.thy ===== *)
theory Spec2Isabelle
  imports Percent_Encoding Info_Hash Announce Piece_Verifiers Chunk_Readers Pipelines
    Checksum_Hashers Queue_Processor Storage_Hasher Metafile_Hybrid Metafile_Refusals Magnet_Uri
    Hasher_Backends Piece_Layers V2_Pipeline Piece_Processors
begin

text \<open>
  A verification development for dottorrent, a C++ library that creates, reads, writes and verifies
  BitTorrent metafiles of the versions v1, v2 and hybrid. This theory imports all others and holds no
  definitions; paths below are relative to \<^verbatim>\<open>src/include/dottorrent\<close> and \<^verbatim>\<open>src/src\<close>.

  The program and the theories.

  Values. \<open>Prelude\<close> has the vocabulary: an operation of the library that can leave early returns a value of
  type \<open>result\<close>, whose errors tell a violated gsl contract, the classes of exceptions, undefined behaviour, a
  loop that never ends and termination apart; \<^verbatim>\<open>std::size_t\<close> is a natural number with the 64-bit
  wrap-around written out. \<open>General\<close> has the enumerations and bitmask operators (\<^verbatim>\<open>general.hpp\<close>), \<open>Hex\<close> and
  \<open>Percent_Encoding\<close> the text encodings, \<open>Hashes\<close> the digests (\<^verbatim>\<open>hash.hpp\<close>, \<^verbatim>\<open>hash_function.hpp\<close>),
  \<open>Checksums\<close> and \<open>Info_Hash\<close> what is built on them, and \<open>Ordered_Map\<close> the string maps of the standard library.

  The content of a torrent. \<open>Announce\<close> is the tiered list of trackers (\<^verbatim>\<open>announce_url_list.cpp\<close>), \<open>File_Entry\<close>
  one file (\<^verbatim>\<open>file_entry.cpp\<close>), \<open>File_Storage\<close> the files with the v1 pieces (\<^verbatim>\<open>file_storage.cpp\<close>), \<open>Metafile\<close> the
  class that holds everything (\<^verbatim>\<open>metafile.cpp\<close>). A class is a record of its members; a member function that
  changes the object returns the changed record.

  Hashing and verifying. \<open>Hasher\<close> is the interface to the cryptographic libraries and \<open>Hasher_Backends\<close>
  the classes behind it; \<open>Merkle_Tree\<close> the tree of a v2 file. A reader (\<open>Chunk_Readers\<close>: \<^verbatim>\<open>v1_chunk_reader.cpp\<close>,
  \<^verbatim>\<open>v2_chunk_reader.cpp\<close>) pushes chunks of the files into bounded queues (\<open>Concurrent_Queue\<close>), hashing threads
  (\<open>Worker_Pool\<close>: \<^verbatim>\<open>chunk_processor_base.cpp\<close>) turn each chunk into digests (\<open>Chunk_Hashers\<close>: the four
  \<^verbatim>\<open>hash_chunk\<close> functions; \<open>Checksum_Hashers\<close>), and result threads (\<open>Queue_Processor\<close>:
  \<^verbatim>\<open>concurrent_queue_processor.hpp\<close>) give them to an object that stores or compares them (\<open>Piece_Writers\<close>,
  \<open>Piece_Verifiers\<close>). \<open>Storage_Hasher\<close> has the two drivers that wire, start, stop and observe the stages
  (\<^verbatim>\<open>storage_hasher.cpp\<close>, \<^verbatim>\<open>storage_verifier.cpp\<close>), \<open>Piece_Layers\<close> the check of piece layers. \<open>Thread_Control\<close>
  has the flags, \<^verbatim>\<open>wait\<close> and the destructors of everything that owns threads, and \<open>Piece_Processors\<close> the
  abstract class \<^verbatim>\<open>hashed_piece_processor.hpp\<close> as a record of functions with its four implementations.

  Reading and writing. \<open>Bencode_Values\<close> is the interface of the bencode library, \<open>Metafile_Serialization\<close> and
  \<open>Metafile_Parsing\<close> are \<^verbatim>\<open>metafile_serialization.cpp\<close> and \<^verbatim>\<open>metafile_parsing.cpp\<close> function by function,
  \<open>Magnet_Uri\<close> the links (\<^verbatim>\<open>magnet_uri.hpp\<close>, \<^verbatim>\<open>magnet_uri.cpp\<close>).

  What is proved.

  Round trips: \<open>Metafile_Round_Trip\<close>, \<open>Metafile_V2\<close> and \<open>Metafile_Hybrid\<close> read back what was written, for the three
  formats, and state what does not come back; \<open>Magnet_Uri\<close> does so for links. \<open>Metafile_Wellformed\<close>: whatever is
  read, a metafile that comes out is well formed. \<open>Metafile_Tree\<close>: the loop over the file tree, a partial
  function with \<open>None\<close> for not ending, ends on every value of finite depth; no fuel is used anywhere in the
  development. \<open>Metafile_Refusals\<close>: input that ends in a violated contract or in undefined behaviour.

  End to end: \<open>Pipelines\<close> and \<open>V2_Pipeline\<close> compose reader, threads and result objects: for every
  interleaving of the threads and every order of the results the storage ends with the digests of the data on
  disk, and the verifiers with the right marks. They rest on the properties of the parts: the chunks of a reader
  are the files in order (\<open>Chunk_Readers\<close>), single- and multi-buffer hashers agree (\<open>Chunk_Hashers\<close>), updating
  a tree computes the recursive Merkle hash (\<open>Merkle_Tree\<close>), and two interfaces, the locales \<open>piece_sink\<close> and
  \<open>leaf_collector\<close>, which make the result independent of the order and are interpreted for the v1 and the v2
  writers and verifiers.

  Threads: \<open>Worker_Pool\<close> and \<open>Queue_Processor\<close> are step relations over all threads and their owner, with an
  invariant by rule induction, progress, a weight that every step decreases, and the schedules that block or
  fail: too small a queue, and cancellation. The number of threads and the capacity are arbitrary; the bound of
  two places per thread is the number of wake-ups \<^verbatim>\<open>request_stop\<close> and \<^verbatim>\<open>wait\<close> push. The life of the objects
  around the threads is treated apart: \<open>Thread_Control\<close> tells when a destructor returns, and
  \<open>Piece_Processors\<close> has the contract of a piece processor (locale \<open>piece_processor\<close>, interpreted on one processor
  and on the two of the v2 writer) and shows that the calls the drivers record join every thread once.

  Containers: \<open>Announce\<close> refines lists of lists (locale \<open>tiered_container\<close>), \<open>Ordered_Map\<close> finite maps (locale
  \<open>string_map\<close>), the pool of \<open>Concurrent_Queue\<close> is bounded, \<open>File_Storage\<close> keeps its totals and aligns files.

  Where the code does not do what it means to, a theorem states what it does instead.

  Conventions and limits.

  Code outside the repository is a parameter: digests and the calls of the cryptographic libraries, the bencode
  library and its encoders, number formatting, \<^verbatim>\<open>std::hash\<close>, the traversal order of unordered sets, the content
  of a moved-from map. The laws the proofs use (\<open>bencode_laws\<close>, \<open>platform_ok\<close>, \<open>openssl_laws\<close>, \<open>depth_of\<close>) are what the
  documentation of that code promises, and every theorem that assumes one is applied to an instance. Members that are
  read before they were written are parameters as well. The disk is a map from paths to contents; iterators are positions; percentages
  are exact rationals. Atomic variables are sequentially consistent, the queue operations are single
  steps, and so is the hashing of one item. In the end-to-end theorems the modification times which the reader
  records are left out.

  Not modelled: the wrappers of gcrypt (its hasher class is not in the repository), BCrypt and wolfSSL, error
  categories, version strings and the allocation of contexts, because they only call foreign code;
  \<^verbatim>\<open>aligned_allocator.hpp\<close>, locks, copy and move members that only copy, and iterator adaptors; I/O errors of
  streams; the tests and build files. \<^verbatim>\<open>capacity\<close> and \<^verbatim>\<open>clear\<close> of the object pool call members its queue does not
  have and cannot be instantiated.
\<close>

end
